(* ===== verification/Raft_Prelude.thy ===== *)
theory Raft_Prelude
  imports "HOL-Library.Word" "HOL-Library.Multiset"
begin

text \<open>
  What every theory of the development shares: the widths of the program's integers, Go's errors and
  panics as values, the two result types of the model with their sequencing operators, and the
  generic lemmas on lists and 64-bit words.

  A Go function that only reads returns a \<open>result\<close>: a value, an error, or \<open>Crash\<close> where the Go code
  panics. A Go method that mutates its receiver and may
  fail returns an \<open>outcome\<close>, which always carries the receiver's state at the moment the method
  stopped: an error return keeps every mutation made before it (the callers rely on that, a message
  that is ignored may already have advanced the term), and a panic keeps it too, because durable
  state outlives the process.
\<close>

section \<open>Machine types\<close>

type_synonym byte = "8 word"
type_synonym bytes = "byte list"
type_synonym uint64 = "64 word"

text \<open>\<open>NodeID\<close>, \<open>Term\<close> and \<open>Index\<close> are all declared \<open>uint64\<close> in \<open>raft/types.go\<close>.\<close>

type_synonym NodeID = uint64
type_synonym Term = uint64
type_synonym Index = uint64

text \<open>
  Go's \<open>int\<close> has 64 bits. Counters that cannot come near the ends of its range are unbounded integers;
  a sum that can leave the range is wrapped.
\<close>

definition wrap_int :: "int \<Rightarrow> int" where
  "wrap_int x = (x + 2 ^ 63) mod 2 ^ 64 - 2 ^ 63"

lemma wrap_int_id: "- (2 ^ 63) \<le> x \<Longrightarrow> x < 2 ^ 63 \<Longrightarrow> wrap_int x = x"
  by (simp add: wrap_int_def)

section \<open>Errors and results\<close>

text \<open>
  The sentinel errors of the program, by name. An error made with \<open>fmt.Errorf\<close> around a sentinel
  (\<open>%w\<close>) is that sentinel, since callers only ask \<open>errors.Is\<close>; an error with no sentinel is
  \<open>ErrMsg\<close> with the constant part of its text.
\<close>

datatype goerr =
    ErrIgnoredMessage
  | ErrNotLeader
  | ErrReadIndexUnavailable
  | ErrConfChangeInProgress
  | ErrConfChangeInvalid goerr
  | ErrEmptyConfiguration
  | ErrCompacted
  | ErrUnavailable
  | ErrSnapshotOutOfDate
  | ErrSafetyViolation
  | ErrNothingToSnapshot
  | ErrStopped
  | ErrProposalDropped
  | ErrMsg string

datatype 'a result = Ok 'a | Err goerr | Crash

datatype ('a, 's) outcome = Done 'a 's | Fail goerr 's | Panic 's

text \<open>\<open>if x, err := f(); err != nil { return err }\<close> for a reader.\<close>

fun rbind :: "'a result \<Rightarrow> ('a \<Rightarrow> 'b result) \<Rightarrow> 'b result" where
  "rbind (Ok a) f = f a"
| "rbind (Err e) f = Err e"
| "rbind Crash f = Crash"

text \<open>The same for a mutating method: an error or a panic ends the caller with the current state.\<close>

fun bind :: "('a, 's) outcome \<Rightarrow> ('a \<Rightarrow> 's \<Rightarrow> ('b, 's) outcome) \<Rightarrow> ('b, 's) outcome" where
  "bind (Done a s) f = f a s"
| "bind (Fail e s) f = Fail e s"
| "bind (Panic s) f = Panic s"

text \<open>A reader called by a mutating method; the panic of the reader is the panic of the method.\<close>

fun lift :: "'a result \<Rightarrow> 's \<Rightarrow> ('a, 's) outcome" where
  "lift (Ok a) s = Done a s"
| "lift (Err e) s = Fail e s"
| "lift Crash s = Panic s"

text \<open>Run a method of a component (state \<open>'t\<close>) embedded in a larger state \<open>'s\<close>.\<close>

fun embed :: "('t \<Rightarrow> 's) \<Rightarrow> ('a, 't) outcome \<Rightarrow> ('a, 's) outcome" where
  "embed put (Done a t) = Done a (put t)"
| "embed put (Fail e t) = Fail e (put t)"
| "embed put (Panic t) = Panic (put t)"

fun state_of :: "('a, 's) outcome \<Rightarrow> 's" where
  "state_of (Done a s) = s"
| "state_of (Fail e s) = s"
| "state_of (Panic s) = s"

text \<open>
  The postcondition of a method: \<open>Q\<close> if it returns a value, \<open>E\<close> if it returns an error, \<open>P\<close> if
  it panics. A postcondition of \<open>\<lambda>_. False\<close> for panics states that there is none.
\<close>

fun post :: "('a \<Rightarrow> 's \<Rightarrow> bool) \<Rightarrow> (goerr \<Rightarrow> 's \<Rightarrow> bool) \<Rightarrow> ('s \<Rightarrow> bool) \<Rightarrow> ('a, 's) outcome \<Rightarrow> bool" where
  "post Q E P (Done a s) = Q a s"
| "post Q E P (Fail e s) = E e s"
| "post Q E P (Panic s) = P s"

text \<open>The same state predicate on every exit.\<close>

abbreviation always :: "('s \<Rightarrow> bool) \<Rightarrow> ('a, 's) outcome \<Rightarrow> bool" where
  "always I \<equiv> post (\<lambda>_. I) (\<lambda>_. I) I"

text \<open>\<open>for _, x := range xs { body }\<close> over a list the body does not change.\<close>

fun for_each :: "('a \<Rightarrow> 's \<Rightarrow> (unit, 's) outcome) \<Rightarrow> 'a list \<Rightarrow> 's \<Rightarrow> (unit, 's) outcome" where
  "for_each f [] s = Done () s"
| "for_each f (x # xs) s = bind (f x s) (\<lambda>_ s. for_each f xs s)"

named_theorems post_intros \<open>postconditions of the model's methods\<close>

lemma post_bind [post_intros]:
  assumes "post (\<lambda>a s. post Q E P (f a s)) E P m"
  shows "post Q E P (bind m f)"
  using assms by (cases m) auto

lemma post_bind_iff:
  "post Q E P (bind m f) = post (\<lambda>a s. post Q E P (f a s)) E P m"
  by (cases m) auto

lemma post_embed_iff:
  "post Q E P (embed put m) = post (\<lambda>a t. Q a (put t)) (\<lambda>e t. E e (put t)) (\<lambda>t. P (put t)) m"
  by (cases m) auto

lemma post_lift_iff:
  "post Q E P (lift r s) \<longleftrightarrow>
     (\<forall>a. r = Ok a \<longrightarrow> Q a s) \<and> (\<forall>e. r = Err e \<longrightarrow> E e s) \<and> (r = Crash \<longrightarrow> P s)"
  by (cases r) auto

lemma post_mono:
  assumes "post Q E P m"
    and "\<And>a s. Q a s \<Longrightarrow> Q' a s" and "\<And>e s. E e s \<Longrightarrow> E' e s" and "\<And>s. P s \<Longrightarrow> P' s"
  shows "post Q' E' P' m"
  using assms by (cases m) auto

lemma post_conj:
  assumes "post Q E P m" and "post Q' E' P' m"
  shows "post (\<lambda>a s. Q a s \<and> Q' a s) (\<lambda>e s. E e s \<and> E' e s) (\<lambda>s. P s \<and> P' s) m"
  using assms by (cases m) auto

lemma post_seq:
  assumes "post (\<lambda>_. J) E P m" and "\<And>a s. J s \<Longrightarrow> post Q E P (f a s)"
  shows "post Q E P (bind m f)"
  using assms by (cases m) auto

lemma always_lift: "I s \<Longrightarrow> always I (lift r s)"
  by (cases r) auto

lemma post_True [simp]: "post (\<lambda>_ _. True) (\<lambda>_ _. True) (\<lambda>_. True) m"
  by (cases m) auto

lemma for_each_inv:
  assumes "I s" and "\<And>x s. x \<in> set xs \<Longrightarrow> I s \<Longrightarrow> post (\<lambda>_. I) E P (f x s)"
  shows "post (\<lambda>_. I) E P (for_each f xs s)"
  using assms
proof (induction xs arbitrary: s)
  case (Cons x xs)
  have "post (\<lambda>a s. post (\<lambda>_. I) E P (for_each f xs s)) E P (f x s)"
    by (rule post_mono [where Q = "\<lambda>_. I" and E = E and P = P]) (use Cons in auto)
  then show ?case by (simp add: post_bind_iff)
qed simp

lemma always_state_of: "always I m = I (state_of m)"
  by (cases m) auto

lemma bind_cong [fundef_cong]:
  assumes "m = m'" and "\<And>a s. m' = Done a s \<Longrightarrow> f a s = g a s"
  shows "bind m f = bind m' g"
  using assms by (cases m') auto

lemma rbind_cong [fundef_cong]:
  assumes "m = m'" and "\<And>a. m' = Ok a \<Longrightarrow> f a = g a"
  shows "rbind m f = rbind m' g"
  using assms by (cases m') auto

lemma bind_assoc: "bind (bind m f) g = bind m (\<lambda>a s. bind (f a s) g)"
  by (cases m) auto

lemma bind_Done_iff: "bind m f = Done b s \<longleftrightarrow> (\<exists>a s'. m = Done a s' \<and> f a s' = Done b s)"
  by (cases m) auto

lemma bind_Fail_iff:
  "bind m f = Fail e s \<longleftrightarrow> m = Fail e s \<or> (\<exists>a s'. m = Done a s' \<and> f a s' = Fail e s)"
  by (cases m) auto

lemma bind_Panic_iff:
  "bind m f = Panic s \<longleftrightarrow> m = Panic s \<or> (\<exists>a s'. m = Done a s' \<and> f a s' = Panic s)"
  by (cases m) auto

lemma lift_Done: "lift r s = Done a s' \<Longrightarrow> s' = s \<and> r = Ok a"
  by (cases r) auto

lemma lift_Fail: "lift r s = Fail e s' \<Longrightarrow> s' = s \<and> r = Err e"
  by (cases r) auto

lemma lift_Panic: "lift r s = Panic s' \<Longrightarrow> s' = s \<and> r = Crash"
  by (cases r) auto

lemma rbind_Ok_iff: "rbind m f = Ok b \<longleftrightarrow> (\<exists>a. m = Ok a \<and> f a = Ok b)"
  by (cases m) auto

lemma rbind_Crash_iff: "rbind m f = Crash \<longleftrightarrow> m = Crash \<or> (\<exists>a. m = Ok a \<and> f a = Crash)"
  by (cases m) auto

lemma rbind_Err_iff: "rbind m f = Err e \<longleftrightarrow> m = Err e \<or> (\<exists>a. m = Ok a \<and> f a = Err e)"
  by (cases m) auto

section \<open>Words of 64 bits as naturals\<close>

lemma unat_lt_2p64 [simp]: "unat (x :: uint64) < 18446744073709551616"
  using unsigned_less [of x, where 'a = nat] by simp

lemma unat_Suc_uint64:
  assumes "unat (x :: uint64) + 1 < 2 ^ 64"
  shows "unat (x + 1) = unat x + 1"
  using assms by (simp add: unat_word_ariths)

lemma unat_add_uint64:
  assumes "unat (x :: uint64) + unat y < 2 ^ 64"
  shows "unat (x + y) = unat x + unat y"
  using assms by (simp add: unat_word_ariths)

lemma unat_sub_uint64:
  assumes "unat (y :: uint64) \<le> unat x"
  shows "unat (x - y) = unat x - unat y"
  using assms by (metis unat_sub word_le_nat_alt)

lemma unat_of_nat_uint64:
  assumes "n < 2 ^ 64"
  shows "unat (of_nat n :: uint64) = n"
  using assms by (simp add: unat_of_nat)

lemma uint64_less_iff: "(x :: uint64) < y \<longleftrightarrow> unat x < unat y"
  by (simp add: word_less_nat_alt)

lemma uint64_le_iff: "(x :: uint64) \<le> y \<longleftrightarrow> unat x \<le> unat y"
  by (simp add: word_le_nat_alt)

lemma uint64_eq_iff: "(x :: uint64) = y \<longleftrightarrow> unat x = unat y"
  by (simp add: word_unat_eq_iff)

lemma unat_pred_less: "(x :: uint64) \<noteq> 0 \<Longrightarrow> unat (x - 1) < unat x"
  by (simp add: unat_minus_one unat_gt_0)

lemma uint64_pos_iff: "(0 :: uint64) < x \<longleftrightarrow> x \<noteq> 0"
  by (simp add: word_neq_0_conv)

section \<open>Lists\<close>

lemma sorted_remdups_adj_strict: "sorted xs \<Longrightarrow> sorted_wrt (<) (remdups_adj (xs :: 'a :: linorder list))"
proof (induction xs rule: remdups_adj.induct)
  case (3 x y xs)
  then show ?case by (cases "x = y") (auto simp: order.strict_iff_order)
qed auto

lemma filter_length_split:
  "length (filter P xs) + length (filter (\<lambda>x. \<not> P x) xs) = length xs"
  by (rule sum_length_filter_compl)

lemma two_majorities_share:
  assumes "length xs < 2 * length (filter P xs)" and "length xs < 2 * length (filter Q xs)"
  shows "\<exists>x \<in> set xs. P x \<and> Q x"
proof (rule ccontr)
  assume no: "\<not> (\<exists>x \<in> set xs. P x \<and> Q x)"
  have "length (filter Q xs) \<le> length (filter (\<lambda>x. \<not> P x) xs)"
    using no by (induction xs) auto
  then show False
    using assms filter_length_split [of P xs] by linarith
qed

text \<open>Sorting keeps every count, and the element at position \<open>k\<close> of a sorted list splits it.\<close>

lemma length_filter_sort [simp]: "length (filter P (sort xs)) = length (filter P xs)"
proof -
  have "mset (filter P (sort xs)) = mset (filter P xs)" by simp
  then show ?thesis by (metis size_mset)
qed

lemma sorted_count_ge_lower:
  assumes "sorted ys" and "k < length ys"
  shows "length ys - k \<le> length (filter (\<lambda>y. ys ! k \<le> y) ys)"
proof -
  have "filter (\<lambda>y. ys ! k \<le> y) (drop k ys) = drop k ys"
    using assms by (auto simp: filter_id_conv in_set_conv_nth intro!: sorted_nth_mono)
  then have "filter (\<lambda>y. ys ! k \<le> y) ys = filter (\<lambda>y. ys ! k \<le> y) (take k ys) @ drop k ys"
    by (metis append_take_drop_id filter_append)
  then show ?thesis by simp
qed

lemma sorted_count_ge_upper:
  assumes "sorted ys" and "k < length ys" and "ys ! k < i"
  shows "length (filter (\<lambda>y. i \<le> y) ys) \<le> length ys - Suc k"
proof -
  have "filter (\<lambda>y. i \<le> y) (take (Suc k) ys) = []"
  proof (rule filter_False, rule ballI)
    fix y assume "y \<in> set (take (Suc k) ys)"
    then obtain j where "j \<le> k" and "y = ys ! j"
      using assms(2) by (auto simp: in_set_conv_nth less_Suc_eq_le)
    then have "y \<le> ys ! k" using assms(1,2) by (auto intro: sorted_nth_mono)
    with assms(3) show "\<not> i \<le> y" by (simp add: not_le)
  qed
  then have "filter (\<lambda>y. i \<le> y) ys = filter (\<lambda>y. i \<le> y) (drop (Suc k) ys)"
    by (metis append_take_drop_id filter_append append_Nil)
  then have "length (filter (\<lambda>y. i \<le> y) ys) \<le> length (drop (Suc k) ys)"
    by (metis length_filter_le)
  then show ?thesis by simp
qed

section \<open>Slices\<close>

text \<open>\<open>xs[i]\<close>, \<open>xs[i:]\<close>, \<open>xs[:j]\<close> and \<open>xs[i:j]\<close>, with Go's run-time check of the bounds.\<close>

definition at :: "'a list \<Rightarrow> uint64 \<Rightarrow> 'a result" where
  "at xs i = (if unat i < length xs then Ok (xs ! unat i) else Crash)"

definition slice_from :: "'a list \<Rightarrow> uint64 \<Rightarrow> 'a list result" where
  "slice_from xs i = (if unat i \<le> length xs then Ok (drop (unat i) xs) else Crash)"

definition slice_to :: "'a list \<Rightarrow> uint64 \<Rightarrow> 'a list result" where
  "slice_to xs j = (if unat j \<le> length xs then Ok (take (unat j) xs) else Crash)"

definition slice :: "'a list \<Rightarrow> uint64 \<Rightarrow> uint64 \<Rightarrow> 'a list result" where
  "slice xs i j =
     (if i \<le> j \<and> unat j \<le> length xs then Ok (drop (unat i) (take (unat j) xs)) else Crash)"

lemma at_Ok: "at xs i = Ok x \<Longrightarrow> x \<in> set xs"
  by (auto simp: at_def split: if_splits)

lemma slice_Ok: "slice xs i j = Ok ys \<Longrightarrow> set ys \<subseteq> set xs"
  by (auto simp: slice_def split: if_splits dest!: in_set_dropD in_set_takeD)

lemma slice_from_Ok: "slice_from xs i = Ok ys \<Longrightarrow> set ys \<subseteq> set xs"
  by (auto simp: slice_from_def split: if_splits dest: in_set_dropD)

lemma slice_to_Ok: "slice_to xs i = Ok ys \<Longrightarrow> set ys \<subseteq> set xs"
  by (auto simp: slice_to_def split: if_splits dest: in_set_takeD)

end
