(* ===== verification/Raft_Types.thy ===== *)
theory Raft_Types
  imports Raft_Prelude
begin

text \<open>
  The data of the consensus core, \<open>raft/types.go\<close>, with the cluster configuration's type from
  \<open>raft/config.go\<close> that a snapshot carries. Go's zero values are the \<open>zero\<close> constants: a struct
  literal of the source that names only some fields is the zero record with those fields updated.

  Slices are lists. The distinction of a nil and an empty slice is not kept: no function of the core
  tests for it, and \<open>len\<close>, \<open>range\<close> and \<open>append\<close> treat the two alike. \<open>Clone\<close> is the identity on
  values.
\<close>

definition None_id :: NodeID where
  "None_id = 0"

datatype State = Follower | PreCandidate | Candidate | Leader

text \<open>\<open>EntryType\<close> is a \<open>uint8\<close>; any value but the three named ones is \<open>EntryUnknown\<close>.\<close>

datatype EntryType = EntryNormal | EntryNoOp | EntryConfChange | EntryUnknown byte

record LogEntry =
  eTerm :: Term
  eIndex :: Index
  eType :: EntryType
  eCommand :: bytes

record HardState =
  hsTerm :: Term
  hsVote :: NodeID
  hsCommit :: Index

definition zeroHardState :: HardState where
  "zeroHardState = \<lparr>hsTerm = 0, hsVote = None_id, hsCommit = 0\<rparr>"

definition HardState_IsEmpty :: "HardState \<Rightarrow> bool" where
  "HardState_IsEmpty hs \<longleftrightarrow> hsTerm hs = 0 \<and> hsVote hs = None_id \<and> hsCommit hs = 0"

record Configuration =
  Voters :: "NodeID list"
  OldVoters :: "NodeID list"
  Learners :: "NodeID list"

definition zeroConfiguration :: Configuration where
  "zeroConfiguration = \<lparr>Voters = [], OldVoters = [], Learners = []\<rparr>"

record Snapshot =
  LastIncludedIndex :: Index
  LastIncludedTerm :: Term
  snapConfig :: Configuration
  snapData :: bytes

definition zeroSnapshot :: Snapshot where
  "zeroSnapshot = \<lparr>LastIncludedIndex = 0, LastIncludedTerm = 0, snapConfig = zeroConfiguration, snapData = []\<rparr>"

definition Snapshot_IsEmpty :: "Snapshot \<Rightarrow> bool" where
  "Snapshot_IsEmpty s \<longleftrightarrow> LastIncludedIndex s = 0"

text \<open>\<open>MessageType\<close> is a \<open>uint8\<close> too; \<open>MsgUnknown\<close> stands for the values no constant names.\<close>

datatype MessageType =
    MsgVoteReq | MsgVoteResp | MsgAppendReq | MsgAppendResp | MsgSnapshotReq | MsgSnapshotResp
  | MsgUnknown byte

record Message =
  mType :: MessageType
  mFrom :: NodeID
  mTo :: NodeID
  mTerm :: Term
  mPreVote :: bool
  mLastLogIndex :: Index
  mLastLogTerm :: Term
  mGranted :: bool
  mPrevLogIndex :: Index
  mPrevLogTerm :: Term
  mEntries :: "LogEntry list"
  mLeaderCommit :: Index
  mSuccess :: bool
  mMatchIndex :: Index
  mConflictIndex :: Index
  mConflictTerm :: Term
  mReadID :: uint64
  mSnapshot :: "Snapshot option"

definition zeroMessage :: Message where
  "zeroMessage = \<lparr>mType = MsgVoteReq, mFrom = None_id, mTo = None_id, mTerm = 0,
     mPreVote = False, mLastLogIndex = 0, mLastLogTerm = 0, mGranted = False,
     mPrevLogIndex = 0, mPrevLogTerm = 0, mEntries = [], mLeaderCommit = 0,
     mSuccess = False, mMatchIndex = 0, mConflictIndex = 0, mConflictTerm = 0,
     mReadID = 0, mSnapshot = None\<rparr>"

lemma zeroMessage_sel [simp]:
  "mType zeroMessage = MsgVoteReq" "mFrom zeroMessage = 0" "mTo zeroMessage = 0"
  "mTerm zeroMessage = 0" "mPreVote zeroMessage = False" "mGranted zeroMessage = False"
  "mEntries zeroMessage = []" "mSnapshot zeroMessage = None" "mSuccess zeroMessage = False"
  "mMatchIndex zeroMessage = 0" "mReadID zeroMessage = 0"
  "mPrevLogIndex zeroMessage = 0" "mPrevLogTerm zeroMessage = 0" "mLeaderCommit zeroMessage = 0"
  "mLastLogIndex zeroMessage = 0" "mLastLogTerm zeroMessage = 0"
  "mConflictIndex zeroMessage = 0" "mConflictTerm zeroMessage = 0"
  by (simp_all add: zeroMessage_def None_id_def)

end
