(* ===== verification/Varint.thy ===== *)
theory Varint
  imports Raft_Prelude
begin

text \<open>
  Variable-length integers, as Go's \<open>encoding/binary\<close> writes and reads them. Every binary format of
  the program is built on these two functions: commands and snapshots of the key/value store,
  configuration changes in the log, the persisted hard state and log floor, and the images of the
  simulated state machines. The theory also holds the contract all those formats share, a decoder
  that reads back what the encoder wrote and returns the bytes that follow, as the locale
  \<open>prefix_codec\<close>.
\<close>

unbundle bit_operations_syntax

section \<open>The two functions of the standard library\<close>

definition MaxVarintLen64 :: nat where
  "MaxVarintLen64 = 10"

lemma unat_drop_bit_7: "unat (drop_bit 7 (x :: uint64)) = unat x div 128"
  unfolding unat_drop_bit_eq by (simp add: drop_bit_eq_div)
lemma drop_bit_7_less: "128 \<le> (x :: uint64) \<Longrightarrow> unat (drop_bit 7 x) < unat x"
  by (simp only: unat_drop_bit_7 word_le_nat_alt) simp

function AppendUvarint :: "bytes \<Rightarrow> uint64 \<Rightarrow> bytes" where
  "AppendUvarint buf x =
     (if 0x80 \<le> x then AppendUvarint (buf @ [ucast x OR 0x80]) (drop_bit 7 x)
      else buf @ [ucast x])"
  by pat_completeness auto
termination
  by (relation "measure (\<lambda>(buf, x). unat x)") (auto simp: drop_bit_7_less not_less)

declare AppendUvarint.simps [simp del]

text \<open>The loop over the buffer: \<open>i\<close> is the position, \<open>x\<close> the bits so far, \<open>s\<close> the next shift.\<close>

fun uvarint_loop :: "nat \<Rightarrow> uint64 \<Rightarrow> nat \<Rightarrow> bytes \<Rightarrow> uint64 \<times> int" where
  "uvarint_loop i x s [] = (0, 0)"
| "uvarint_loop i x s (b # bs) =
     (if i = MaxVarintLen64 then (0, - (int i + 1))
      else if b < 0x80 then
        (if i = MaxVarintLen64 - 1 \<and> 1 < b then (0, - (int i + 1))
         else (x OR push_bit s (ucast b), int i + 1))
      else uvarint_loop (i + 1) (x OR push_bit s (ucast (b AND 0x7f))) (s + 7) bs)"

definition Uvarint :: "bytes \<Rightarrow> uint64 \<times> int" where
  "Uvarint buf = uvarint_loop 0 0 0 buf"

section \<open>Round trip\<close>

lemma AppendUvarint_Nil:
  "AppendUvarint [] x =
     (if 0x80 \<le> x then AppendUvarint [ucast x OR 0x80] (drop_bit 7 x) else [ucast x])"
  by (simp add: AppendUvarint.simps [of "[]" x])

lemma AppendUvarint_append: "AppendUvarint buf x = buf @ AppendUvarint [] x"
proof (induction x arbitrary: buf rule: measure_induct_rule [where f = unat])
  case (less x)
  show ?case
  proof (cases "0x80 \<le> x")
    case True
    then have "unat (drop_bit 7 x) < unat x" by (rule drop_bit_7_less)
    note IH = less [OF this]
    from True IH [of "buf @ [ucast x OR 0x80]"] IH [of "[ucast x OR 0x80]"] show ?thesis
      by (simp add: AppendUvarint.simps [of buf x] AppendUvarint_Nil)
  next
    case False
    then show ?thesis by (simp add: AppendUvarint.simps [of buf x] AppendUvarint_Nil)
  qed
qed

lemma AppendUvarint_Cons:
  "0x80 \<le> x \<Longrightarrow> AppendUvarint [] x = (ucast x OR 0x80) # AppendUvarint [] (drop_bit 7 x)"
  by (simp add: AppendUvarint_Nil AppendUvarint_append [of "[ucast x OR 128]"])

lemma AppendUvarint_small: "\<not> 0x80 \<le> x \<Longrightarrow> AppendUvarint [] x = [ucast x]"
  by (simp add: AppendUvarint_Nil)

lemma AppendUvarint_nonempty [simp]: "AppendUvarint [] x \<noteq> []"
  by (cases "0x80 \<le> x") (simp_all add: AppendUvarint_Cons AppendUvarint_small)

lemma high_byte_not_small: "\<not> (ucast (x :: uint64) OR (0x80 :: byte)) < 0x80"
  by (metis word_bw_comms(2) le_word_or2 not_less)

lemma bit_0x7f_int: "bit (0x7f :: int) n \<longleftrightarrow> n < 7"
proof -
  have "(0x7f :: int) = mask 7" by (simp add: mask_eq_exp_minus_1)
  then show ?thesis by (simp only: bit_mask_iff) auto
qed
lemma bit_0x80_int: "bit (0x80 :: int) n \<longleftrightarrow> n = 7"
proof -
  have "(0x80 :: int) = push_bit 7 1" by simp
  then show ?thesis by (simp only: bit_push_bit_iff bit_1_iff) auto
qed
lemma low_bits_of_byte: "(ucast (((ucast (x :: uint64) :: byte) OR 0x80) AND 0x7f) :: uint64) = take_bit 7 x"
  by (rule bit_word_eqI) (auto simp: bit_simps bit_0x7f_int bit_0x80_int)

lemma split_low_high: "push_bit s (take_bit 7 x) OR push_bit (s + 7) (drop_bit 7 x) = push_bit s (x :: uint64)"
proof (rule bit_word_eqI)
  fix n assume "n < LENGTH(64)"
  show "bit (push_bit s (take_bit 7 x) OR push_bit (s + 7) (drop_bit 7 x)) n = bit (push_bit s x) n"
  proof (cases "n - s < 7")
    case True
    then show ?thesis by (auto simp: bit_simps)
  next
    case False
    then have "7 + (n - (s + 7)) = n - s" by simp
    with False show ?thesis by (auto simp: bit_simps)
  qed
qed
lemma unat_ucast_byte: "unat (ucast (b :: byte) :: uint64) = unat b"
  using unsigned_less [of b, where 'a = nat] by (simp add: unsigned_ucast_eq take_bit_eq_mod)

lemma small_byte:
  assumes "\<not> (0x80 :: uint64) \<le> y"
  shows "(ucast y :: byte) < 0x80" and "ucast (ucast y :: byte) = y" and "(1 < (ucast y :: byte)) = (1 < unat y)"
proof -
  from assms have "unat y < 128" by (simp add: word_le_nat_alt)
  then have u: "unat (ucast y :: byte) = unat y" by (simp add: unsigned_ucast_eq take_bit_eq_mod)
  with \<open>unat y < 128\<close> show "(ucast y :: byte) < 0x80" and "(1 < (ucast y :: byte)) = (1 < unat y)"
    by (simp_all add: word_less_nat_alt)
  have "unat (ucast (ucast y :: byte) :: uint64) = unat y"
    by (simp only: unat_ucast_byte u)
  then show "ucast (ucast y :: byte) = y"
    by (simp add: word_unat_eq_iff)
qed

lemma uvarint_loop_append:
  assumes "i \<le> 9" and "s = 7 * i" and "unat y < 2 ^ (64 - 7 * i)"
  shows "uvarint_loop i acc s (AppendUvarint [] y @ rest) =
    (acc OR push_bit s y, int i + int (length (AppendUvarint [] y)))"
  using assms
proof (induction y arbitrary: i acc s rule: measure_induct_rule [where f = unat])
  case (less y)
  show ?case
  proof (cases "0x80 \<le> y")
    case True
    then have big: "128 \<le> unat y" by (simp add: word_le_nat_alt)
    have i8: "i \<le> 8"
    proof (rule ccontr)
      assume "\<not> i \<le> 8"
      with less.prems have "i = 9" by simp
      with less.prems big show False by simp
    qed
    then have "64 - 7 * i = 7 + (64 - 7 * (i + 1))" by simp
    then have "(2 :: nat) ^ (64 - 7 * i) = 128 * 2 ^ (64 - 7 * (i + 1))"
      by (simp only: power_add) simp
    with less.prems(3) have "unat (drop_bit 7 y) < 2 ^ (64 - 7 * (i + 1))"
      by (simp only: unat_drop_bit_7 div_less_iff_less_mult mult.commute)
    moreover have "unat (drop_bit 7 y) < unat y" using True by (rule drop_bit_7_less)
    ultimately have "uvarint_loop (i + 1) (acc OR push_bit s (take_bit 7 y)) (s + 7)
        (AppendUvarint [] (drop_bit 7 y) @ rest) =
        ((acc OR push_bit s (take_bit 7 y)) OR push_bit (s + 7) (drop_bit 7 y),
         int (i + 1) + int (length (AppendUvarint [] (drop_bit 7 y))))"
      using i8 less.prems(2) by (intro less.IH) simp_all
    then show ?thesis
      using i8 True high_byte_not_small [of y]
      by (simp add: AppendUvarint_Cons MaxVarintLen64_def low_bits_of_byte or.assoc split_low_high
          del: unsigned_or_eq unsigned_and_eq)
  next
    case False
    have "\<not> (i = 9 \<and> 1 < unat y)" using less.prems by auto
    with False less.prems(1) show ?thesis
      by (simp add: AppendUvarint_small MaxVarintLen64_def small_byte)
  qed
qed

theorem Uvarint_AppendUvarint [simp]:
  "Uvarint (AppendUvarint [] x @ rest) = (x, int (length (AppendUvarint [] x)))"
  using uvarint_loop_append [of 0 0 x 0 rest] by (simp add: Uvarint_def)

corollary Uvarint_AppendUvarint_Nil [simp]:
  "Uvarint (AppendUvarint [] x) = (x, int (length (AppendUvarint [] x)))"
  using Uvarint_AppendUvarint [of x "[]"] by simp

section \<open>Bounds\<close>

lemma AppendUvarint_length_bits:
  "unat x < 2 ^ (7 * k) \<Longrightarrow> 0 < k \<Longrightarrow> length (AppendUvarint [] x) \<le> k"
proof (induction k arbitrary: x)
  case (Suc k)
  show ?case
  proof (cases "0x80 \<le> x")
    case True
    then have "128 \<le> unat x" by (simp add: word_le_nat_alt)
    with Suc.prems have "0 < k" by (cases k) auto
    moreover from Suc.prems have "unat (drop_bit 7 x) < 2 ^ (7 * k)"
      by (simp only: unat_drop_bit_7) (simp add: div_less_iff_less_mult power_add mult.commute)
    ultimately show ?thesis using Suc.IH True by (simp add: AppendUvarint_Cons)
  next
    case False
    then show ?thesis by (simp add: AppendUvarint_small)
  qed
qed simp

lemma AppendUvarint_length: "length (AppendUvarint [] x) \<le> MaxVarintLen64"
  unfolding MaxVarintLen64_def
  by (rule AppendUvarint_length_bits) (use less_trans [OF unat_lt_2p64 [of x]] in simp_all)

lemma uvarint_loop_bound: "uvarint_loop i x s buf = (v, n) \<Longrightarrow> n \<le> int i + int (length buf)"
  by (induction i x s buf rule: uvarint_loop.induct) (auto split: if_splits)

text \<open>A successful read never claims more bytes than there are, so the slice after it is in range.\<close>

lemma Uvarint_bound: "Uvarint buf = (v, n) \<Longrightarrow> nat n \<le> length buf"
  using uvarint_loop_bound [of 0 0 0 buf v n] by (simp add: Uvarint_def)

lemma Uvarint_Nil [simp]: "Uvarint [] = (0, 0)"
  by (simp add: Uvarint_def)

section \<open>The contract of a prefix format\<close>

text \<open>
  What all the program's formats promise: reading back an encoded value gives the value and exactly
  the bytes after it. Everything a caller concludes from that is proved once here.
\<close>

locale prefix_codec =
  fixes enc :: "'a \<Rightarrow> bytes"
    and dec :: "bytes \<Rightarrow> ('a \<times> bytes) result"
    and wf :: "'a \<Rightarrow> bool"
  assumes roundtrip: "wf x \<Longrightarrow> dec (enc x @ rest) = Ok (x, rest)"
begin

lemma decode_whole: "wf x \<Longrightarrow> dec (enc x) = Ok (x, [])"
  using roundtrip [of x "[]"] by simp

text \<open>Two encodings are never confused, whatever follows them: the format is prefix free.\<close>

lemma enc_prefix_inj:
  assumes "wf x" and "wf y" and "enc x @ r = enc y @ r'"
  shows "x = y \<and> r = r'"
proof -
  have "Ok (x, r) = dec (enc y @ r')"
    using roundtrip [OF assms(1), of r] assms(3) by simp
  also have "\<dots> = Ok (y, r')" by (rule roundtrip [OF assms(2)])
  finally show ?thesis by simp
qed

lemma enc_inj: "wf x \<Longrightarrow> wf y \<Longrightarrow> enc x = enc y \<Longrightarrow> x = y"
  using enc_prefix_inj [of x y "[]" "[]"] by simp

end

definition read_uvarint :: "bytes \<Rightarrow> (uint64 \<times> bytes) result" where
  "read_uvarint b = (let (v, n) = Uvarint b in
     if n \<le> 0 then Err (ErrMsg ''truncated'') else Ok (v, drop (nat n) b))"

lemma read_uvarint_append [simp]: "read_uvarint (AppendUvarint [] x @ rest) = Ok (x, rest)"
  by (simp add: read_uvarint_def)

interpretation uvarint: prefix_codec "AppendUvarint []" read_uvarint "\<lambda>_. True"
  by unfold_locales simp

end
