(* ===== verification/Raft_Config.thy ===== *)
theory Raft_Config
  imports Raft_Types Varint
begin

text \<open>
  Cluster configurations, \<open>raft/config.go\<close>: normalised member lists, majorities and joint quorums,
  the index a quorum has replicated, and the two halves of a membership change. The encoding of a
  configuration change for the log (\<open>raft/confchange.go\<close>, lines 232 to 295) is here as well, since it
  concerns only these types.
\<close>

section \<open>Normal form\<close>

text \<open>\<open>slices.Sort\<close> is \<open>sort\<close> and \<open>slices.Compact\<close>, which drops repeated neighbours, \<open>remdups_adj\<close>.\<close>

definition sortedUnique :: "NodeID list \<Rightarrow> NodeID list" where
  "sortedUnique ids = (if length ids = 0 then [] else remdups_adj (sort ids))"

definition normalize :: "Configuration \<Rightarrow> Configuration" where
  "normalize c =
     (let voters = sortedUnique (Voters c);
          old = sortedUnique (OldVoters c);
          learners = sortedUnique (Learners c)
      in \<lparr>Voters = voters, OldVoters = old,
          Learners = (if 0 < length learners
            then filter (\<lambda>id. \<not> (id \<in> set voters \<or> id \<in> set old)) learners
            else learners)\<rparr>)"

definition NewConfiguration :: "NodeID list \<Rightarrow> NodeID list \<Rightarrow> Configuration" where
  "NewConfiguration voters learners =
     normalize (zeroConfiguration\<lparr>Voters := voters, Learners := learners\<rparr>)"

section \<open>Membership\<close>

definition IsJoint :: "Configuration \<Rightarrow> bool" where
  "IsJoint c \<longleftrightarrow> 0 < length (OldVoters c)"

definition Configuration_IsEmpty :: "Configuration \<Rightarrow> bool" where
  "Configuration_IsEmpty c \<longleftrightarrow>
     length (Voters c) = 0 \<and> length (OldVoters c) = 0 \<and> length (Learners c) = 0"

definition Validate :: "Configuration \<Rightarrow> unit result" where
  "Validate c = (if length (Voters c) = 0 then Err ErrEmptyConfiguration else Ok ())"

definition IsVoter :: "Configuration \<Rightarrow> NodeID \<Rightarrow> bool" where
  "IsVoter c i \<longleftrightarrow> i \<in> set (Voters c) \<or> i \<in> set (OldVoters c)"

definition Contains :: "Configuration \<Rightarrow> NodeID \<Rightarrow> bool" where
  "Contains c i \<longleftrightarrow> IsVoter c i \<or> i \<in> set (Learners c)"

definition Members :: "Configuration \<Rightarrow> NodeID list" where
  "Members c = sortedUnique (Voters c @ OldVoters c @ Learners c)"

definition Peers :: "Configuration \<Rightarrow> NodeID \<Rightarrow> NodeID list" where
  "Peers c self = filter (\<lambda>id. id \<noteq> self) (Members c)"

definition Configuration_Equal :: "Configuration \<Rightarrow> Configuration \<Rightarrow> bool" where
  "Configuration_Equal c other \<longleftrightarrow>
     Voters c = Voters other \<and> OldVoters c = OldVoters other \<and> Learners c = Learners other"

section \<open>Quorums\<close>

text \<open>The counting loop of \<open>hasMajority\<close>.\<close>

fun count_granted :: "NodeID list \<Rightarrow> (NodeID \<Rightarrow> bool) \<Rightarrow> nat \<Rightarrow> nat" where
  "count_granted [] granted n = n"
| "count_granted (v # vs) granted n = count_granted vs granted (if granted v then n + 1 else n)"

definition hasMajority :: "NodeID list \<Rightarrow> (NodeID \<Rightarrow> bool) \<Rightarrow> bool" where
  "hasMajority voters granted \<longleftrightarrow>
     (if length voters = 0 then False
      else count_granted voters granted 0 * 2 > length voters)"

definition HasQuorum :: "Configuration \<Rightarrow> (NodeID \<Rightarrow> bool) \<Rightarrow> bool" where
  "HasQuorum c granted \<longleftrightarrow>
     (if \<not> hasMajority (Voters c) granted then False
      else if IsJoint c \<and> \<not> hasMajority (OldVoters c) granted then False
      else True)"

definition QuorumImpossible :: "Configuration \<Rightarrow> (NodeID \<Rightarrow> bool) \<Rightarrow> bool" where
  "QuorumImpossible c rejected \<longleftrightarrow>
     (if hasMajority (Voters c) rejected then True
      else if IsJoint c \<and> hasMajority (OldVoters c) rejected then True
      else False)"

definition quorumIndex :: "NodeID list \<Rightarrow> (NodeID \<Rightarrow> Index) \<Rightarrow> Index" where
  "quorumIndex voters matched =
     (let n = length voters
      in if n = 0 then 0
         else sort (map matched voters) ! ((n - 1) div 2))"

definition CommittedIndex :: "Configuration \<Rightarrow> (NodeID \<Rightarrow> Index) \<Rightarrow> Index" where
  "CommittedIndex c matched =
     (let idx = quorumIndex (Voters c) matched
      in if IsJoint c
         then (let old = quorumIndex (OldVoters c) matched in if old < idx then old else idx)
         else idx)"

section \<open>Configuration changes\<close>

text \<open>\<open>ConfChangeKind\<close> is a \<open>uint8\<close> read off the wire unchecked, so it stays a byte.\<close>

type_synonym ConfChangeKind = byte

definition ConfChangeEnterJoint :: ConfChangeKind where
  "ConfChangeEnterJoint = 0"

definition ConfChangeLeaveJoint :: ConfChangeKind where
  "ConfChangeLeaveJoint = 1"

record ConfChange =
  ccKind :: ConfChangeKind
  ccConfig :: Configuration

definition EnterJoint :: "Configuration \<Rightarrow> Configuration \<Rightarrow> ConfChange result" where
  "EnterJoint c target =
     rbind (Validate target) (\<lambda>_.
       if IsJoint c then Err (ErrMsg ''membership change already in progress'')
       else (let joint = normalize \<lparr>Voters = Voters target, OldVoters = Voters c,
                                    Learners = Learners target\<rparr>
             in Ok \<lparr>ccKind = ConfChangeEnterJoint, ccConfig = joint\<rparr>))"

definition LeaveJoint :: "Configuration \<Rightarrow> ConfChange result" where
  "LeaveJoint c =
     (if \<not> IsJoint c then Err (ErrMsg ''not in a joint configuration'')
      else (let final = normalize (zeroConfiguration\<lparr>Voters := Voters c, Learners := Learners c\<rparr>)
            in rbind (Validate final) (\<lambda>_.
                 Ok \<lparr>ccKind = ConfChangeLeaveJoint, ccConfig = final\<rparr>)))"

section \<open>Encoding of configuration changes\<close>

definition appendIDs :: "bytes \<Rightarrow> NodeID list \<Rightarrow> bytes" where
  "appendIDs dst ids = foldl AppendUvarint (AppendUvarint dst (of_nat (length ids))) ids"

definition Encode :: "ConfChange \<Rightarrow> bytes" where
  "Encode cc =
     (let buf = [ccKind cc];
          buf = appendIDs buf (Voters (ccConfig cc));
          buf = appendIDs buf (OldVoters (ccConfig cc))
      in appendIDs buf (Learners (ccConfig cc)))"

text \<open>
  \<open>make([]NodeID, 0, count)\<close> panics when the allocation would exceed the address space of a 64-bit
  Linux process (2 to the 48 bytes); each element takes eight bytes.
\<close>

definition make_NodeIDs :: "uint64 \<Rightarrow> NodeID list result" where
  "make_NodeIDs cap = (if 2 ^ 48 < uint cap * 8 then Crash else Ok [])"

text \<open>The loop \<open>for range count\<close>, with the number of rounds left.\<close>

fun read_id_loop :: "nat \<Rightarrow> NodeID list \<Rightarrow> bytes \<Rightarrow> (NodeID list \<times> bytes) result" where
  "read_id_loop 0 ids b = Ok (ids, b)"
| "read_id_loop (Suc k) ids b =
     (let (id, n) = Uvarint b
      in if n \<le> 0 then Err (ErrMsg ''truncated list'')
         else read_id_loop k (ids @ [id]) (drop (nat n) b))"

definition readIDs :: "bytes \<Rightarrow> (NodeID list \<times> bytes) result" where
  "readIDs b =
     (let (count, n) = Uvarint b
      in if n \<le> 0 then Err (ErrMsg ''truncated count'')
         else (let b = drop (nat n) b
               in if count = 0 then Ok ([], b)
                  else (case make_NodeIDs count of
                          Ok ids \<Rightarrow> read_id_loop (unat count) ids b | Err e \<Rightarrow> Err e | Crash \<Rightarrow> Crash)))"

definition DecodeConfChange :: "bytes \<Rightarrow> ConfChange result" where
  "DecodeConfChange b =
     (case b of
        [] \<Rightarrow> Err (ErrMsg ''empty configuration change'')
      | kind # rest \<Rightarrow>
          rbind (readIDs rest) (\<lambda>(voters, rest).
          rbind (readIDs rest) (\<lambda>(old, rest).
          rbind (readIDs rest) (\<lambda>(learners, _).
            Ok \<lparr>ccKind = kind,
                ccConfig = normalize \<lparr>Voters = voters, OldVoters = old, Learners = learners\<rparr>\<rparr>))))"

section \<open>Normal form: lemmas\<close>

lemma set_sortedUnique [simp]: "set (sortedUnique ids) = set ids"
  by (simp add: sortedUnique_def)

lemma sortedUnique_strict [simp]: "sorted_wrt (<) (sortedUnique ids)"
  by (simp add: sortedUnique_def sorted_remdups_adj_strict)

lemma sortedUnique_distinct [simp]: "distinct (sortedUnique ids)"
  using sortedUnique_strict strict_sorted_iff by blast

lemma sortedUnique_id: "sorted_wrt (<) ids \<Longrightarrow> sortedUnique ids = ids"
  by (simp add: sortedUnique_def strict_sorted_iff sorted_sort_id remdups_adj_distinct)

lemma sortedUnique_Nil_iff [simp]: "sortedUnique ids = [] \<longleftrightarrow> ids = []"
  by (metis set_empty set_sortedUnique)

text \<open>The invariant every configuration of the core keeps: it is its own normal form.\<close>

definition wf_conf :: "Configuration \<Rightarrow> bool" where
  "wf_conf c \<longleftrightarrow> sorted_wrt (<) (Voters c) \<and> sorted_wrt (<) (OldVoters c) \<and> sorted_wrt (<) (Learners c)
     \<and> set (Learners c) \<inter> (set (Voters c) \<union> set (OldVoters c)) = {}"

lemma normalize_sel:
  "Voters (normalize c) = sortedUnique (Voters c)"
  "OldVoters (normalize c) = sortedUnique (OldVoters c)"
  "Learners (normalize c) =
     filter (\<lambda>id. \<not> (id \<in> set (Voters c) \<or> id \<in> set (OldVoters c))) (sortedUnique (Learners c))"
  by (auto simp: normalize_def Let_def)

lemma wf_normalize: "wf_conf (normalize c)"
  by (auto simp: wf_conf_def normalize_sel intro: sorted_wrt_filter)

lemma normalize_id: "wf_conf c \<Longrightarrow> normalize c = c"
  by (auto simp: wf_conf_def normalize_def Let_def sortedUnique_id intro!: Configuration.equality filter_True)

lemma wf_NewConfiguration: "wf_conf (NewConfiguration voters learners)"
  by (simp add: NewConfiguration_def wf_normalize)

lemma Members_set [simp]: "set (Members c) = set (Voters c) \<union> set (OldVoters c) \<union> set (Learners c)"
  by (auto simp: Members_def)

lemma Peers_set [simp]: "set (Peers c self) = set (Members c) - {self}"
  by (auto simp: Peers_def)

lemma Configuration_Equal_iff: "Configuration_Equal c d \<longleftrightarrow> c = d"
  by (auto simp: Configuration_Equal_def intro!: Configuration.equality)

section \<open>Quorums: lemmas\<close>

lemma count_granted_filter: "count_granted vs g n = n + length (filter g vs)"
  by (induction vs arbitrary: n) auto

lemma hasMajority_iff: "hasMajority vs g \<longleftrightarrow> length vs < 2 * length (filter g vs)"
  by (auto simp: hasMajority_def count_granted_filter)

lemma hasMajority_mono:
  assumes "hasMajority vs g" and "\<And>v. v \<in> set vs \<Longrightarrow> g v \<Longrightarrow> h v"
  shows "hasMajority vs h"
proof -
  have "length (filter g vs) \<le> length (filter h vs)"
    using assms(2) by (induction vs) auto
  with assms(1) show ?thesis by (simp add: hasMajority_iff)
qed

lemma hasMajority_share:
  "hasMajority vs g \<Longrightarrow> hasMajority vs h \<Longrightarrow> \<exists>v \<in> set vs. g v \<and> h v"
  unfolding hasMajority_iff by (rule two_majorities_share)

lemma HasQuorum_iff:
  "HasQuorum c g \<longleftrightarrow> hasMajority (Voters c) g \<and> (IsJoint c \<longrightarrow> hasMajority (OldVoters c) g)"
  by (auto simp: HasQuorum_def)

lemma QuorumImpossible_iff:
  "QuorumImpossible c g \<longleftrightarrow> hasMajority (Voters c) g \<or> (IsJoint c \<and> hasMajority (OldVoters c) g)"
  by (auto simp: QuorumImpossible_def)

text \<open>
  What the protocol needs of its quorums, stated once: any two share a member, and a quorum stays one
  when more nodes agree. The consequence the elections rest on is proved from that alone.
\<close>

locale quorum_system =
  fixes quorum :: "('n \<Rightarrow> bool) \<Rightarrow> bool"
  assumes share: "quorum g \<Longrightarrow> quorum h \<Longrightarrow> \<exists>v. g v \<and> h v"
    and mono: "quorum g \<Longrightarrow> (\<And>v. g v \<Longrightarrow> h v) \<Longrightarrow> quorum h"
begin

lemma nonempty: "quorum g \<Longrightarrow> \<exists>v. g v"
  using share [of g g] by blast

text \<open>Nodes that each choose at most one candidate cannot give a quorum to two of them.\<close>

lemma unique_choice:
  assumes "quorum (\<lambda>v. choice v = Some a)" and "quorum (\<lambda>v. choice v = Some b)"
  shows "a = b"
  using share [OF assms] by auto

lemma no_disjoint: "quorum g \<Longrightarrow> (\<And>v. g v \<Longrightarrow> \<not> h v) \<Longrightarrow> \<not> quorum h"
  using share [of g h] by blast

end

interpretation conf_quorum: quorum_system "HasQuorum c" for c
proof unfold_locales
  fix g h assume "HasQuorum c g" and "HasQuorum c h"
  then show "\<exists>v. g v \<and> h v"
    using hasMajority_share [of "Voters c" g h] by (auto simp: HasQuorum_iff)
next
  fix g h assume "HasQuorum c g" and "\<And>v. g v \<Longrightarrow> h v"
  then show "HasQuorum c h"
    by (auto simp: HasQuorum_iff intro: hasMajority_mono)
qed

interpretation majority: quorum_system "hasMajority vs" for vs
  by unfold_locales (blast dest: hasMajority_share, blast intro: hasMajority_mono)

section \<open>The replicated index: lemmas\<close>

lemma quorumIndex_reached:
  assumes "voters \<noteq> []"
  shows "hasMajority voters (\<lambda>v. quorumIndex voters f \<le> f v)"
proof -
  let ?ys = "sort (map f voters)" and ?k = "(length voters - 1) div 2"
  have k: "?k < length ?ys" using assms by (cases voters) auto
  have "length voters - ?k \<le> length (filter (\<lambda>y. ?ys ! ?k \<le> y) (map f voters))"
    using sorted_count_ge_lower [OF sorted_sort k] by simp
  also have "\<dots> = length (filter (\<lambda>v. quorumIndex voters f \<le> f v) voters)"
    using assms by (simp add: filter_map o_def quorumIndex_def)
  finally show ?thesis using assms by (simp add: hasMajority_iff) (cases voters, auto)
qed

lemma quorumIndex_maximal:
  assumes "quorumIndex voters f < i"
  shows "\<not> hasMajority voters (\<lambda>v. i \<le> f v)"
proof (cases "voters = []")
  case False
  let ?ys = "sort (map f voters)" and ?k = "(length voters - 1) div 2"
  have k: "?k < length ?ys" using False by (cases voters) auto
  have "?ys ! ?k < i" using assms False by (simp add: quorumIndex_def)
  from sorted_count_ge_upper [OF sorted_sort k this]
  have "length (filter (\<lambda>v. i \<le> f v) voters) \<le> length voters - Suc ?k"
    by (simp add: filter_map o_def)
  then show ?thesis using False by (cases voters) (auto simp: hasMajority_iff not_less)
qed (simp add: hasMajority_iff)

lemma CommittedIndex_joint:
  "IsJoint c \<Longrightarrow> CommittedIndex c f = min (quorumIndex (Voters c) f) (quorumIndex (OldVoters c) f)"
  "\<not> IsJoint c \<Longrightarrow> CommittedIndex c f = quorumIndex (Voters c) f"
  by (auto simp: CommittedIndex_def Let_def min_def)

lemma CommittedIndex_reached:
  assumes "Voters c \<noteq> []"
  shows "HasQuorum c (\<lambda>v. CommittedIndex c f \<le> f v)"
proof -
  have new: "hasMajority (Voters c) (\<lambda>v. CommittedIndex c f \<le> f v)"
    by (rule hasMajority_mono [OF quorumIndex_reached [OF assms, of f]])
      (cases "IsJoint c", auto simp: CommittedIndex_joint min_le_iff_disj)
  have old: "hasMajority (OldVoters c) (\<lambda>v. CommittedIndex c f \<le> f v)" if "IsJoint c"
  proof (rule hasMajority_mono [OF quorumIndex_reached])
    show "OldVoters c \<noteq> []" using that by (simp add: IsJoint_def)
  qed (use that in \<open>auto simp: CommittedIndex_joint min_le_iff_disj\<close>)
  from new old show ?thesis by (simp add: HasQuorum_iff)
qed

lemma CommittedIndex_maximal:
  assumes "CommittedIndex c f < i"
  shows "\<not> HasQuorum c (\<lambda>v. i \<le> f v)"
proof (cases "IsJoint c")
  case True
  then show ?thesis
    using assms quorumIndex_maximal [of "Voters c" f i] quorumIndex_maximal [of "OldVoters c" f i]
    by (auto simp: HasQuorum_iff CommittedIndex_joint min_less_iff_disj)
next
  case False
  then show ?thesis
    using assms quorumIndex_maximal [of "Voters c" f i] by (auto simp: HasQuorum_iff CommittedIndex_joint)
qed

section \<open>Membership changes: lemmas\<close>

lemma EnterJoint_Ok:
  assumes "EnterJoint c target = Ok cc"
  shows "\<not> IsJoint c" and "Voters target \<noteq> []" and "ccKind cc = ConfChangeEnterJoint"
    and "ccConfig cc = normalize \<lparr>Voters = Voters target, OldVoters = Voters c, Learners = Learners target\<rparr>"
  using assms by (auto simp: EnterJoint_def Validate_def Let_def split: if_splits)

lemma LeaveJoint_Ok:
  assumes "LeaveJoint c = Ok cc"
  shows "IsJoint c" and "ccKind cc = ConfChangeLeaveJoint"
    and "Voters (ccConfig cc) = sortedUnique (Voters c)" and "Voters (ccConfig cc) \<noteq> []"
    and "\<not> IsJoint (ccConfig cc)" and "wf_conf (ccConfig cc)"
  using assms
  by (auto simp: LeaveJoint_def Let_def Validate_def normalize_sel IsJoint_def zeroConfiguration_def
      wf_normalize split: if_splits)

lemma LeaveJoint_defined: "IsJoint c \<Longrightarrow> Voters c \<noteq> [] \<Longrightarrow> \<exists>cc. LeaveJoint c = Ok cc"
  by (auto simp: LeaveJoint_def Let_def Validate_def normalize_sel)

section \<open>Encoding: lemmas\<close>

lemma foldl_AppendUvarint: "foldl AppendUvarint dst ids = dst @ concat (map (AppendUvarint []) ids)"
proof (induction ids arbitrary: dst)
  case (Cons i ids)
  then show ?case by (simp add: AppendUvarint_append [of dst i])
qed simp

lemma appendIDs_eq:
  "appendIDs dst ids = dst @ AppendUvarint [] (of_nat (length ids)) @ concat (map (AppendUvarint []) ids)"
  by (simp add: appendIDs_def foldl_AppendUvarint AppendUvarint_append [of dst "of_nat (length ids)"])

lemma appendIDs_append: "appendIDs dst ids = dst @ appendIDs [] ids"
  by (simp add: appendIDs_eq)

lemma read_id_loop_concat:
  "read_id_loop (length ids) acc (concat (map (AppendUvarint []) ids) @ rest) = Ok (acc @ ids, rest)"
  by (induction ids arbitrary: acc) simp_all

text \<open>A list of at most 2 to the 45 members is one \<open>make\<close> can allocate.\<close>

lemma make_NodeIDs_Ok: "unat cap \<le> 2 ^ 45 \<Longrightarrow> make_NodeIDs cap = Ok []"
  unfolding make_NodeIDs_def uint_nat by (simp del: of_nat_unat)

lemma readIDs_appendIDs:
  assumes "length ids \<le> 2 ^ 45"
  shows "readIDs (appendIDs [] ids @ rest) = Ok (ids, rest)"
proof -
  have len: "unat (of_nat (length ids) :: uint64) = length ids"
    using assms by (intro unat_of_nat_uint64) simp
  show ?thesis
  proof (cases "ids = []")
    case True
    then show ?thesis by (simp add: readIDs_def appendIDs_eq)
  next
    case False
    then have "(of_nat (length ids) :: uint64) \<noteq> 0"
      using len by (metis length_0_conv unat_0)
    then show ?thesis
      using assms len read_id_loop_concat [of ids "[]" rest]
      by (simp add: readIDs_def appendIDs_eq make_NodeIDs_Ok)
  qed
qed

lemma Encode_eq:
  "Encode cc = ccKind cc # appendIDs [] (Voters (ccConfig cc)) @ appendIDs [] (OldVoters (ccConfig cc))
     @ appendIDs [] (Learners (ccConfig cc))"
  unfolding Encode_def Let_def
  by (simp add: appendIDs_append [of "[ccKind cc]"] appendIDs_append [of "ccKind cc # _"])

definition encodable_conf :: "Configuration \<Rightarrow> bool" where
  "encodable_conf c \<longleftrightarrow> length (Voters c) \<le> 2 ^ 45 \<and> length (OldVoters c) \<le> 2 ^ 45
     \<and> length (Learners c) \<le> 2 ^ 45"

lemma Decode_Encode:
  assumes "encodable_conf (ccConfig cc)"
  shows "DecodeConfChange (Encode cc @ rest) = Ok (cc\<lparr>ccConfig := normalize (ccConfig cc)\<rparr>)"
  using assms readIDs_appendIDs
  by (cases cc, cases "ccConfig cc")
    (simp add: DecodeConfChange_def Encode_eq encodable_conf_def)

section \<open>Properties\<close>

text \<open>C15. Joint consensus closes the window of a membership change: while the cluster moves from a
  configuration through the joint one to the next, every quorum of the joint configuration meets
  every quorum of the old configuration and every quorum of the new one, so neither side can decide
  without the other.\<close>

theorem joint_quorums_meet:
  assumes "wf_conf c" and "EnterJoint c target = Ok cc" and "LeaveJoint (ccConfig cc) = Ok cc'"
    and "HasQuorum (ccConfig cc) g"
  shows "(HasQuorum c h \<longrightarrow> (\<exists>v. g v \<and> h v)) \<and> (HasQuorum (ccConfig cc') h \<longrightarrow> (\<exists>v. g v \<and> h v))"
proof -
  note enter = EnterJoint_Ok [OF assms(2)] and leave = LeaveJoint_Ok [OF assms(3)]
  have old: "OldVoters (ccConfig cc) = Voters c"
    using enter(4) assms(1) by (simp add: normalize_sel wf_conf_def sortedUnique_id)
  have new: "Voters (ccConfig cc') = Voters (ccConfig cc)"
    using leave(3) enter(4) by (simp add: normalize_sel sortedUnique_id)
  have "hasMajority (Voters c) g" "hasMajority (Voters (ccConfig cc)) g"
    using assms(4) leave(1) old by (auto simp: HasQuorum_iff)
  then show ?thesis
    using hasMajority_share [of "Voters c" g h] hasMajority_share [of "Voters (ccConfig cc)" g h] new
    by (auto simp: HasQuorum_iff)
qed

definition demo_conf :: Configuration where
  "demo_conf = NewConfiguration [3, 1, 2] []"

definition demo_target :: Configuration where
  "demo_target = NewConfiguration [3, 4, 5] [9]"

definition demo_joint :: ConfChange where
  "demo_joint = \<lparr>ccKind = 0, ccConfig = \<lparr>Voters = [3, 4, 5], OldVoters = [1, 2, 3], Learners = [9]\<rparr>\<rparr>"

definition demo_next :: ConfChange where
  "demo_next = \<lparr>ccKind = 1, ccConfig = \<lparr>Voters = [3, 4, 5], OldVoters = [], Learners = [9]\<rparr>\<rparr>"

lemma demo_change:
  "wf_conf demo_conf" "EnterJoint demo_conf demo_target = Ok demo_joint"
  "LeaveJoint (ccConfig demo_joint) = Ok demo_next"
  "HasQuorum (ccConfig demo_joint) (\<lambda>v. v \<in> {2, 3, 4})"
  "HasQuorum demo_conf (\<lambda>v. v \<in> {1, 2})" "HasQuorum (ccConfig demo_next) (\<lambda>v. v \<in> {4, 5})"
  by code_simp+

theorem joint_quorums_meet_witness:
  "(\<exists>v. v \<in> {2, 3, 4} \<and> v \<in> {1, 2 :: NodeID}) \<and> (\<exists>v. v \<in> {2, 3, 4} \<and> v \<in> {4, 5 :: NodeID})"
  using joint_quorums_meet [OF demo_change(1-4), of "\<lambda>v. v \<in> {1, 2}"]
    joint_quorums_meet [OF demo_change(1-4), of "\<lambda>v. v \<in> {4, 5}"] demo_change(5,6)
  by blast

text \<open>C16. The quorum arithmetic of the commit rule is exact: an index is at most \<open>CommittedIndex\<close> if
  and only if a quorum of the configuration (of both halves, when it is joint) has matched it.\<close>

theorem CommittedIndex_exact:
  assumes "Voters c \<noteq> []"
  shows "i \<le> CommittedIndex c f \<longleftrightarrow> HasQuorum c (\<lambda>v. i \<le> f v)"
proof
  assume "i \<le> CommittedIndex c f"
  then show "HasQuorum c (\<lambda>v. i \<le> f v)"
    using conf_quorum.mono [OF CommittedIndex_reached [OF assms, of f]] by (meson order_trans)
next
  assume "HasQuorum c (\<lambda>v. i \<le> f v)"
  then show "i \<le> CommittedIndex c f"
    using CommittedIndex_maximal [of c f i] by (simp add: not_le [symmetric]) blast
qed

theorem CommittedIndex_exact_witness:
  "HasQuorum (ccConfig demo_joint) (\<lambda>v. 7 \<le> (if v \<in> {2, 3, 4} then 7 else 0 :: Index)) \<and>
   7 \<le> CommittedIndex (ccConfig demo_joint) (\<lambda>v. if v \<in> {2, 3, 4} then 7 else 0)"
proof -
  have "7 \<le> CommittedIndex (ccConfig demo_joint) (\<lambda>v. if v \<in> {2, 3, 4} then 7 else 0)" by code_simp
  with CommittedIndex_exact [of "ccConfig demo_joint" 7 "\<lambda>v. if v \<in> {2, 3, 4} then 7 else 0"]
  show ?thesis by (simp add: demo_joint_def)
qed

text \<open>C19. A campaign is only given up when it is lost: once \<open>QuorumImpossible\<close> holds of the nodes that
  refused, no set of other nodes is a quorum.\<close>

theorem QuorumImpossible_sound:
  assumes "QuorumImpossible c refused" and "\<And>v. granted v \<Longrightarrow> \<not> refused v"
  shows "\<not> HasQuorum c granted"
proof
  assume "HasQuorum c granted"
  then have "hasMajority (Voters c) granted" "IsJoint c \<Longrightarrow> hasMajority (OldVoters c) granted"
    by (auto simp: HasQuorum_iff)
  then show False
    using assms(1) majority.no_disjoint [of _ granted refused] assms(2)
    by (auto simp: QuorumImpossible_iff)
qed

theorem QuorumImpossible_sound_witness:
  "QuorumImpossible demo_conf (\<lambda>v. v \<in> {1, 3}) \<and> \<not> HasQuorum demo_conf (\<lambda>v. v = 2)"
proof -
  have "QuorumImpossible demo_conf (\<lambda>v. v \<in> {1, 3})" by code_simp
  with QuorumImpossible_sound [OF this, of "\<lambda>v. v = 2"] show ?thesis by simp
qed

text \<open>\<open>QuorumImpossible\<close> is not complete: in a cluster of four, two refusals already leave no quorum
  among the others, and the function does not report it, although its comment says it tells whether
  a quorum can no longer be reached. Such a candidate waits out its timeout.\<close>

theorem QuorumImpossible_incomplete:
  "\<exists>c refused. wf_conf c \<and> \<not> QuorumImpossible c refused \<and> \<not> HasQuorum c (\<lambda>v. \<not> refused v)"
  by (rule exI [of _ "NewConfiguration [1, 2, 3, 4] []"], rule exI [of _ "\<lambda>v. v \<in> {1, 2}"]) code_simp

text \<open>C18. The encoding of a configuration change is read back exactly, whatever bytes follow it, as long
  as the configuration is in normal form and no list exceeds what \<open>make\<close> can allocate.\<close>

theorem ConfChange_round_trip:
  assumes "wf_conf (ccConfig cc)" and "encodable_conf (ccConfig cc)"
  shows "DecodeConfChange (Encode cc @ rest) = Ok cc"
  using Decode_Encode [OF assms(2)] normalize_id [OF assms(1)] by simp

theorem ConfChange_round_trip_witness:
  "DecodeConfChange (Encode demo_joint @ [255]) = Ok demo_joint"
  by (rule ConfChange_round_trip) (code_simp, simp add: encodable_conf_def demo_joint_def)

text \<open>C17. A membership change ends at the configuration that was asked for, except for old voters that
  the target lists as learners: leaving the joint configuration gives the target's voters, and the
  target's learners without those that were voters before.\<close>

theorem membership_change_result:
  assumes "wf_conf c" and "wf_conf target" and "EnterJoint c target = Ok cc"
    and "LeaveJoint (ccConfig cc) = Ok cc'"
  shows "Voters (ccConfig cc') = Voters target \<and> OldVoters (ccConfig cc') = [] \<and>
    Learners (ccConfig cc') = filter (\<lambda>i. i \<notin> set (Voters c)) (Learners target)"
proof -
  note enter = EnterJoint_Ok [OF assms(3)]
  have t: "set (Learners target) \<inter> set (Voters target) = {}"
    "sorted_wrt (<) (Voters target)" "sorted_wrt (<) (Learners target)"
    using assms(2) by (auto simp: wf_conf_def)
  have s: "sorted_wrt (<) (filter P (Learners target))" for P
    using t(3) by (rule sorted_wrt_filter)
  have "ccConfig cc' = normalize (zeroConfiguration\<lparr>Voters := Voters (ccConfig cc), Learners := Learners (ccConfig cc)\<rparr>)"
    using assms(4) by (auto simp: LeaveJoint_def Let_def rbind_Ok_iff split: if_splits)
  then show ?thesis
    using enter(4) t s by (auto simp: normalize_sel sortedUnique_id zeroConfiguration_def intro: filter_cong)
qed

theorem membership_change_result_witness:
  "Voters (ccConfig demo_next) = [3, 4, 5] \<and> Learners (ccConfig demo_next) = [9]"
proof -
  have "wf_conf demo_target" by code_simp
  from membership_change_result [OF demo_change(1) this demo_change(2,3)] show ?thesis
    by (simp add: demo_next_def)
qed

end
