(* ===== verification/Raft_Storage.thy ===== *)
theory Raft_Storage
  imports Raft_Types
begin

text \<open>
  The \<open>Storage\<close> interface of \<open>raft/storage.go\<close>. A Go interface value is a table of methods and a
  receiver; here the table is the record \<open>Storage\<close> over the receiver's type \<open>'s\<close>, and every function
  of the core takes it as its first argument. \<open>Close\<close> only releases resources and is left out.

  Two contracts of that interface are stated as locales. \<open>durable_storage\<close> says what a node needs of
  any store to keep its promises across a crash: what was written is what is read, nothing else
  changes, and no entry appears that was not appended. It has no precondition. \<open>log_storage\<close> is the
  full functional contract: each operation is the corresponding operation on an abstract log over the
  natural numbers (\<open>astore\<close>), as long as indexes stay below the width of \<open>uint64\<close>.
\<close>

record 's Storage =
  InitialState :: "'s \<Rightarrow> (HardState \<times> Snapshot) result"
  SetHardState :: "HardState \<Rightarrow> 's \<Rightarrow> (unit, 's) outcome"
  AppendEntries :: "LogEntry list \<Rightarrow> 's \<Rightarrow> (unit, 's) outcome"
  GetEntry :: "Index \<Rightarrow> 's \<Rightarrow> LogEntry result"
  Entries :: "Index \<Rightarrow> Index \<Rightarrow> 's \<Rightarrow> LogEntry list result"
  FirstIndex :: "'s \<Rightarrow> Index"
  LastIndex :: "'s \<Rightarrow> Index"
  TermAt :: "Index \<Rightarrow> 's \<Rightarrow> Term result"
  SaveSnapshot :: "Snapshot \<Rightarrow> 's \<Rightarrow> (unit, 's) outcome"
  LoadSnapshot :: "'s \<Rightarrow> Snapshot result"
  Compact :: "Index \<Rightarrow> 's \<Rightarrow> (unit, 's) outcome"

text \<open>
  Both implementations check a batch of entries before they write it: indexes rise by one and terms
  do not fall. The loop compares neighbours from the front.
\<close>

fun checkContiguous :: "LogEntry list \<Rightarrow> unit result" where
  "checkContiguous (a # b # es) =
     (if eIndex b \<noteq> eIndex a + 1 then Err (ErrMsg ''entries are not contiguous'')
      else if eTerm b < eTerm a then Err (ErrMsg ''entry terms decrease'')
      else checkContiguous (b # es))"
| "checkContiguous es = Ok ()"

section \<open>Durability\<close>

text \<open>No configuration change among the entries.\<close>

definition plain_entries :: "LogEntry list \<Rightarrow> bool" where
  "plain_entries es \<longleftrightarrow> (\<forall>e \<in> set es. eType e \<noteq> EntryConfChange)"

lemma plain_entries_simps [simp]:
  "plain_entries []"
  "plain_entries (e # es) \<longleftrightarrow> eType e \<noteq> EntryConfChange \<and> plain_entries es"
  "plain_entries (es @ fs) \<longleftrightarrow> plain_entries es \<and> plain_entries fs"
  by (auto simp: plain_entries_def)

lemma plain_entries_sub: "plain_entries es \<Longrightarrow> set fs \<subseteq> set es \<Longrightarrow> plain_entries fs"
  by (auto simp: plain_entries_def)

lemma plain_entries_drop [simp]: "plain_entries es \<Longrightarrow> plain_entries (drop n es)"
  by (rule plain_entries_sub) (auto dest: in_set_dropD)

lemma plain_entries_take [simp]: "plain_entries es \<Longrightarrow> plain_entries (take n es)"
  by (rule plain_entries_sub) (auto dest: in_set_takeD)

lemma plain_entries_nth: "plain_entries es \<Longrightarrow> n < length es \<Longrightarrow> eType (es ! n) \<noteq> EntryConfChange"
  by (auto simp: plain_entries_def)

locale durable_storage =
  fixes S :: "'s Storage"
    and hard :: "'s \<Rightarrow> HardState"
    and snap :: "'s \<Rightarrow> Snapshot"
    and plain :: "'s \<Rightarrow> bool"
  assumes init_state: "InitialState S s = Ok (hard s, snap s)"
    and load_snapshot: "LoadSnapshot S s = Ok (snap s)"
    and set_hard_state:
      "post (\<lambda>_ s'. hard s' = hs \<and> hsTerm (hard s) \<le> hsTerm hs \<and> snap s' = snap s \<and> (plain s \<longrightarrow> plain s'))
            (\<lambda>e s'. s' = s \<and> e \<noteq> ErrIgnoredMessage) (\<lambda>s'. s' = s) (SetHardState S hs s)"
    and append_entries:
      "always (\<lambda>s'. hard s' = hard s \<and> snap s' = snap s \<and> (plain s \<and> plain_entries es \<longrightarrow> plain s'))
         (AppendEntries S es s)"
    and save_snapshot:
      "always (\<lambda>s'. hard s' = hard s \<and> snap s' \<in> {snap s, sn} \<and> (plain s \<longrightarrow> plain s'))
         (SaveSnapshot S sn s)"
    and compact:
      "always (\<lambda>s'. hard s' = hard s \<and> snap s' = snap s \<and> (plain s \<longrightarrow> plain s')) (Compact S i s)"
    and get_entry_plain: "GetEntry S i s = Ok e \<Longrightarrow> plain s \<Longrightarrow> eType e \<noteq> EntryConfChange"
    and entries_plain: "Entries S lo hi s = Ok es \<Longrightarrow> plain s \<Longrightarrow> plain_entries es"

section \<open>The abstract log\<close>

text \<open>
  The log after the entry at position \<open>aBase\<close>, whose term alone is still known: entry \<open>i\<close> of \<open>aEnts\<close>
  stands at index \<open>aBase + 1 + i\<close>.
\<close>

record astore =
  aHard :: HardState
  aSnap :: Snapshot
  aBase :: nat
  aBaseTerm :: Term
  aEnts :: "LogEntry list"

definition aLast :: "astore \<Rightarrow> nat" where
  "aLast a = aBase a + length (aEnts a)"

definition awf :: "astore \<Rightarrow> bool" where
  "awf a \<longleftrightarrow> aLast a + 1 < 2 ^ 64 \<and>
     (\<forall>i < length (aEnts a). unat (eIndex (aEnts a ! i)) = aBase a + 1 + i)"

definition a_term :: "nat \<Rightarrow> astore \<Rightarrow> Term result" where
  "a_term n a =
     (if n < aBase a then Err ErrCompacted
      else if aLast a < n then Err ErrUnavailable
      else if n = aBase a then Ok (aBaseTerm a)
      else Ok (eTerm (aEnts a ! (n - aBase a - 1))))"

definition a_get :: "nat \<Rightarrow> astore \<Rightarrow> LogEntry result" where
  "a_get n a =
     (if n < aBase a + 1 then Err ErrCompacted
      else if aLast a < n then Err ErrUnavailable
      else Ok (aEnts a ! (n - aBase a - 1)))"

definition a_entries :: "nat \<Rightarrow> nat \<Rightarrow> astore \<Rightarrow> LogEntry list result" where
  "a_entries lo hi a =
     (if hi \<le> lo then Ok []
      else if lo < aBase a + 1 then Err ErrCompacted
      else if aLast a + 1 < hi then Err ErrUnavailable
      else Ok (take (hi - lo) (drop (lo - aBase a - 1) (aEnts a))))"

definition a_set_hard :: "HardState \<Rightarrow> astore \<Rightarrow> (unit, astore) outcome" where
  "a_set_hard hs a =
     (if hsTerm hs < hsTerm (aHard a) then Fail (ErrMsg ''hard state term is below persisted term'') a
      else Done () (a\<lparr>aHard := hs\<rparr>))"

text \<open>
  Appending replaces everything from the first new index on. Entries at or below the base are
  dropped, and a gap is refused.
\<close>

definition a_append :: "LogEntry list \<Rightarrow> astore \<Rightarrow> (unit, astore) outcome" where
  "a_append es a =
     (if es = [] then Done () a
      else bind (lift (checkContiguous es) a) (\<lambda>_ a.
        (let f = unat (eIndex (hd es)); g = max f (aBase a + 1)
         in if f + length es \<le> aBase a + 1 then Done () a
            else if aLast a + 1 < g then Fail (ErrMsg ''append leaves a gap'') a
            else Done () (a\<lparr>aEnts := take (g - aBase a - 1) (aEnts a) @ drop (g - f) es\<rparr>))))"

text \<open>A snapshot replaces a log that does not reach it or disagrees with it; otherwise it is only kept.\<close>

definition a_save :: "Snapshot \<Rightarrow> astore \<Rightarrow> (unit, astore) outcome" where
  "a_save sn a =
     (if LastIncludedIndex sn \<le> LastIncludedIndex (aSnap a) then Fail ErrSnapshotOutOfDate a
      else if a_term (unat (LastIncludedIndex sn)) a = Ok (LastIncludedTerm sn)
      then Done () (a\<lparr>aSnap := sn\<rparr>)
      else Done () (a\<lparr>aSnap := sn, aBase := unat (LastIncludedIndex sn),
                      aBaseTerm := LastIncludedTerm sn, aEnts := []\<rparr>))"

definition a_compact :: "nat \<Rightarrow> astore \<Rightarrow> (unit, astore) outcome" where
  "a_compact n a =
     (if n \<le> aBase a then Done () a
      else if aLast a < n then Fail (ErrMsg ''compact past last index'') a
      else Done () (a\<lparr>aBase := n, aBaseTerm := eTerm (aEnts a ! (n - aBase a - 1)),
                      aEnts := drop (n - aBase a) (aEnts a)\<rparr>))"

text \<open>The largest index of a batch stays below the last value of \<open>uint64\<close>.\<close>

definition fits :: "LogEntry list \<Rightarrow> bool" where
  "fits es \<longleftrightarrow> es \<noteq> [] \<longrightarrow> unat (eIndex (hd es)) + length es < 2 ^ 64"

locale log_storage =
  fixes S :: "'s Storage"
    and abs :: "'s \<Rightarrow> astore"
    and inv :: "'s \<Rightarrow> bool"
  assumes abs_wf: "inv s \<Longrightarrow> awf (abs s)"
    and first_index: "inv s \<Longrightarrow> unat (FirstIndex S s) = aBase (abs s) + 1"
    and last_index: "inv s \<Longrightarrow> unat (LastIndex S s) = aLast (abs s)"
    and initial_state: "inv s \<Longrightarrow> InitialState S s = Ok (aHard (abs s), aSnap (abs s))"
    and load: "inv s \<Longrightarrow> LoadSnapshot S s = Ok (aSnap (abs s))"
    and term_at: "inv s \<Longrightarrow> i \<noteq> 0 \<Longrightarrow> TermAt S i s = a_term (unat i) (abs s)"
    and get_entry: "inv s \<Longrightarrow> GetEntry S i s = a_get (unat i) (abs s)"
    and entries: "inv s \<Longrightarrow> Entries S lo hi s = a_entries (unat lo) (unat hi) (abs s)"
    and set_hard: "inv s \<Longrightarrow> map_outcome id abs (SetHardState S hs s) = a_set_hard hs (abs s)"
    and append: "inv s \<Longrightarrow> fits es \<Longrightarrow> map_outcome id abs (AppendEntries S es s) = a_append es (abs s)"
    and save: "inv s \<Longrightarrow> aBase (abs s) \<le> unat (LastIncludedIndex sn) \<Longrightarrow>
      unat (LastIncludedIndex sn) + 1 < 2 ^ 64 \<Longrightarrow>
      map_outcome id abs (SaveSnapshot S sn s) = a_save sn (abs s)"
    and compact: "inv s \<Longrightarrow> map_outcome id abs (Compact S i s) = a_compact (unat i) (abs s)"
    and set_hard_inv: "inv s \<Longrightarrow> always inv (SetHardState S hs s)"
    and append_inv: "inv s \<Longrightarrow> fits es \<Longrightarrow> always inv (AppendEntries S es s)"
    and save_inv: "inv s \<Longrightarrow> aBase (abs s) \<le> unat (LastIncludedIndex sn) \<Longrightarrow>
      unat (LastIncludedIndex sn) + 1 < 2 ^ 64 \<Longrightarrow> always inv (SaveSnapshot S sn s)"
    and compact_inv: "inv s \<Longrightarrow> always inv (Compact S i s)"

section \<open>Facts about the abstract log\<close>

lemma checkContiguous_never_crashes: "checkContiguous es \<noteq> Crash"
  by (induction es rule: checkContiguous.induct) auto

lemma contiguous_index:
  assumes "checkContiguous es = Ok ()" and "i < length es"
  shows "eIndex (es ! i) = eIndex (hd es) + of_nat i"
  using assms
proof (induction es arbitrary: i rule: checkContiguous.induct)
  case (1 a b es)
  then show ?case
    by (cases i) (auto split: if_splits)
qed (auto simp: less_Suc_eq)

lemma contiguous_unat:
  assumes "checkContiguous es = Ok ()" and "i < length es" and "fits es"
  shows "unat (eIndex (es ! i)) = unat (eIndex (hd es)) + i"
proof -
  have b: "unat (eIndex (hd es)) + i < 2 ^ 64"
    using assms(2,3) by (cases es) (auto simp: fits_def)
  then have "unat (of_nat i :: uint64) = i" by (intro unat_of_nat_uint64) simp
  then show ?thesis
    using contiguous_index [OF assms(1,2)] b by (simp add: unat_add_uint64)
qed

lemma contiguous_cases: "checkContiguous es = Ok () \<or> (\<exists>e. checkContiguous es = Err e)"
  using checkContiguous_never_crashes [of es] by (cases "checkContiguous es") auto

lemma a_append_DoneE:
  assumes "a_append es a = Done u a'"
  obtains (same) "a' = a" "es = [] \<or> unat (eIndex (hd es)) + length es \<le> aBase a + 1"
  | (wrote) f g where "es \<noteq> []" "checkContiguous es = Ok ()" "f = unat (eIndex (hd es))"
      "g = max f (aBase a + 1)" "aBase a + 1 < f + length es" "g \<le> aLast a + 1"
      "a' = a\<lparr>aEnts := take (g - aBase a - 1) (aEnts a) @ drop (g - f) es\<rparr>"
proof (cases "checkContiguous es = Ok ()")
  case True
  show thesis
    using assms True that(1) that(2) [OF _ True refl refl]
    by (auto simp: a_append_def Let_def not_less split: if_splits)
next
  case False
  then obtain e where "checkContiguous es = Err e" using contiguous_cases by blast
  with assms that(1) show thesis by (auto simp: a_append_def split: if_splits)
qed

lemma spliced_index:
  assumes "awf a" and "fits es" and "checkContiguous es = Ok ()" and "f = unat (eIndex (hd es))"
    and "g = max f (aBase a + 1)" and "g \<le> aLast a + 1"
    and "i < length (take (g - aBase a - 1) (aEnts a) @ drop (g - f) es)"
  shows "unat (eIndex ((take (g - aBase a - 1) (aEnts a) @ drop (g - f) es) ! i)) = aBase a + 1 + i"
proof -
  have l: "length (take (g - aBase a - 1) (aEnts a)) = g - aBase a - 1"
    using assms(5,6) by (auto simp: aLast_def)
  show ?thesis
  proof (cases "i < g - aBase a - 1")
    case True
    then show ?thesis using assms(1) l by (auto simp: nth_append awf_def)
  next
    case False
    let ?j = "g - f + (i - (g - aBase a - 1))"
    have j: "?j < length es" using False assms(7) unfolding length_append l by auto
    have "(take (g - aBase a - 1) (aEnts a) @ drop (g - f) es) ! i = es ! ?j"
      using False l j by (simp add: nth_append)
    then show ?thesis
      using contiguous_unat [OF assms(3) j assms(2)] assms(4,5) False by auto
  qed
qed

lemma a_append_wf:
  assumes "awf a" and "fits es" and "a_append es a = Done u a'"
  shows "awf a'"
  using assms(3)
proof (cases rule: a_append_DoneE)
  case (wrote f g)
  have "f + length es < 2 ^ 64" using assms(2) wrote(1,3) by (simp add: fits_def)
  moreover have "aLast a' + 1 = f + length es"
    using wrote(4-7) by (auto simp: aLast_def)
  ultimately show ?thesis
    using spliced_index [OF assms(1,2) wrote(2,3,4,6)] wrote(7) by (simp add: awf_def)
qed (use assms in simp)

lemma awf_compact:
  assumes "awf a" and "aBase a < n" and "n \<le> aLast a"
  shows "awf (a\<lparr>aBase := n, aBaseTerm := t, aEnts := drop (n - aBase a) (aEnts a)\<rparr>)"
  using assms by (auto simp: awf_def aLast_def)

lemma awf_empty: "n + 1 < 2 ^ 64 \<Longrightarrow> awf (a\<lparr>aSnap := sn, aBase := n, aBaseTerm := t, aEnts := []\<rparr>)"
  by (simp add: awf_def aLast_def)

text \<open>A write of a suffix is read back; what lies before it is untouched.\<close>

lemma a_append_last:
  assumes "a_append es a = Done u a'" and "a' \<noteq> a"
  shows "aLast a' + 1 = unat (eIndex (hd es)) + length es"
  using assms(1)
proof (cases rule: a_append_DoneE)
  case (wrote f g)
  then show ?thesis by (auto simp: aLast_def)
qed (use assms in simp)

lemma a_append_below:
  assumes "a_append es a = Done u a'" and "n < unat (eIndex (hd es))"
  shows "a_get n a' = a_get n a \<or> n < aBase a + 1 \<and> a_get n a' = Err ErrCompacted"
  using assms(1)
proof (cases rule: a_append_DoneE)
  case (wrote f g)
  then show ?thesis
    using assms(2) by (auto simp: a_get_def aLast_def nth_append)
qed simp

lemma a_append_read:
  assumes "fits es" and "a_append es a = Done u a'" and "i < length es"
    and "aBase a < unat (eIndex (hd es))"
  shows "a_get (unat (eIndex (hd es)) + i) a' = Ok (es ! i)"
  using assms(2)
proof (cases rule: a_append_DoneE)
  case same
  with assms show ?thesis by auto
next
  case (wrote f g)
  then have "g = f" using assms(4) by simp
  moreover have "length (take (f - aBase a - 1) (aEnts a)) = f - aBase a - 1"
    using wrote \<open>g = f\<close> by (auto simp: aLast_def)
  ultimately show ?thesis
    using wrote assms(3,4) by (auto simp: a_get_def aLast_def nth_append)
qed

lemma last_contiguous:
  assumes "checkContiguous es = Ok ()" and "fits es" and "es \<noteq> []"
  shows "unat (eIndex (last es)) = unat (eIndex (hd es)) + length es - 1"
  using contiguous_unat [OF assms(1) _ assms(2), of "length es - 1"] assms(3)
  by (cases es) (auto simp: last_conv_nth)

text \<open>Both stores drop the entries of a batch that lie at or below the last index they have forgotten.\<close>

lemma append_trim:
  assumes "fits es" and "checkContiguous es = Ok ()" and "es \<noteq> []" and "\<not> eIndex (last es) \<le> b" and "unat b + 1 < 2 ^ 64"
    and k: "k = max (unat (eIndex (hd es))) (unat b + 1) - unat (eIndex (hd es))"
  shows "(if eIndex (hd es) \<le> b then slice_from es (b + 1 - eIndex (hd es)) else Ok es) = Ok (drop k es)" (is ?trim)
    and "k < length es" (is ?short)
    and "unat (eIndex (es ! k)) = max (unat (eIndex (hd es))) (unat b + 1)" (is ?index)
proof -
  have l: "unat b + 1 < unat (eIndex (hd es)) + length es"
    using assms last_contiguous [OF assms(2,1,3)] by (auto simp: uint64_le_iff)
  moreover have "0 < length es" using assms(3) by simp
  ultimately show s: ?short using k by linarith
  show ?index using contiguous_unat [OF assms(2) s assms(1)] k by simp
  have "unat (b + 1 - eIndex (hd es)) = k" if "eIndex (hd es) \<le> b"
    using that assms(5) k by (simp add: unat_sub_uint64 unat_Suc_uint64 uint64_le_iff max_def)
  then show ?trim
    using s k by (auto simp: slice_from_def uint64_le_iff max_def)
qed

end
