(* ===== verification/Memory_Storage.thy ===== *)
theory Memory_Storage
  imports Raft_Storage
begin

text \<open>
  \<open>raft/memory_storage.go\<close>: the in-memory store the simulator and the tests run on. \<open>msEnts\<close> keeps a
  sentinel at position 0 with the index and term of the last entry the log no longer holds. Index
  arithmetic is the source's, on 64-bit words; an index expression out of the slice's range is a
  panic. \<open>cloneEntry\<close> and \<open>Clone\<close> copy values and are the identity here.

  The store implements both contracts of the interface: \<open>durable_storage\<close> in every state, and
  \<open>log_storage\<close> in the states its operations reach (\<open>mem_inv\<close>).
\<close>

record MemoryStorage =
  msHardState :: HardState
  msSnapshot :: Snapshot
  msEnts :: "LogEntry list"

definition zeroEntry :: LogEntry where
  "zeroEntry = \<lparr>eTerm = 0, eIndex = 0, eType = EntryNormal, eCommand = []\<rparr>"

definition NewMemoryStorage :: MemoryStorage where
  "NewMemoryStorage = \<lparr>msHardState = zeroHardState, msSnapshot = zeroSnapshot, msEnts = [zeroEntry]\<rparr>"

definition Mem_InitialState :: "MemoryStorage \<Rightarrow> (HardState \<times> Snapshot) result" where
  "Mem_InitialState m = Ok (msHardState m, msSnapshot m)"

definition Mem_SetHardState :: "HardState \<Rightarrow> MemoryStorage \<Rightarrow> (unit, MemoryStorage) outcome" where
  "Mem_SetHardState hs m =
     (if hsTerm hs < hsTerm (msHardState m)
      then Fail (ErrMsg ''hard state term is below persisted term'') m
      else Done () (m\<lparr>msHardState := hs\<rparr>))"

definition offset :: "MemoryStorage \<Rightarrow> Index" where
  "offset m = eIndex (msEnts m ! 0)"

definition Mem_FirstIndex :: "MemoryStorage \<Rightarrow> Index" where
  "Mem_FirstIndex m = offset m + 1"

definition Mem_LastIndex :: "MemoryStorage \<Rightarrow> Index" where
  "Mem_LastIndex m = offset m + of_nat (length (msEnts m)) - 1"

definition Mem_Term :: "Index \<Rightarrow> MemoryStorage \<Rightarrow> Term result" where
  "Mem_Term i m =
     (if i < offset m then Err ErrCompacted
      else if i > Mem_LastIndex m then Err ErrUnavailable
      else rbind (at (msEnts m) (i - offset m)) (\<lambda>e. Ok (eTerm e)))"

definition Mem_GetEntry :: "Index \<Rightarrow> MemoryStorage \<Rightarrow> LogEntry result" where
  "Mem_GetEntry i m =
     (if i < Mem_FirstIndex m then Err ErrCompacted
      else if i > Mem_LastIndex m then Err ErrUnavailable
      else at (msEnts m) (i - offset m))"

definition Mem_Entries :: "Index \<Rightarrow> Index \<Rightarrow> MemoryStorage \<Rightarrow> LogEntry list result" where
  "Mem_Entries lo hi m =
     (if lo \<ge> hi then Ok []
      else if lo < Mem_FirstIndex m then Err ErrCompacted
      else if hi > Mem_LastIndex m + 1 then Err ErrUnavailable
      else slice (msEnts m) (lo - offset m) (hi - offset m))"

definition Mem_AppendEntries :: "LogEntry list \<Rightarrow> MemoryStorage \<Rightarrow> (unit, MemoryStorage) outcome" where
  "Mem_AppendEntries es m =
     (if es = [] then Done () m
      else bind (lift (checkContiguous es) m) (\<lambda>_ m.
        if eIndex (last es) \<le> offset m then Done () m
        else
          bind (lift (if eIndex (hd es) \<le> offset m
                      then slice_from es (offset m + 1 - eIndex (hd es)) else Ok es) m) (\<lambda>es m.
          bind (lift (at es 0) m) (\<lambda>e0 m.
          if eIndex e0 > Mem_LastIndex m + 1 then Fail (ErrMsg ''append leaves a gap'') m
          else bind (lift (slice_to (msEnts m) (eIndex e0 - offset m)) m) (\<lambda>kept m.
            Done () (m\<lparr>msEnts := kept @ es\<rparr>))))))"

definition Mem_SaveSnapshot :: "Snapshot \<Rightarrow> MemoryStorage \<Rightarrow> (unit, MemoryStorage) outcome" where
  "Mem_SaveSnapshot sn m0 =
     (if LastIncludedIndex sn \<le> LastIncludedIndex (msSnapshot m0) then Fail ErrSnapshotOutOfDate m0
      else
        (let m = m0\<lparr>msSnapshot := sn\<rparr>;
             i = LastIncludedIndex sn;
             t = LastIncludedTerm sn
         in bind (if i \<le> Mem_LastIndex m
                  then bind (lift (at (msEnts m) (i - offset m)) m) (\<lambda>e m. Done (eTerm e = t) m)
                  else Done False m) (\<lambda>agrees m.
            if agrees then Done () m
            else Done () (m\<lparr>msEnts := [zeroEntry\<lparr>eIndex := i, eTerm := t\<rparr>]\<rparr>))))"

definition Mem_LoadSnapshot :: "MemoryStorage \<Rightarrow> Snapshot result" where
  "Mem_LoadSnapshot m = Ok (msSnapshot m)"

definition Mem_Compact :: "Index \<Rightarrow> MemoryStorage \<Rightarrow> (unit, MemoryStorage) outcome" where
  "Mem_Compact i m =
     (if i \<le> offset m then Done () m
      else if i > Mem_LastIndex m then Fail (ErrMsg ''compact past last index'') m
      else bind (lift (slice_from (msEnts m) (i - offset m)) m) (\<lambda>es m.
        bind (lift (at es 0) (m\<lparr>msEnts := es\<rparr>)) (\<lambda>e m.
          Done () (m\<lparr>msEnts := es[0 := e\<lparr>eCommand := [], eType := EntryNormal\<rparr>]\<rparr>))))"

definition memory_storage :: "MemoryStorage Storage" where
  "memory_storage =
     \<lparr>InitialState = Mem_InitialState, SetHardState = Mem_SetHardState,
      AppendEntries = Mem_AppendEntries, GetEntry = Mem_GetEntry, Entries = Mem_Entries,
      FirstIndex = Mem_FirstIndex, LastIndex = Mem_LastIndex, TermAt = Mem_Term,
      SaveSnapshot = Mem_SaveSnapshot, LoadSnapshot = Mem_LoadSnapshot, Compact = Mem_Compact\<rparr>"

lemma memory_storage_sel [simp]:
  "InitialState memory_storage = Mem_InitialState"
  "SetHardState memory_storage = Mem_SetHardState"
  "AppendEntries memory_storage = Mem_AppendEntries"
  "GetEntry memory_storage = Mem_GetEntry"
  "Entries memory_storage = Mem_Entries"
  "FirstIndex memory_storage = Mem_FirstIndex"
  "LastIndex memory_storage = Mem_LastIndex"
  "TermAt memory_storage = Mem_Term"
  "SaveSnapshot memory_storage = Mem_SaveSnapshot"
  "LoadSnapshot memory_storage = Mem_LoadSnapshot"
  "Compact memory_storage = Mem_Compact"
  by (simp_all add: memory_storage_def)

section \<open>Durability\<close>

definition mem_plain :: "MemoryStorage \<Rightarrow> bool" where
  "mem_plain m \<longleftrightarrow> plain_entries (msEnts m)"

lemma plain_update: "plain_entries es \<Longrightarrow> eType e \<noteq> EntryConfChange \<Longrightarrow> plain_entries (es[i := e])"
  by (auto simp: plain_entries_def dest: subsetD [OF set_update_subset_insert])

interpretation mem_durable: durable_storage memory_storage msHardState msSnapshot mem_plain
proof unfold_locales
  fix es s
  show "always (\<lambda>s'. msHardState s' = msHardState s \<and> msSnapshot s' = msSnapshot s \<and>
      (mem_plain s \<and> plain_entries es \<longrightarrow> mem_plain s')) (AppendEntries memory_storage es s)"
    by (auto simp: Mem_AppendEntries_def post_bind_iff post_lift_iff mem_plain_def
        split: if_splits dest!: slice_from_Ok slice_to_Ok elim: plain_entries_sub)
next
  fix i s
  show "always (\<lambda>s'. msHardState s' = msHardState s \<and> msSnapshot s' = msSnapshot s \<and>
      (mem_plain s \<longrightarrow> mem_plain s')) (Compact memory_storage i s)"
    by (auto simp: Mem_Compact_def post_bind_iff post_lift_iff mem_plain_def
        dest!: slice_from_Ok intro!: plain_update elim: plain_entries_sub)
next
  fix sn s
  show "always (\<lambda>s'. msHardState s' = msHardState s \<and> msSnapshot s' \<in> {msSnapshot s, sn} \<and>
      (mem_plain s \<longrightarrow> mem_plain s')) (SaveSnapshot memory_storage sn s)"
    by (auto simp: Mem_SaveSnapshot_def Let_def post_bind_iff post_lift_iff mem_plain_def zeroEntry_def)
qed (auto simp: Mem_InitialState_def Mem_LoadSnapshot_def Mem_SetHardState_def Mem_GetEntry_def
      Mem_Entries_def mem_plain_def plain_entries_def split: if_splits dest!: at_Ok slice_Ok)

section \<open>The log contract\<close>

definition mem_abs :: "MemoryStorage \<Rightarrow> astore" where
  "mem_abs m = \<lparr>aHard = msHardState m, aSnap = msSnapshot m, aBase = unat (offset m),
     aBaseTerm = eTerm (msEnts m ! 0), aEnts = tl (msEnts m)\<rparr>"

definition mem_inv :: "MemoryStorage \<Rightarrow> bool" where
  "mem_inv m \<longleftrightarrow> msEnts m \<noteq> [] \<and> awf (mem_abs m)"

lemma mem_abs_sel [simp]:
  "aHard (mem_abs m) = msHardState m" "aSnap (mem_abs m) = msSnapshot m"
  "aBase (mem_abs m) = unat (offset m)" "aBaseTerm (mem_abs m) = eTerm (msEnts m ! 0)"
  "aEnts (mem_abs m) = tl (msEnts m)"
  by (simp_all add: mem_abs_def)

lemma mem_inv_new: "mem_inv NewMemoryStorage"
  by (simp add: mem_inv_def awf_def aLast_def NewMemoryStorage_def zeroEntry_def offset_def)

lemma mem_first:
  assumes "mem_inv m"
  shows "unat (Mem_FirstIndex m) = unat (offset m) + 1"
  using assms unfolding Mem_FirstIndex_def mem_inv_def awf_def aLast_def
  by (subst unat_Suc_uint64) auto

lemma mem_last_eq:
  assumes "msEnts m \<noteq> []"
  shows "Mem_LastIndex m = offset m + of_nat (length (tl (msEnts m)))"
  using assms by (cases "msEnts m") (auto simp: Mem_LastIndex_def)

lemma mem_last:
  assumes "mem_inv m"
  shows "unat (Mem_LastIndex m) = aLast (mem_abs m)"
proof -
  have b: "unat (offset m) + length (tl (msEnts m)) < 2 ^ 64"
    using assms by (simp add: mem_inv_def awf_def aLast_def)
  then have "unat (of_nat (length (tl (msEnts m))) :: uint64) = length (tl (msEnts m))"
    by (intro unat_of_nat_uint64) simp
  with b show ?thesis
    using assms by (simp add: mem_last_eq mem_inv_def aLast_def unat_add_uint64)
qed

lemma mem_last_Suc:
  assumes "mem_inv m"
  shows "unat (Mem_LastIndex m + 1) = aLast (mem_abs m) + 1"
  using assms mem_last [OF assms] by (subst unat_Suc_uint64) (auto simp: mem_inv_def awf_def)

lemma mem_length: "mem_inv m \<Longrightarrow> 0 < length (msEnts m)"
  by (auto simp: mem_inv_def)

lemma mem_nth: "mem_inv m \<Longrightarrow> 0 < n \<Longrightarrow> n < length (msEnts m) \<Longrightarrow> msEnts m ! n = tl (msEnts m) ! (n - 1)"
  by (auto simp: mem_inv_def nth_tl)

lemmas mem_cmp = uint64_less_iff uint64_le_iff mem_first mem_last mem_last_Suc

lemma mem_at:
  assumes "mem_inv m" and "offset m \<le> i" and "unat i \<le> aLast (mem_abs m)"
  shows "at (msEnts m) (i - offset m) = Ok (msEnts m ! (unat i - unat (offset m)))"
  using assms mem_length [OF assms(1)]
  by (cases "msEnts m") (auto simp: at_def unat_sub_uint64 aLast_def uint64_le_iff)

lemma mem_term_abs:
  assumes "mem_inv m"
  shows "Mem_Term i m = a_term (unat i) (mem_abs m)"
proof (cases "i < offset m \<or> Mem_LastIndex m < i")
  case True
  then show ?thesis using assms by (auto simp: Mem_Term_def a_term_def mem_cmp)
next
  case False
  then have "at (msEnts m) (i - offset m) = Ok (msEnts m ! (unat i - unat (offset m)))"
    using assms by (intro mem_at) (auto simp: mem_cmp)
  with False show ?thesis
    using assms mem_nth [OF assms, of "unat i - unat (offset m)"] mem_length [OF assms]
    by (auto simp: Mem_Term_def a_term_def mem_cmp aLast_def)
qed

lemma mem_get_abs:
  assumes "mem_inv m"
  shows "Mem_GetEntry i m = a_get (unat i) (mem_abs m)"
proof (cases "i < Mem_FirstIndex m \<or> Mem_LastIndex m < i")
  case True
  then show ?thesis using assms by (auto simp: Mem_GetEntry_def a_get_def mem_cmp)
next
  case False
  then have "at (msEnts m) (i - offset m) = Ok (msEnts m ! (unat i - unat (offset m)))"
    using assms by (intro mem_at) (auto simp: mem_cmp)
  with False show ?thesis
    using assms mem_nth [OF assms, of "unat i - unat (offset m)"] mem_length [OF assms]
    by (auto simp: Mem_GetEntry_def a_get_def mem_cmp aLast_def)
qed

lemma mem_entries_abs:
  assumes "mem_inv m"
  shows "Mem_Entries lo hi m = a_entries (unat lo) (unat hi) (mem_abs m)"
proof (cases "hi \<le> lo \<or> lo < Mem_FirstIndex m \<or> Mem_LastIndex m + 1 < hi")
  case True
  then show ?thesis using assms by (auto simp: Mem_Entries_def a_entries_def mem_cmp)
next
  case False
  obtain e es where e: "msEnts m = e # es" using assms by (auto simp: mem_inv_def neq_Nil_conv)
  have b: "unat (offset m) + 1 \<le> unat lo" "unat lo < unat hi" "unat hi \<le> unat (offset m) + length es + 1"
    using False assms e by (auto simp: mem_cmp aLast_def)
  then have "drop (unat lo - unat (offset m)) (take (unat hi - unat (offset m)) (e # es)) =
      take (unat hi - unat lo) (drop (unat lo - unat (offset m) - 1) es)"
    by (simp add: drop_take drop_Cons')
  with False b show ?thesis
    using assms e
    by (auto simp: Mem_Entries_def a_entries_def slice_def mem_cmp aLast_def unat_sub_uint64)
qed

lemma mem_compact_abs:
  assumes "mem_inv m"
  shows "map_outcome id mem_abs (Mem_Compact i m) = a_compact (unat i) (mem_abs m)"
    and "always mem_inv (Mem_Compact i m)"
proof -
  have "map_outcome id mem_abs (Mem_Compact i m) = a_compact (unat i) (mem_abs m) \<and>
        always mem_inv (Mem_Compact i m)"
  proof (cases "i \<le> offset m \<or> Mem_LastIndex m < i")
    case True
    then show ?thesis using assms by (auto simp: Mem_Compact_def a_compact_def mem_cmp)
  next
    case False
    let ?n = "unat i - unat (offset m)"
    have n: "0 < ?n" "?n < length (msEnts m)" "unat (i - offset m) = ?n"
      using False assms mem_length [OF assms] by (auto simp: mem_cmp aLast_def unat_sub_uint64)
    let ?e = "(msEnts m ! ?n)\<lparr>eCommand := [], eType := EntryNormal\<rparr>"
    let ?m = "m\<lparr>msEnts := ?e # drop (Suc ?n) (msEnts m)\<rparr>"
    have c: "Mem_Compact i m = Done () ?m"
      using False n by (simp add: Mem_Compact_def slice_from_def at_def Cons_nth_drop_Suc [symmetric])
    have i: "unat (eIndex (msEnts m ! ?n)) = unat i"
      using assms n mem_nth [OF assms n(1,2)] mem_length [OF assms] by (auto simp: mem_inv_def awf_def)
    have a: "mem_abs ?m = (mem_abs m)\<lparr>aBase := unat i, aBaseTerm := eTerm (tl (msEnts m) ! (?n - 1)),
        aEnts := drop ?n (tl (msEnts m))\<rparr>"
      using n mem_nth [OF assms n(1,2)] i by (simp add: mem_abs_def offset_def drop_Suc)
    have "awf (mem_abs ?m)"
      unfolding a using awf_compact [of "mem_abs m" "unat i"] assms False
      by (simp add: mem_inv_def mem_cmp)
    with a c False show ?thesis
      using assms by (auto simp: a_compact_def mem_cmp mem_inv_def)
  qed
  then show "map_outcome id mem_abs (Mem_Compact i m) = a_compact (unat i) (mem_abs m)"
    and "always mem_inv (Mem_Compact i m)" by auto
qed

lemma mem_set_hard_abs:
  "map_outcome id mem_abs (Mem_SetHardState hs m) = a_set_hard hs (mem_abs m)"
  by (simp add: Mem_SetHardState_def a_set_hard_def) (simp add: mem_abs_def offset_def)

lemma mem_set_hard_inv: "mem_inv m \<Longrightarrow> always mem_inv (Mem_SetHardState hs m)"
  by (simp add: Mem_SetHardState_def mem_inv_def awf_def aLast_def offset_def)

lemma mem_save_abs:
  assumes "mem_inv m" and "unat (offset m) \<le> unat (LastIncludedIndex sn)"
    and "unat (LastIncludedIndex sn) + 1 < 2 ^ 64"
  shows "map_outcome id mem_abs (Mem_SaveSnapshot sn m) = a_save sn (mem_abs m)"
    and "always mem_inv (Mem_SaveSnapshot sn m)"
proof -
  let ?i = "LastIncludedIndex sn" and ?m = "m\<lparr>msSnapshot := sn\<rparr>"
  let ?r = "?m\<lparr>msEnts := [zeroEntry\<lparr>eIndex := ?i, eTerm := LastIncludedTerm sn\<rparr>]\<rparr>"
  have m: "offset ?m = offset m" "Mem_LastIndex ?m = Mem_LastIndex m" "mem_inv ?m"
    using assms(1) by (simp_all add: offset_def Mem_LastIndex_def mem_inv_def awf_def aLast_def)
  have t: "Mem_Term ?i m = (if Mem_LastIndex m < ?i then Err ErrUnavailable
      else rbind (at (msEnts m) (?i - offset m)) (\<lambda>e. Ok (eTerm e)))"
    using assms(2) by (simp add: Mem_Term_def uint64_less_iff)
  have r: "mem_abs ?r = (mem_abs m)\<lparr>aSnap := sn, aBase := unat ?i, aBaseTerm := LastIncludedTerm sn, aEnts := []\<rparr>"
    "mem_abs ?m = (mem_abs m)\<lparr>aSnap := sn\<rparr>"
    by (simp_all add: mem_abs_def offset_def zeroEntry_def)
  have "mem_inv ?r"
    using awf_empty [OF assms(3)] unfolding mem_inv_def r by simp
  moreover have "at (msEnts m) (?i - offset m) \<noteq> Crash" if "\<not> Mem_LastIndex m < ?i"
    using that assms mem_at [OF assms(1), of ?i] by (simp add: mem_cmp)
  then have "Mem_SaveSnapshot sn m =
      (if ?i \<le> LastIncludedIndex (msSnapshot m) then Fail ErrSnapshotOutOfDate m
       else if Mem_Term ?i m = Ok (LastIncludedTerm sn) then Done () ?m else Done () ?r)"
    using t m by (cases "at (msEnts m) (?i - offset m)")
      (auto simp: Mem_SaveSnapshot_def Let_def not_less not_le at_def split: if_splits)
  ultimately show "map_outcome id mem_abs (Mem_SaveSnapshot sn m) = a_save sn (mem_abs m)"
    and "always mem_inv (Mem_SaveSnapshot sn m)"
    using assms(1) m(3) r by (simp_all add: a_save_def mem_term_abs)
qed

lemma mem_append_trim:
  assumes "mem_inv m" and "fits es" and "checkContiguous es = Ok ()" and "es \<noteq> []"
    and "\<not> eIndex (last es) \<le> offset m"
    and k: "k = max (unat (eIndex (hd es))) (unat (offset m) + 1) - unat (eIndex (hd es))"
  shows "(if eIndex (hd es) \<le> offset m then slice_from es (offset m + 1 - eIndex (hd es)) else Ok es) =
      Ok (drop k es)"
    and "k < length es"
    and "unat (eIndex (es ! k)) = max (unat (eIndex (hd es))) (unat (offset m) + 1)"
  using append_trim [OF assms(2-5) _ k] assms(1) by (simp_all add: mem_inv_def awf_def aLast_def)

lemma mem_append_abs:
  assumes "mem_inv m" and "fits es"
  shows "map_outcome id mem_abs (Mem_AppendEntries es m) = a_append es (mem_abs m)"
proof (cases "es \<noteq> [] \<and> checkContiguous es = Ok () \<and> \<not> eIndex (last es) \<le> offset m")
  case False
  then show ?thesis
    using contiguous_cases [of es] last_contiguous [OF _ assms(2)]
    by (auto simp: Mem_AppendEntries_def a_append_def uint64_le_iff Let_def)
next
  case True
  then have e: "es \<noteq> []" "checkContiguous es = Ok ()" "\<not> eIndex (last es) \<le> offset m" by auto
  let ?f = "unat (eIndex (hd es))" and ?b = "unat (offset m)"
  define g where "g = max ?f (?b + 1)"
  note trim = mem_append_trim [OF assms e(2,1,3) refl, folded g_def]
  have g: "?b + 1 \<le> g" by (simp add: g_def)
  have b: "?b + 1 < ?f + length es"
    using e last_contiguous [OF e(2) assms(2) e(1)] by (auto simp: uint64_le_iff)
  have at0: "at (drop (g - ?f) es) 0 = Ok (es ! (g - ?f))"
    using trim(2) by (simp add: at_def)
  have sub: "unat (eIndex (es ! (g - ?f)) - offset m) = g - ?b"
    using trim(3) g by (simp add: unat_sub_uint64 uint64_le_iff)
  have cut: "slice_to (msEnts m) (eIndex (es ! (g - ?f)) - offset m) = Ok (take (g - ?b) (msEnts m))"
    if "\<not> Mem_LastIndex m + 1 < eIndex (es ! (g - ?f))"
    using that assms(1) trim(3) g sub mem_length [OF assms(1)]
    by (cases "msEnts m") (auto simp: slice_to_def mem_cmp aLast_def)
  have tk: "take (g - ?b) (msEnts m) = msEnts m ! 0 # take (g - ?b - 1) (tl (msEnts m))"
    using assms(1) g by (cases "msEnts m") (auto simp: mem_inv_def take_Cons')
  have "a_append es (mem_abs m) =
      (if aLast (mem_abs m) + 1 < g then Fail (ErrMsg ''append leaves a gap'') (mem_abs m)
       else Done () ((mem_abs m)\<lparr>aEnts := take (g - ?b - 1) (tl (msEnts m)) @ drop (g - ?f) es\<rparr>))"
    using e b by (simp add: a_append_def g_def Let_def)
  moreover have "Mem_AppendEntries es m =
      (if aLast (mem_abs m) + 1 < g then Fail (ErrMsg ''append leaves a gap'') m
       else Done () (m\<lparr>msEnts := msEnts m ! 0 # take (g - ?b - 1) (tl (msEnts m)) @ drop (g - ?f) es\<rparr>))"
    using e trim(1,3) at0 cut tk assms(1) by (simp add: Mem_AppendEntries_def mem_cmp)
  ultimately show ?thesis by (simp add: mem_abs_def offset_def)
qed

lemma mem_append_inv:
  assumes "mem_inv m" and "fits es"
  shows "always mem_inv (Mem_AppendEntries es m)"
proof (cases "Mem_AppendEntries es m")
  case (Done u m')
  then have a: "a_append es (mem_abs m) = Done u (mem_abs m')"
    using mem_append_abs [OF assms] by simp
  have "msEnts m' \<noteq> []"
    using Done assms(1) at_Ok slice_to_def
    by (auto simp: Mem_AppendEntries_def bind_Done_iff mem_inv_def at_def
        split: if_splits dest!: lift_Done)
  with Done show ?thesis
    using a_append_wf [OF _ assms(2) a] assms(1) by (simp add: mem_inv_def)
next
  case (Fail e m')
  then have "m' = m"
    by (auto simp: Mem_AppendEntries_def bind_Fail_iff bind_Done_iff split: if_splits dest!: lift_Done lift_Fail)
  with Fail assms show ?thesis by simp
next
  case (Panic m')
  then have "a_append es (mem_abs m) = Panic (mem_abs m')"
    using mem_append_abs [OF assms] by simp
  then show ?thesis using contiguous_cases [of es] by (auto simp: a_append_def Let_def split: if_splits)
qed

interpretation mem_log: log_storage memory_storage mem_abs mem_inv
proof unfold_locales
  fix s and sn :: Snapshot
  assume "mem_inv s" "aBase (mem_abs s) \<le> unat (LastIncludedIndex sn)" "unat (LastIncludedIndex sn) + 1 < 2 ^ 64"
  then show "map_outcome id mem_abs (SaveSnapshot memory_storage sn s) = a_save sn (mem_abs s)"
    and "always mem_inv (SaveSnapshot memory_storage sn s)"
    using mem_save_abs [of s sn] by auto
qed (auto simp: mem_first mem_last Mem_InitialState_def Mem_LoadSnapshot_def mem_term_abs mem_get_abs
      mem_entries_abs mem_set_hard_abs mem_append_abs mem_compact_abs mem_set_hard_inv mem_append_inv
      mem_inv_def [THEN iffD1])

end
