(* ===== verification/Raft_Log.thy ===== *)
theory Raft_Log
  imports Memory_Storage
begin

text \<open>
  \<open>raft/log.go\<close>: the core's view of the log, a \<open>Storage\<close> and the two volatile indexes. Every function
  takes the table of the store's methods first. The lemmas of the second half hold for every store
  that keeps the \<open>log_storage\<close> contract: what \<open>maybeAppend\<close> leaves in the log, that nothing committed
  is ever overwritten, and what the conflict hint tells the leader.
\<close>

record 's raftLog =
  storage :: 's
  committed :: Index
  applied :: Index

definition newRaftLog :: "'s Storage \<Rightarrow> 's \<Rightarrow> 's raftLog result" where
  "newRaftLog S st =
     rbind (InitialState S st) (\<lambda>(hs, snap).
       (let l = \<lparr>storage = st, committed = LastIncludedIndex snap, applied = LastIncludedIndex snap\<rparr>
        in Ok (if hsCommit hs > committed l
               then l\<lparr>committed := min (hsCommit hs) (LastIndex S st)\<rparr> else l)))"

definition firstIndex :: "'s Storage \<Rightarrow> 's raftLog \<Rightarrow> Index" where
  "firstIndex S l = FirstIndex S (storage l)"

definition lastIndex :: "'s Storage \<Rightarrow> 's raftLog \<Rightarrow> Index" where
  "lastIndex S l = LastIndex S (storage l)"

definition log_term :: "'s Storage \<Rightarrow> 's raftLog \<Rightarrow> Index \<Rightarrow> Term result" where
  "log_term S l i = (if i = 0 then Ok 0 else TermAt S i (storage l))"

text \<open>The term of the last index must be answerable; the source panics otherwise.\<close>

definition lastTerm :: "'s Storage \<Rightarrow> 's raftLog \<Rightarrow> Term result" where
  "lastTerm S l = (case log_term S l (lastIndex S l) of Ok t \<Rightarrow> Ok t | Err _ \<Rightarrow> Crash | Crash \<Rightarrow> Crash)"

definition matchTerm :: "'s Storage \<Rightarrow> 's raftLog \<Rightarrow> Index \<Rightarrow> Term \<Rightarrow> bool result" where
  "matchTerm S l i t =
     (case log_term S l i of Ok lt \<Rightarrow> Ok (lt = t) | Err _ \<Rightarrow> Ok False | Crash \<Rightarrow> Crash)"

definition entries :: "'s Storage \<Rightarrow> 's raftLog \<Rightarrow> Index \<Rightarrow> Index \<Rightarrow> LogEntry list result" where
  "entries S l lo hi =
     (if lo \<ge> hi then Ok []
      else if hi > lastIndex S l + 1 then Err ErrUnavailable
      else Entries S lo hi (storage l))"

definition isUpToDate :: "'s Storage \<Rightarrow> 's raftLog \<Rightarrow> Index \<Rightarrow> Term \<Rightarrow> bool result" where
  "isUpToDate S l lastIdx lastT =
     rbind (lastTerm S l) (\<lambda>myTerm.
       Ok (if lastT \<noteq> myTerm then lastT > myTerm else lastIdx \<ge> lastIndex S l))"

definition log_append :: "'s Storage \<Rightarrow> LogEntry list \<Rightarrow> 's raftLog \<Rightarrow> (unit, 's raftLog) outcome" where
  "log_append S ents l =
     (if ents = [] then Done () l
      else if eIndex (hd ents) \<le> committed l then Fail (ErrMsg ''append would overwrite committed index'') l
      else embed (\<lambda>st. l\<lparr>storage := st\<rparr>) (AppendEntries S ents (storage l)))"

fun findConflict :: "'s Storage \<Rightarrow> 's raftLog \<Rightarrow> LogEntry list \<Rightarrow> Index result" where
  "findConflict S l [] = Ok 0"
| "findConflict S l (e # es) =
     rbind (matchTerm S l (eIndex e) (eTerm e)) (\<lambda>same.
       if same then findConflict S l es else Ok (eIndex e))"

text \<open>\<open>commitTo\<close> never moves backwards and panics beyond the log.\<close>

definition commitTo :: "'s Storage \<Rightarrow> Index \<Rightarrow> 's raftLog \<Rightarrow> (unit, 's raftLog) outcome" where
  "commitTo S i l =
     (if i \<le> committed l then Done () l
      else if i > lastIndex S l then Panic l
      else Done () (l\<lparr>committed := i\<rparr>))"

text \<open>The \<open>switch\<close> of \<open>maybeAppend\<close> on the first conflicting index.\<close>

definition write_from_conflict ::
  "'s Storage \<Rightarrow> Index \<Rightarrow> LogEntry list \<Rightarrow> Index \<Rightarrow> 's raftLog \<Rightarrow> (unit, 's raftLog) outcome" where
  "write_from_conflict S prevIdx ents conflict l =
     (if conflict = 0 then Done () l
      else if conflict \<le> committed l then Fail ErrSafetyViolation l
      else bind (lift (slice_from ents (conflict - prevIdx - 1)) l) (\<lambda>es l. log_append S es l))"

definition maybeAppend ::
  "'s Storage \<Rightarrow> Index \<Rightarrow> Term \<Rightarrow> Index \<Rightarrow> LogEntry list \<Rightarrow> 's raftLog \<Rightarrow> (Index \<times> bool, 's raftLog) outcome" where
  "maybeAppend S prevIdx prevTerm leaderCommit ents l =
     bind (lift (matchTerm S l prevIdx prevTerm) l) (\<lambda>same l.
       if \<not> same then Done (0, False) l
       else
         (let lastNewIndex = prevIdx + of_nat (length ents)
          in bind (lift (findConflict S l ents) l) (\<lambda>conflict l.
             bind (write_from_conflict S prevIdx ents conflict l) (\<lambda>_ l.
             bind (commitTo S (min leaderCommit lastNewIndex) l) (\<lambda>_ l.
               Done (lastNewIndex, True) l)))))"

text \<open>The loop of \<open>conflictHint\<close>: back to the first index of the run of entries with this term.\<close>

function conflict_loop :: "'s Storage \<Rightarrow> 's raftLog \<Rightarrow> Term \<Rightarrow> Index \<Rightarrow> Index result" where
  "conflict_loop S l t idx =
     (if idx > firstIndex S l
      then (case log_term S l (idx - 1) of
              Ok t' \<Rightarrow> if t' \<noteq> t then Ok idx else conflict_loop S l t (idx - 1)
            | Err _ \<Rightarrow> Ok idx
            | Crash \<Rightarrow> Crash)
      else Ok idx)"
  by pat_completeness auto
termination
  by (relation "measure (\<lambda>(S, l, t, idx). unat idx)") (auto intro: unat_pred_less)

declare conflict_loop.simps [simp del]

definition conflictHint :: "'s Storage \<Rightarrow> 's raftLog \<Rightarrow> Index \<Rightarrow> (Index \<times> Term) result" where
  "conflictHint S l prevIdx =
     (if prevIdx > lastIndex S l then Ok (lastIndex S l + 1, 0)
      else (case log_term S l prevIdx of
              Ok t \<Rightarrow> rbind (conflict_loop S l t prevIdx) (\<lambda>idx. Ok (idx, t))
            | Err _ \<Rightarrow> Ok (firstIndex S l, 0)
            | Crash \<Rightarrow> Crash))"

definition appliedTo :: "Index \<Rightarrow> 's raftLog \<Rightarrow> (unit, 's raftLog) outcome" where
  "appliedTo i l =
     (if i = 0 \<or> i \<le> applied l then Done () l
      else if i > committed l then Panic l
      else Done () (l\<lparr>applied := i\<rparr>))"

definition hasEntriesToApply :: "'s raftLog \<Rightarrow> bool" where
  "hasEntriesToApply l \<longleftrightarrow> committed l > applied l"

definition entriesToApply :: "'s Storage \<Rightarrow> 's raftLog \<Rightarrow> int \<Rightarrow> LogEntry list result" where
  "entriesToApply S l maxEntries =
     (if \<not> hasEntriesToApply l then Ok []
      else
        (let lo = max (applied l + 1) (firstIndex S l);
             hi = committed l + 1;
             hi = (if maxEntries > 0 \<and> hi - lo > of_int maxEntries then lo + of_int maxEntries else hi)
         in entries S l lo hi))"

definition log_restore :: "'s Storage \<Rightarrow> Snapshot \<Rightarrow> 's raftLog \<Rightarrow> (unit, 's raftLog) outcome" where
  "log_restore S snap l =
     (if LastIncludedIndex snap \<le> committed l then Fail ErrSnapshotOutOfDate l
      else bind (embed (\<lambda>st. l\<lparr>storage := st\<rparr>) (SaveSnapshot S snap (storage l))) (\<lambda>_ l.
        Done () (l\<lparr>committed := LastIncludedIndex snap, applied := LastIncludedIndex snap\<rparr>)))"

definition log_compact :: "'s Storage \<Rightarrow> Index \<Rightarrow> 's raftLog \<Rightarrow> (unit, 's raftLog) outcome" where
  "log_compact S i l =
     (if i > applied l then Fail (ErrMsg ''cannot compact past applied index'') l
      else embed (\<lambda>st. l\<lparr>storage := st\<rparr>) (Compact S i (storage l)))"

section \<open>The log over a store that keeps its contract\<close>

text \<open>The chain of indexes every operation keeps, with what the store itself must satisfy.\<close>

definition store_ok :: "('s \<Rightarrow> astore) \<Rightarrow> ('s \<Rightarrow> bool) \<Rightarrow> 's \<Rightarrow> bool" where
  "store_ok ab I st \<longleftrightarrow> I st \<and> aBase (ab st) \<le> unat (LastIncludedIndex (aSnap (ab st))) \<and>
     unat (LastIncludedIndex (aSnap (ab st))) \<le> aLast (ab st)"

definition log_ok :: "('s \<Rightarrow> astore) \<Rightarrow> ('s \<Rightarrow> bool) \<Rightarrow> 's raftLog \<Rightarrow> bool" where
  "log_ok ab I l \<longleftrightarrow> store_ok ab I (storage l) \<and>
     LastIncludedIndex (aSnap (ab (storage l))) \<le> applied l \<and> applied l \<le> committed l \<and>
     unat (committed l) \<le> aLast (ab (storage l))"

text \<open>The entries of a well-formed append request that follows index \<open>p\<close>.\<close>

definition from_prev :: "Index \<Rightarrow> LogEntry list \<Rightarrow> bool" where
  "from_prev p es \<longleftrightarrow> checkContiguous es = Ok () \<and> (es \<noteq> [] \<longrightarrow> eIndex (hd es) = p + 1) \<and>
     unat p + length es + 1 < 2 ^ 64"

text \<open>
  What a follower's log becomes: the longest prefix of the new entries that the log already holds is
  left alone, and from the first one it does not hold the log is overwritten.
\<close>

definition holds :: "astore \<Rightarrow> LogEntry \<Rightarrow> bool" where
  "holds a e \<longleftrightarrow> a_term (unat (eIndex e)) a = Ok (eTerm e)"

definition a_overwrite :: "nat \<Rightarrow> LogEntry list \<Rightarrow> astore \<Rightarrow> astore" where
  "a_overwrite p es a =
     (let k = length (takeWhile (holds a) es)
      in if k = length es then a
         else a\<lparr>aEnts := take (p + k - aBase a) (aEnts a) @ drop k es\<rparr>)"

lemma from_prev_Nil: "from_prev p [] \<longleftrightarrow> unat p + 1 < 2 ^ 64"
  by (simp add: from_prev_def)

lemma from_prev_index:
  assumes "from_prev p es" and "i < length es"
  shows "unat (eIndex (es ! i)) = unat p + 1 + i"
proof -
  have p: "unat (p + 1) = unat p + 1" and h: "eIndex (hd es) = p + 1"
    using assms by (auto simp: from_prev_def unat_Suc_uint64)
  have "fits es" using assms h p by (auto simp: fits_def from_prev_def)
  then show ?thesis
    using contiguous_unat [of es i] assms h p by (simp add: from_prev_def)
qed

lemma checkContiguous_drop: "checkContiguous es = Ok () \<Longrightarrow> checkContiguous (drop k es) = Ok ()"
proof (induction k arbitrary: es)
  case (Suc k)
  show ?case
  proof (cases es)
    case (Cons a as)
    then have "checkContiguous as = Ok ()" using Suc.prems by (cases as) (auto split: if_splits)
    with Suc.IH Cons show ?thesis by simp
  qed simp
qed simp

lemma from_prev_fits: "from_prev p es \<Longrightarrow> k < length es \<Longrightarrow> fits (drop k es)"
  using from_prev_index [of p es k]
  by (auto simp: fits_def hd_drop_conv_nth from_prev_def)

lemma lastNewIndex:
  "from_prev p es \<Longrightarrow> unat (p + of_nat (length es)) = unat p + length es"
  by (simp add: from_prev_def unat_add_uint64 unat_of_nat_uint64)

lemma a_overwrite_sel [simp]:
  "aHard (a_overwrite p es a) = aHard a" "aSnap (a_overwrite p es a) = aSnap a"
  "aBase (a_overwrite p es a) = aBase a" "aBaseTerm (a_overwrite p es a) = aBaseTerm a"
  by (simp_all add: a_overwrite_def Let_def)

lemma a_overwrite_held: "\<forall>e \<in> set es. holds a e \<Longrightarrow> a_overwrite p es a = a"
  by (simp add: a_overwrite_def takeWhile_eq_all_conv [THEN iffD2])

lemma a_overwrite_last:
  assumes "aBase a \<le> p" and "p + length (takeWhile (holds a) es) \<le> aLast a"
  shows "p + length es \<le> aLast (a_overwrite p es a)" and "p \<le> aLast (a_overwrite p es a)"
  using assms length_takeWhile_le [of "holds a" es]
  by (auto simp: a_overwrite_def aLast_def Let_def)

lemma a_overwrite_below:
  assumes "aBase a \<le> p" and "n \<le> p" and "p + length (takeWhile (holds a) es) \<le> aLast a"
  shows "a_get n (a_overwrite p es a) = a_get n a"
  using assms length_takeWhile_le [of "holds a" es]
  by (auto simp: a_overwrite_def a_get_def aLast_def Let_def nth_append)

lemma a_overwrite_holds:
  assumes f: "from_prev p es" and b: "aBase a \<le> unat p"
    and l: "unat p + length (takeWhile (holds a) es) \<le> aLast a" and i: "i < length es"
  shows "holds (a_overwrite (unat p) es a) (es ! i)"
proof -
  let ?k = "length (takeWhile (holds a) es)"
  have e: "unat (eIndex (es ! i)) = unat p + 1 + i" by (rule from_prev_index [OF f i])
  show ?thesis
  proof (cases "i < ?k")
    case True
    have "holds a (es ! i)"
      using set_takeWhileD [OF nth_mem [OF True]] takeWhile_nth [OF True] by simp
    then show ?thesis
      using e b l True by (auto simp: holds_def a_term_def a_overwrite_def aLast_def Let_def nth_append
          split: if_splits)
  next
    case False
    then have "?k \<noteq> length es" using i by simp
    moreover have "length (take (unat p + ?k - aBase a) (aEnts a)) = unat p + ?k - aBase a"
      using b l by (simp add: aLast_def)
    ultimately show ?thesis
      using e b l False i
      by (auto simp: holds_def a_term_def a_overwrite_def aLast_def Let_def nth_append)
  qed
qed

text \<open>Nothing changes before the first entry the log does not hold, and from there on it is the new entries.\<close>

lemma a_overwrite_upto:
  assumes "aBase a \<le> p" and "n \<le> p + length (takeWhile (holds a) es)" and "p + length (takeWhile (holds a) es) \<le> aLast a"
  shows "a_get n (a_overwrite p es a) = a_get n a"
  using assms length_takeWhile_le [of "holds a" es]
  by (auto simp: a_overwrite_def a_get_def aLast_def Let_def nth_append)

lemma a_overwrite_from:
  assumes "from_prev p es" and "aBase a \<le> unat p" and "unat p + length (takeWhile (holds a) es) \<le> aLast a"
    and "length (takeWhile (holds a) es) \<le> i" and "i < length es"
  shows "a_get (unat (eIndex (es ! i))) (a_overwrite (unat p) es a) = Ok (es ! i)"
    and "aLast (a_overwrite (unat p) es a) = unat p + length es"
proof -
  let ?k = "length (takeWhile (holds a) es)"
  have l: "length (take (unat p + ?k - aBase a) (aEnts a)) = unat p + ?k - aBase a"
    using assms(2,3) by (simp add: aLast_def)
  with assms show "aLast (a_overwrite (unat p) es a) = unat p + length es"
    by (auto simp: a_overwrite_def aLast_def Let_def)
  with l assms from_prev_index [OF assms(1,5)] show "a_get (unat (eIndex (es ! i))) (a_overwrite (unat p) es a) = Ok (es ! i)"
    by (auto simp: a_overwrite_def a_get_def Let_def nth_append)
qed

context log_storage
begin

lemma log_term_eq: "inv (storage l) \<Longrightarrow> i \<noteq> 0 \<Longrightarrow> log_term S l i = a_term (unat i) (abs (storage l))"
  by (simp add: log_term_def term_at)

lemma log_term_not_Crash: "inv (storage l) \<Longrightarrow> log_term S l i \<noteq> Crash"
  by (cases "i = 0") (auto simp: log_term_eq a_term_def, simp add: log_term_def)

lemma lastIndex_eq: "inv (storage l) \<Longrightarrow> unat (lastIndex S l) = aLast (abs (storage l))"
  by (simp add: lastIndex_def last_index)

lemma firstIndex_eq: "inv (storage l) \<Longrightarrow> unat (firstIndex S l) = aBase (abs (storage l)) + 1"
  by (simp add: firstIndex_def first_index)

text \<open>The panic of \<open>lastTerm\<close> is unreachable.\<close>

lemma lastTerm_Ok: "inv (storage l) \<Longrightarrow> \<exists>t. lastTerm S l = Ok t"
proof (cases "lastIndex S l = 0")
  case False
  assume i: "inv (storage l)"
  then show ?thesis
    using False lastIndex_eq [OF i]
    by (auto simp: lastTerm_def log_term_eq a_term_def aLast_def)
qed (simp add: lastTerm_def log_term_def)

lemma matchTerm_eq:
  "inv (storage l) \<Longrightarrow> i \<noteq> 0 \<Longrightarrow> matchTerm S l i t = Ok (a_term (unat i) (abs (storage l)) = Ok t)"
  by (auto simp: matchTerm_def log_term_eq a_term_def)

lemma findConflict_eq:
  assumes "inv (storage l)" and "\<forall>e \<in> set es. eIndex e \<noteq> 0"
  shows "findConflict S l es =
    Ok (case dropWhile (holds (abs (storage l))) es of [] \<Rightarrow> 0 | e # _ \<Rightarrow> eIndex e)"
  using assms(2) by (induction es) (auto simp: matchTerm_eq [OF assms(1)] holds_def)

lemma commitTo_ok:
  assumes "inv (storage l)" and "unat i \<le> aLast (abs (storage l))"
  shows "commitTo S i l = Done () (l\<lparr>committed := max (committed l) i\<rparr>)"
  using assms by (auto simp: commitTo_def uint64_less_iff lastIndex_eq max_def)

lemma append_suffix:
  assumes i: "inv st" and p: "from_prev p es" and k: "k < length es"
    and b: "aBase (abs st) \<le> unat p" and l: "unat p + k \<le> aLast (abs st)"
  shows "\<exists>st'. AppendEntries S (drop k es) st = Done () st' \<and> inv st' \<and>
    abs st' = (abs st)\<lparr>aEnts := take (unat p + k - aBase (abs st)) (aEnts (abs st)) @ drop k es\<rparr>"
proof -
  have h: "unat (eIndex (hd (drop k es))) = unat p + 1 + k"
    using from_prev_index [OF p k] k by (simp add: hd_drop_conv_nth)
  have c: "checkContiguous (drop k es) = Ok ()"
    using p by (simp add: checkContiguous_drop from_prev_def)
  have "a_append (drop k es) (abs st) =
      Done () ((abs st)\<lparr>aEnts := take (unat p + k - aBase (abs st)) (aEnts (abs st)) @ drop k es\<rparr>)"
    using k b l by (simp add: a_append_def c h Let_def max_def)
  then show ?thesis
    using append [OF i from_prev_fits [OF p k]] append_inv [OF i from_prev_fits [OF p k]]
    by (cases "AppendEntries S (drop k es) st") auto
qed

text \<open>The consistency check at \<open>p\<close> places \<open>p\<close> inside the log.\<close>

lemma match_bounds:
  assumes "log_ok abs inv l" and "committed l \<le> p" and "matchTerm S l p t = Ok True"
  shows "aBase (abs (storage l)) \<le> unat p" and "unat p \<le> aLast (abs (storage l))"
proof -
  have "aBase (abs (storage l)) \<le> unat (committed l)"
    using assms(1) by (auto simp: log_ok_def store_ok_def uint64_le_iff)
  then show "aBase (abs (storage l)) \<le> unat p" using assms(2) by (simp add: uint64_le_iff)
  show "unat p \<le> aLast (abs (storage l))"
  proof (cases "p = 0")
    case False
    then show ?thesis
      using assms matchTerm_eq [of l p t] by (auto simp: log_ok_def store_ok_def a_term_def split: if_splits)
  qed simp
qed

lemma held_bound:
  assumes "from_prev p es" and "unat p \<le> aLast (abs st)"
  shows "unat p + length (takeWhile (holds (abs st)) es) \<le> aLast (abs st)"
proof (cases "length (takeWhile (holds (abs st)) es)")
  case (Suc k)
  then have k: "k < length (takeWhile (holds (abs st)) es)" by simp
  then have "holds (abs st) (es ! k)"
    using set_takeWhileD [OF nth_mem [OF k]] takeWhile_nth [OF k] by simp
  moreover have "k < length es"
    using k length_takeWhile_le [of "holds (abs st)" es] by linarith
  ultimately show ?thesis
    using from_prev_index [OF assms(1), of k] Suc by (auto simp: holds_def a_term_def split: if_splits)
qed (use assms in simp)

lemma maybeAppend_match:
  assumes ok: "log_ok abs inv l" and c: "committed l \<le> p" and m: "matchTerm S l p t = Ok True"
    and es: "from_prev p es"
  shows "\<exists>st'. maybeAppend S p t lc es l =
      Done (p + of_nat (length es), True)
        (l\<lparr>storage := st', committed := max (committed l) (min lc (p + of_nat (length es)))\<rparr>) \<and>
    inv st' \<and> abs st' = a_overwrite (unat p) es (abs (storage l))"
proof -
  let ?st = "storage l" and ?n = "p + of_nat (length es)"
  let ?k = "length (takeWhile (holds (abs ?st)) es)"
  have i: "inv ?st" using ok by (simp add: log_ok_def store_ok_def)
  note pb = match_bounds [OF ok c m]
  note kb = held_bound [OF es pb(2)]
  have nz: "\<forall>e \<in> set es. eIndex e \<noteq> 0"
    using from_prev_index [OF es] by (force simp: in_set_conv_nth)
  have n: "unat (min lc ?n) \<le> unat p + length es"
    using lastNewIndex [OF es] by (simp add: min_def uint64_le_iff)
  show ?thesis
  proof (cases "?k = length es")
    case True
    then have "findConflict S l es = Ok 0"
      using findConflict_eq [OF i nz] by (simp add: dropWhile_eq_drop)
    moreover have "commitTo S (min lc ?n) l = Done () (l\<lparr>committed := max (committed l) (min lc ?n)\<rparr>)"
      using True kb n by (intro commitTo_ok [OF i]) simp
    ultimately show ?thesis
      using m i True by (intro exI [of _ ?st]) (simp add: maybeAppend_def write_from_conflict_def a_overwrite_def Let_def)
  next
    case False
    then have k: "?k < length es" using length_takeWhile_le [of "holds (abs ?st)" es] by linarith
    have e: "unat (eIndex (es ! ?k)) = unat p + 1 + ?k" by (rule from_prev_index [OF es k])
    have f: "findConflict S l es = Ok (eIndex (es ! ?k))"
      using findConflict_eq [OF i nz] k
      by (simp add: dropWhile_eq_drop Cons_nth_drop_Suc [symmetric])
    have g: "eIndex (es ! ?k) \<noteq> 0" "\<not> eIndex (es ! ?k) \<le> committed l"
      using e c by (auto simp: uint64_le_iff)
    have d: "unat (eIndex (es ! ?k) - p - 1) = ?k"
      using e by (simp add: unat_sub_uint64 uint64_le_iff)
    obtain st' where st': "AppendEntries S (drop ?k es) ?st = Done () st'" "inv st'"
      "abs st' = a_overwrite (unat p) es (abs ?st)"
      using append_suffix [OF i es k pb(1) kb] False by (auto simp: a_overwrite_def Let_def)
    have "log_append S (drop ?k es) l = Done () (l\<lparr>storage := st'\<rparr>)"
      using st' g k by (simp add: log_append_def hd_drop_conv_nth)
    moreover have "unat p + length es \<le> aLast (abs st')"
      using st'(3) False k pb kb by (auto simp: a_overwrite_def aLast_def Let_def)
    then have "commitTo S (min lc ?n) (l\<lparr>storage := st'\<rparr>) =
        Done () (l\<lparr>storage := st', committed := max (committed l) (min lc ?n)\<rparr>)"
      using commitTo_ok [of "l\<lparr>storage := st'\<rparr>"] st'(2) n by simp
    ultimately show ?thesis
      using m f g d k st' by (intro exI [of _ st']) (simp add: maybeAppend_def write_from_conflict_def Let_def slice_from_def)
  qed
qed

lemma maybeAppend_mismatch:
  "matchTerm S l p t = Ok False \<Longrightarrow> maybeAppend S p t lc es l = Done (0, False) l"
  by (simp add: maybeAppend_def)

lemma maybeAppend_ok:
  assumes "log_ok abs inv l" and "committed l \<le> p" and "from_prev p es"
  shows "post (\<lambda>_. log_ok abs inv) (\<lambda>_ _. False) (\<lambda>_. False) (maybeAppend S p t lc es l)"
proof (cases "matchTerm S l p t")
  case (Ok b)
  show ?thesis
  proof (cases b)
    case True
    with Ok have m: "matchTerm S l p t = Ok True" by simp
    note pb = match_bounds [OF assms(1,2) m]
    note ow = a_overwrite_last [OF pb(1) held_bound [OF assms(3) pb(2)]]
    obtain st' where st': "maybeAppend S p t lc es l =
        Done (p + of_nat (length es), True)
        (l\<lparr>storage := st', committed := max (committed l) (min lc (p + of_nat (length es)))\<rparr>)"
      "inv st'" "abs st' = a_overwrite (unat p) es (abs (storage l))"
      using maybeAppend_match [OF assms(1,2) m assms(3)] by blast
    have "unat (max (committed l) (min lc (p + of_nat (length es)))) \<le> aLast (abs st')"
      using ow st'(3) assms(2) lastNewIndex [OF assms(3)] by (auto simp: max_def min_def uint64_le_iff)
    moreover have "applied l \<le> max (committed l) (min lc (p + of_nat (length es)))"
      using assms(1) by (simp add: log_ok_def le_max_iff_disj)
    ultimately show ?thesis
      using assms(1,2) ow st' by (auto simp: log_ok_def store_ok_def uint64_le_iff)
  qed (use Ok assms maybeAppend_mismatch in simp)
qed (use assms in \<open>auto simp: matchTerm_def log_ok_def store_ok_def log_term_not_Crash split: result.splits\<close>)

lemma newRaftLog_ok:
  assumes "store_ok abs inv st"
  obtains l where "newRaftLog S st = Ok l" "log_ok abs inv l" "storage l = st"
    "applied l = LastIncludedIndex (aSnap (abs st))"
proof -
  have i: "inv st" using assms by (simp add: store_ok_def)
  define l where "l = \<lparr>storage = st, committed = LastIncludedIndex (aSnap (abs st)),
    applied = LastIncludedIndex (aSnap (abs st))\<rparr>"
  define l' where "l' = (if hsCommit (aHard (abs st)) > committed l
    then l\<lparr>committed := min (hsCommit (aHard (abs st))) (LastIndex S st)\<rparr> else l)"
  have "newRaftLog S st = Ok l'"
    by (simp add: newRaftLog_def initial_state [OF i] l'_def l_def Let_def)
  moreover have "log_ok abs inv l'"
    using assms last_index [OF i]
    by (auto simp: log_ok_def l'_def l_def store_ok_def min_def uint64_le_iff uint64_less_iff)
  moreover have "storage l' = st" "applied l' = LastIncludedIndex (aSnap (abs st))"
    by (simp_all add: l'_def l_def)
  ultimately show thesis by (rule that)
qed

lemma appliedTo_ok: "log_ok abs inv l \<Longrightarrow> always (log_ok abs inv) (appliedTo i l)"
  by (auto simp: appliedTo_def log_ok_def)

lemma log_restore_ok:
  assumes "log_ok abs inv l" and "unat (LastIncludedIndex sn) + 1 < 2 ^ 64"
  shows "post (\<lambda>_ l'. log_ok abs inv l' \<and> committed l' = LastIncludedIndex sn \<and> applied l' = LastIncludedIndex sn)
    (\<lambda>e l'. e = ErrSnapshotOutOfDate \<and> l' = l) (\<lambda>_. False) (log_restore S sn l)"
proof (cases "LastIncludedIndex sn \<le> committed l")
  case False
  let ?a = "abs (storage l)"
  have i: "inv (storage l)" and b: "aBase ?a \<le> unat (LastIncludedIndex sn)"
    and n: "LastIncludedIndex (aSnap ?a) < LastIncludedIndex sn"
    using assms(1) False by (auto simp: log_ok_def store_ok_def uint64_le_iff uint64_less_iff)
  obtain a' where a': "a_save sn ?a = Done () a'" "aSnap a' = sn"
    "aBase a' \<le> unat (LastIncludedIndex sn)" "unat (LastIncludedIndex sn) \<le> aLast a'"
    using n b by (cases "a_term (unat (LastIncludedIndex sn)) ?a = Ok (LastIncludedTerm sn)")
      (auto simp: a_save_def not_le [symmetric] a_term_def aLast_def split: if_splits)
  then obtain st' where "SaveSnapshot S sn (storage l) = Done () st'" "abs st' = a'" "inv st'"
    using save [OF i b assms(2)] save_inv [OF i b assms(2)]
    by (cases "SaveSnapshot S sn (storage l)") auto
  with a' False show ?thesis by (simp add: log_restore_def log_ok_def store_ok_def)
qed (simp add: log_restore_def)

lemma log_compact_ok:
  assumes "log_ok abs inv l" and "i \<le> LastIncludedIndex (aSnap (abs (storage l)))"
  shows "post (\<lambda>_. log_ok abs inv) (\<lambda>_ _. False) (\<lambda>_. False) (log_compact S i l)"
proof -
  let ?a = "abs (storage l)"
  have v: "inv (storage l)" and le: "i \<le> applied l" "unat i \<le> aLast ?a"
    "unat i \<le> unat (LastIncludedIndex (aSnap ?a))"
    using assms by (auto simp: log_ok_def store_ok_def uint64_le_iff)
  obtain a' where a': "a_compact (unat i) ?a = Done () a'" "aSnap a' = aSnap ?a" "aLast a' = aLast ?a"
    "aBase a' \<le> unat (LastIncludedIndex (aSnap ?a))"
    using le assms(1) by (cases "unat i \<le> aBase ?a") (auto simp: a_compact_def aLast_def log_ok_def store_ok_def)
  then obtain st' where "Compact S i (storage l) = Done () st'" "abs st' = a'" "inv st'"
    using compact [OF v, of i] compact_inv [OF v, of i] by (cases "Compact S i (storage l)") auto
  with a' le assms(1) show ?thesis
    by (auto simp: log_compact_def log_ok_def store_ok_def not_less [symmetric])
qed

lemma conflict_loop_run:
  assumes "inv (storage l)" and "log_term S l idx = Ok t"
  shows "\<exists>ci. conflict_loop S l t idx = Ok ci \<and> ci \<le> idx \<and>
    (\<forall>j. ci \<le> j \<and> j \<le> idx \<longrightarrow> log_term S l j = Ok t) \<and>
    (firstIndex S l < ci \<longrightarrow> log_term S l (ci - 1) \<noteq> Ok t)"
  using assms(2)
proof (induction "unat idx" arbitrary: idx rule: less_induct)
  case less
  show ?case
  proof (cases "firstIndex S l < idx \<and> log_term S l (idx - 1) = Ok t")
    case True
    then have u: "unat (idx - 1) < unat idx" and z: "idx \<noteq> 0" by (auto intro: unat_pred_less)
    obtain ci where ci: "conflict_loop S l t (idx - 1) = Ok ci" "ci \<le> idx - 1"
      "\<forall>j. ci \<le> j \<and> j \<le> idx - 1 \<longrightarrow> log_term S l j = Ok t"
      "firstIndex S l < ci \<longrightarrow> log_term S l (ci - 1) \<noteq> Ok t"
      using less.hyps [OF u] True by blast
    have p: "unat (idx - 1) = unat idx - 1"
      using z by (subst unat_sub_uint64) (auto simp: uint64_le_iff unat_gt_0 Suc_le_eq)
    have j: "j \<le> idx - 1 \<or> j = idx" if "j \<le> idx" for j
      using that p by (auto simp: uint64_le_iff uint64_eq_iff)
    have "conflict_loop S l t idx = Ok ci"
      using True ci(1) by (subst conflict_loop.simps) simp
    moreover have "ci \<le> idx" using ci(2) p by (simp add: uint64_le_iff)
    ultimately show ?thesis
      using ci(3,4) j less.prems by blast
  next
    case False
    have "conflict_loop S l t idx = Ok idx"
      using False log_term_not_Crash [OF assms(1), of "idx - 1"]
      by (subst conflict_loop.simps) (auto split: result.splits)
    moreover have "log_term S l j = Ok t" if "idx \<le> j \<and> j \<le> idx" for j
      using that less.prems antisym [of idx j] by simp
    ultimately show ?thesis using False by auto
  qed
qed

lemma conflictHint_run:
  assumes "inv (storage l)" and "p \<le> lastIndex S l" and "log_term S l p = Ok t"
  shows "\<exists>ci. conflictHint S l p = Ok (ci, t) \<and> ci \<le> p \<and>
    (\<forall>j. ci \<le> j \<and> j \<le> p \<longrightarrow> log_term S l j = Ok t) \<and>
    (firstIndex S l < ci \<longrightarrow> log_term S l (ci - 1) \<noteq> Ok t)"
  using conflict_loop_run [OF assms(1,3)] assms(2,3) by (auto simp: conflictHint_def not_less [symmetric])

lemma entriesToApply_eq:
  assumes ok: "log_ok abs inv l" and "0 \<le> n" and "n < 2 ^ 63"
  shows "entriesToApply S l n =
    Ok (take (if n = 0 then unat (committed l) - unat (applied l)
              else min (nat n) (unat (committed l) - unat (applied l)))
         (drop (unat (applied l) - aBase (abs (storage l))) (aEnts (abs (storage l)))))"
proof -
  let ?a = "abs (storage l)" and ?c = "unat (committed l)" and ?p = "unat (applied l)"
  have i: "inv (storage l)" and b: "aBase ?a \<le> ?p" "?p \<le> ?c" "?c \<le> aLast ?a" "?c + 1 < 2 ^ 64"
    using ok abs_wf [of "storage l"] by (auto simp: log_ok_def store_ok_def uint64_le_iff awf_def)
  show ?thesis
  proof (cases "?p < ?c")
    case True
    let ?w = "of_int n :: uint64"
    have lo: "max (applied l + 1) (firstIndex S l) = applied l + 1"
      using b firstIndex_eq [OF i] by (intro max_absorb1) (simp add: uint64_le_iff unat_Suc_uint64)
    have "?w = of_nat (nat n)" using assms(2) by (simp add: of_nat_nat)
    then have w: "unat ?w = nat n" using assms(2,3) by (simp only: unat_of_nat_uint64) (subst unat_of_nat_uint64, auto)
    have u: "unat (applied l + 1) = ?p + 1" "unat (committed l + 1) = ?c + 1" "unat ?w = nat n"
      "unat (committed l + 1 - (applied l + 1)) = ?c - ?p"
      using b True w by (auto simp: unat_Suc_uint64 unat_sub_uint64 uint64_le_iff)
    define hi where "hi = (if n > 0 \<and> committed l + 1 - (applied l + 1) > ?w then applied l + 1 + ?w else committed l + 1)"
    have hi: "unat hi = ?p + 1 + (if n = 0 then ?c - ?p else min (nat n) (?c - ?p))"
      using u b True assms(2,3)
      by (auto simp: hi_def uint64_less_iff unat_add_uint64 min_def)
    have "entriesToApply S l n = entries S l (applied l + 1) hi"
      using True lo by (simp add: entriesToApply_def hasEntriesToApply_def uint64_less_iff hi_def Let_def)
    also have "\<dots> = a_entries (?p + 1) (unat hi) ?a"
    proof -
      have "unat (lastIndex S l + 1) = aLast ?a + 1"
        using abs_wf [OF i] lastIndex_eq [OF i] by (subst unat_Suc_uint64) (auto simp: awf_def)
      then show ?thesis
        using hi u b True assms(2) lastIndex_eq [OF i] Raft_Storage.log_storage.entries [OF log_storage_axioms i]
        by (auto simp: Raft_Log.entries_def uint64_le_iff uint64_less_iff a_entries_def)
    qed
    also have "\<dots> = Ok (take (unat hi - (?p + 1)) (drop (?p - aBase ?a) (aEnts ?a)))"
      using hi b True assms(2) by (auto simp: a_entries_def)
    finally show ?thesis using hi by simp
  qed (use b in \<open>simp add: entriesToApply_def hasEntriesToApply_def uint64_less_iff\<close>)
qed

end

end
