(* ===== verification/Raft_Node.thy ===== *)
theory Raft_Node
  imports Raft_Config Raft_Log
begin

text \<open>
  The state of one node and its role transitions, from \<open>raft/raft.go\<close>: \<open>Config\<close>, \<open>Progress\<close> and
  \<open>RawNode\<close>, the outbound queue, the write of the hard state, and \<open>reset\<close> with the \<open>become\<close> methods
  (\<open>becomeLeader\<close>, which replicates, is in theory \<open>Raft_Election\<close>).

  \<open>cfg.Storage\<close> and \<open>log.storage\<close> are the same object in the source; the store's state is kept once,
  in \<open>rLog\<close>. \<open>Rand\<close> is an interface of one method: \<open>rRand k n\<close> is what call number \<open>k\<close> of \<open>Intn(n)\<close>
  returns, and \<open>rDraws\<close> counts the calls. The maps \<open>votes\<close> and \<open>acks\<close> are only read by key;
  \<open>progress\<close>, which may be nil, is an optional map.
\<close>

record Config =
  cfgID :: NodeID
  ElectionTick :: int
  HeartbeatTick :: int
  cfgPreVote :: bool
  Bootstrap :: Configuration
  MaxApplyEntries :: int
  MaxEntriesPerMessage :: int
  SnapshotThreshold :: uint64
  SnapshotCatchUpEntries :: uint64
  SnapshotRetryHeartbeats :: int

type_synonym Rand = "nat \<Rightarrow> int \<Rightarrow> int"

text \<open>\<open>Storage\<close> and \<open>Rand\<close> are fields of \<open>Config\<close> in the source; nil is \<open>None\<close>.\<close>

definition validate :: "Config \<Rightarrow> 's option \<Rightarrow> Rand option \<Rightarrow> unit result" where
  "validate c st rnd =
     (if cfgID c = None_id then Err (ErrMsg ''node ID must not be zero'')
      else if st = None then Err (ErrMsg ''Storage is required'')
      else if rnd = None then Err (ErrMsg ''Rand is required for election timeout jitter'')
      else if ElectionTick c \<le> 0 then Err (ErrMsg ''ElectionTick must be positive'')
      else if HeartbeatTick c \<le> 0 then Err (ErrMsg ''HeartbeatTick must be positive'')
      else if HeartbeatTick c \<ge> ElectionTick c then Err (ErrMsg ''HeartbeatTick must be less than ElectionTick'')
      else Ok ())"

record Progress =
  Match :: Index
  Next :: Index
  PendingSnapshot :: Index
  SnapshotTicks :: int

definition zeroProgress :: Progress where
  "zeroProgress = \<lparr>Match = 0, Next = 0, PendingSnapshot = 0, SnapshotTicks = 0\<rparr>"

record ReadState =
  rsID :: uint64
  rsIndex :: Index

record readRequest =
  rrId :: uint64
  rrIndex :: Index
  rrAcks :: "NodeID \<Rightarrow> bool"

record 's RawNode =
  rId :: NodeID
  rCfg :: Config
  rTerm :: Term
  rVote :: NodeID
  rPersisted :: HardState
  rLog :: "'s raftLog"
  rState :: State
  rLead :: NodeID
  rConf :: Configuration
  rConfIndex :: Index
  rBootstrap :: Configuration
  rVotes :: "NodeID \<rightharpoonup> bool"
  rProgress :: "(NodeID \<rightharpoonup> Progress) option"
  rElectionElapsed :: int
  rHeartbeatElapsed :: int
  rRandomizedElectionTimeout :: int
  rPendingReads :: "readRequest list"
  rReadStates :: "ReadState list"
  rAppliedSnapshot :: "Snapshot option"
  rMsgs :: "Message list"
  rRand :: Rand
  rDraws :: nat

abbreviation rStore :: "'s RawNode \<Rightarrow> 's" where
  "rStore r \<equiv> storage (rLog r)"

abbreviation rCommitted :: "'s RawNode \<Rightarrow> Index" where
  "rCommitted r \<equiv> committed (rLog r)"

text \<open>Run a method of the log, or of its store, inside the node.\<close>

definition on_log :: "'s RawNode \<Rightarrow> ('a, 's raftLog) outcome \<Rightarrow> ('a, 's RawNode) outcome" where
  "on_log r = embed (\<lambda>l. r\<lparr>rLog := l\<rparr>)"

definition on_store :: "'s RawNode \<Rightarrow> ('a, 's) outcome \<Rightarrow> ('a, 's RawNode) outcome" where
  "on_store r = embed (\<lambda>st. r\<lparr>rLog := (rLog r)\<lparr>storage := st\<rparr>\<rparr>)"

text \<open>\<open>r.progress[i]\<close>, and a write through the pointer it holds.\<close>

definition progress_of :: "'s RawNode \<Rightarrow> NodeID \<Rightarrow> Progress option" where
  "progress_of r i = (case rProgress r of None \<Rightarrow> None | Some p \<Rightarrow> p i)"

definition set_progress :: "NodeID \<Rightarrow> Progress \<Rightarrow> 's RawNode \<Rightarrow> 's RawNode" where
  "set_progress i pr r = r\<lparr>rProgress := map_option (\<lambda>p. p(i \<mapsto> pr)) (rProgress r)\<rparr>"

definition RawNode_Progress :: "'s RawNode \<Rightarrow> NodeID \<Rightarrow> Progress \<times> bool" where
  "RawNode_Progress r i = (case progress_of r i of None \<Rightarrow> (zeroProgress, False) | Some p \<Rightarrow> (p, True))"

definition Messages :: "'s RawNode \<Rightarrow> Message list \<times> 's RawNode" where
  "Messages r = (rMsgs r, r\<lparr>rMsgs := []\<rparr>)"

definition send :: "Message \<Rightarrow> 's RawNode \<Rightarrow> 's RawNode" where
  "send m r =
     r\<lparr>rMsgs := rMsgs r @ [m\<lparr>mFrom := rId r, mTerm := (if mTerm m = 0 then rTerm r else mTerm m)\<rparr>]\<rparr>"

definition persistHardState :: "'s Storage \<Rightarrow> 's RawNode \<Rightarrow> (unit, 's RawNode) outcome" where
  "persistHardState S r =
     (let hs = \<lparr>hsTerm = rTerm r, hsVote = rVote r, hsCommit = rCommitted r\<rparr>
      in if hs = rPersisted r then Done () r
         else bind (on_store r (SetHardState S hs (rStore r))) (\<lambda>_ r. Done () (r\<lparr>rPersisted := hs\<rparr>)))"

definition dropPendingReads :: "'s RawNode \<Rightarrow> 's RawNode" where
  "dropPendingReads r = r\<lparr>rPendingReads := [], rReadStates := []\<rparr>"

definition resetRandomizedElectionTimeout :: "'s RawNode \<Rightarrow> 's RawNode" where
  "resetRandomizedElectionTimeout r =
     r\<lparr>rRandomizedElectionTimeout := wrap_int (ElectionTick (rCfg r) + rRand r (rDraws r) (ElectionTick (rCfg r))),
       rDraws := rDraws r + 1\<rparr>"

definition reset :: "Term \<Rightarrow> 's RawNode \<Rightarrow> 's RawNode" where
  "reset t r =
     (let r = (if rTerm r \<noteq> t then r\<lparr>rTerm := t, rVote := None_id\<rparr> else r);
          r = r\<lparr>rLead := None_id, rElectionElapsed := 0, rHeartbeatElapsed := 0\<rparr>;
          r = resetRandomizedElectionTimeout r;
          r = r\<lparr>rVotes := Map.empty, rProgress := None\<rparr>
      in dropPendingReads r)"

definition becomeFollower :: "Term \<Rightarrow> NodeID \<Rightarrow> 's RawNode \<Rightarrow> 's RawNode" where
  "becomeFollower t lead r = (reset t r)\<lparr>rState := Follower, rLead := lead\<rparr>"

definition becomePreCandidate :: "'s RawNode \<Rightarrow> (unit, 's RawNode) outcome" where
  "becomePreCandidate r =
     (if rState r = Leader then Panic r
      else Done () (resetRandomizedElectionTimeout
             (r\<lparr>rState := PreCandidate, rVotes := Map.empty, rLead := None_id\<rparr>)))"

definition becomeCandidate :: "'s RawNode \<Rightarrow> (unit, 's RawNode) outcome" where
  "becomeCandidate r =
     (if rState r = Leader then Panic r
      else Done () ((reset (rTerm r + 1) r)\<lparr>rState := Candidate, rVote := rId r\<rparr>))"

definition promotable :: "'s RawNode \<Rightarrow> bool" where
  "promotable r = IsVoter (rConf r) (rId r)"

section \<open>What the transitions change\<close>

lemma send_sel [simp]:
  "rId (send m r) = rId r" "rCfg (send m r) = rCfg r" "rTerm (send m r) = rTerm r"
  "rVote (send m r) = rVote r" "rPersisted (send m r) = rPersisted r" "rLog (send m r) = rLog r"
  "rState (send m r) = rState r" "rLead (send m r) = rLead r" "rConf (send m r) = rConf r"
  "rConfIndex (send m r) = rConfIndex r" "rBootstrap (send m r) = rBootstrap r"
  "rVotes (send m r) = rVotes r" "rProgress (send m r) = rProgress r"
  "rPendingReads (send m r) = rPendingReads r" "rReadStates (send m r) = rReadStates r"
  "rAppliedSnapshot (send m r) = rAppliedSnapshot r"
  by (simp_all add: send_def)

lemma set_progress_sel [simp]:
  "rId (set_progress i pr r) = rId r" "rCfg (set_progress i pr r) = rCfg r"
  "rTerm (set_progress i pr r) = rTerm r" "rVote (set_progress i pr r) = rVote r"
  "rPersisted (set_progress i pr r) = rPersisted r" "rLog (set_progress i pr r) = rLog r"
  "rState (set_progress i pr r) = rState r" "rLead (set_progress i pr r) = rLead r"
  "rConf (set_progress i pr r) = rConf r" "rConfIndex (set_progress i pr r) = rConfIndex r"
  "rBootstrap (set_progress i pr r) = rBootstrap r" "rVotes (set_progress i pr r) = rVotes r"
  "rPendingReads (set_progress i pr r) = rPendingReads r" "rReadStates (set_progress i pr r) = rReadStates r"
  "rAppliedSnapshot (set_progress i pr r) = rAppliedSnapshot r" "rMsgs (set_progress i pr r) = rMsgs r"
  by (simp_all add: set_progress_def)

lemma reset_sel [simp]:
  "rId (reset t r) = rId r" "rCfg (reset t r) = rCfg r" "rTerm (reset t r) = t"
  "rVote (reset t r) = (if rTerm r = t then rVote r else None_id)"
  "rPersisted (reset t r) = rPersisted r" "rLog (reset t r) = rLog r" "rState (reset t r) = rState r"
  "rLead (reset t r) = None_id" "rConf (reset t r) = rConf r" "rConfIndex (reset t r) = rConfIndex r"
  "rBootstrap (reset t r) = rBootstrap r" "rVotes (reset t r) = Map.empty"
  "rProgress (reset t r) = None" "rElectionElapsed (reset t r) = 0"
  "rPendingReads (reset t r) = []" "rReadStates (reset t r) = []"
  "rAppliedSnapshot (reset t r) = rAppliedSnapshot r" "rMsgs (reset t r) = rMsgs r"
  by (simp_all add: reset_def Let_def dropPendingReads_def resetRandomizedElectionTimeout_def)

lemma becomeFollower_sel [simp]:
  "rId (becomeFollower t l r) = rId r" "rCfg (becomeFollower t l r) = rCfg r"
  "rTerm (becomeFollower t l r) = t"
  "rVote (becomeFollower t l r) = (if rTerm r = t then rVote r else None_id)"
  "rPersisted (becomeFollower t l r) = rPersisted r" "rLog (becomeFollower t l r) = rLog r"
  "rState (becomeFollower t l r) = Follower" "rLead (becomeFollower t l r) = l"
  "rConf (becomeFollower t l r) = rConf r" "rConfIndex (becomeFollower t l r) = rConfIndex r"
  "rBootstrap (becomeFollower t l r) = rBootstrap r" "rVotes (becomeFollower t l r) = Map.empty"
  "rProgress (becomeFollower t l r) = None" "rPendingReads (becomeFollower t l r) = []"
  "rReadStates (becomeFollower t l r) = []"
  "rAppliedSnapshot (becomeFollower t l r) = rAppliedSnapshot r"
  "rMsgs (becomeFollower t l r) = rMsgs r"
  by (simp_all add: becomeFollower_def)

lemma post_on_log [simp]:
  "post Q E P (on_log r m) =
     post (\<lambda>a l. Q a (r\<lparr>rLog := l\<rparr>)) (\<lambda>e l. E e (r\<lparr>rLog := l\<rparr>)) (\<lambda>l. P (r\<lparr>rLog := l\<rparr>)) m"
  by (simp add: on_log_def post_embed_iff)

lemma post_on_store [simp]:
  "post Q E P (on_store r m) =
     post (\<lambda>a st. Q a (r\<lparr>rLog := (rLog r)\<lparr>storage := st\<rparr>\<rparr>))
       (\<lambda>e st. E e (r\<lparr>rLog := (rLog r)\<lparr>storage := st\<rparr>\<rparr>))
       (\<lambda>st. P (r\<lparr>rLog := (rLog r)\<lparr>storage := st\<rparr>\<rparr>)) m"
  by (simp add: on_store_def post_embed_iff)

end
