(* ===== verification/Raft_Replication.thy ===== *)
theory Raft_Replication
  imports Raft_Node
begin

text \<open>
  Replication: \<open>raft/replication.go\<close>, \<open>raft/snapshot.go\<close>, \<open>raft/confchange.go\<close> and \<open>raft/read.go\<close>.

  \<open>propose\<close>, \<open>maybeAdvanceCommit\<close> and \<open>maybeLeaveJoint\<close> call each other in a circle. The first two take
  the third as an argument here, and \<open>leaveJoint\<close> closes the circle with a bound on the depth of
  calls; running out of it is a panic, as an exhausted stack is. Two levels are always enough: the
  second call finds a configuration that is no longer joint (\<open>leaveJoint_depth\<close> in theory
  \<open>Raft_Safety\<close>).
\<close>

section \<open>Sending\<close>

definition defaultSnapshotRetryHeartbeats :: int where
  "defaultSnapshotRetryHeartbeats = 10"

definition defaultMaxEntriesPerMessage :: int where
  "defaultMaxEntriesPerMessage = 64"

definition maxEntriesPerMessage :: "'s RawNode \<Rightarrow> int" where
  "maxEntriesPerMessage r =
     (if MaxEntriesPerMessage (rCfg r) > 0 then MaxEntriesPerMessage (rCfg r) else defaultMaxEntriesPerMessage)"

definition sendSnapshot :: "'s Storage \<Rightarrow> NodeID \<Rightarrow> 's RawNode \<Rightarrow> (unit, 's RawNode) outcome" where
  "sendSnapshot S i r =
     (case progress_of r i of
        None \<Rightarrow> Done () r
      | Some pr \<Rightarrow>
          if PendingSnapshot pr \<noteq> 0 then Done () r
          else (case LoadSnapshot S (rStore r) of
                  Crash \<Rightarrow> Panic r
                | Err _ \<Rightarrow> Done () r
                | Ok snap \<Rightarrow>
                    if Snapshot_IsEmpty snap then Done () r
                    else Done ()
                      (send (zeroMessage\<lparr>mType := MsgSnapshotReq, mTo := i, mSnapshot := Some snap\<rparr>)
                        (set_progress i (pr\<lparr>PendingSnapshot := LastIncludedIndex snap, SnapshotTicks := 0\<rparr>) r))))"

definition sendAppendWithRead :: "'s Storage \<Rightarrow> NodeID \<Rightarrow> uint64 \<Rightarrow> 's RawNode \<Rightarrow> (unit, 's RawNode) outcome" where
  "sendAppendWithRead S i readID r =
     (case progress_of r i of
        None \<Rightarrow> Done () r
      | Some pr \<Rightarrow>
          if PendingSnapshot pr \<noteq> 0 then Done () r
          else
            (let prevIndex = Next pr - 1; final = lastIndex S (rLog r)
             in case log_term S (rLog r) prevIndex of
                  Crash \<Rightarrow> Panic r
                | Err _ \<Rightarrow> sendSnapshot S i r
                | Ok prevTerm \<Rightarrow>
                    (case (if Next pr \<le> final
                           then entries S (rLog r) (Next pr)
                                  (min (final + 1) (Next pr + of_int (maxEntriesPerMessage r)))
                           else Ok []) of
                       Crash \<Rightarrow> Panic r
                     | Err _ \<Rightarrow> Done () r
                     | Ok es \<Rightarrow> Done ()
                         (send (zeroMessage\<lparr>mType := MsgAppendReq, mTo := i, mPrevLogIndex := prevIndex,
                                 mPrevLogTerm := prevTerm, mEntries := es,
                                 mLeaderCommit := rCommitted r, mReadID := readID\<rparr>) r))))"

definition sendAppend :: "'s Storage \<Rightarrow> NodeID \<Rightarrow> 's RawNode \<Rightarrow> (unit, 's RawNode) outcome" where
  "sendAppend S i r = sendAppendWithRead S i 0 r"

definition broadcastAppend :: "'s Storage \<Rightarrow> 's RawNode \<Rightarrow> (unit, 's RawNode) outcome" where
  "broadcastAppend S r = for_each (sendAppend S) (Peers (rConf r) (rId r)) r"

definition expire_pending :: "int \<Rightarrow> NodeID \<Rightarrow> 's RawNode \<Rightarrow> 's RawNode" where
  "expire_pending retryAfter i r =
     (case progress_of r i of
        None \<Rightarrow> r
      | Some pr \<Rightarrow>
          if PendingSnapshot pr = 0 then r
          else (let pr = pr\<lparr>SnapshotTicks := SnapshotTicks pr + 1\<rparr>
                in set_progress i
                     (if SnapshotTicks pr \<ge> retryAfter
                      then pr\<lparr>PendingSnapshot := 0, SnapshotTicks := 0\<rparr> else pr) r))"

definition expirePendingSnapshots :: "'s RawNode \<Rightarrow> 's RawNode" where
  "expirePendingSnapshots r =
     (let retryAfter = (if SnapshotRetryHeartbeats (rCfg r) \<le> 0 then defaultSnapshotRetryHeartbeats
                        else SnapshotRetryHeartbeats (rCfg r))
      in fold (expire_pending retryAfter) (Members (rConf r)) r)"

section \<open>The configuration in force\<close>

text \<open>
  The two loops of \<open>refreshProgress\<close> as one map: members keep their entry or get a new one, and an
  entry of a non-member survives only if it is the leader's own.
\<close>

definition refreshProgress :: "'s Storage \<Rightarrow> 's RawNode \<Rightarrow> 's RawNode" where
  "refreshProgress S r =
     (case rProgress r of
        None \<Rightarrow> r
      | Some p \<Rightarrow>
          (let members = Members (rConf r);
               final = lastIndex S (rLog r);
               fresh = (\<lambda>i. zeroProgress\<lparr>Next := final + 1, Match := (if i = rId r then final else 0)\<rparr>)
           in r\<lparr>rProgress := Some (\<lambda>i.
                  if i \<in> set members then (case p i of Some pr \<Rightarrow> Some pr | None \<Rightarrow> Some (fresh i))
                  else if i = rId r \<and> rState r = Leader then p i
                  else None)\<rparr>))"

definition setConfiguration :: "'s Storage \<Rightarrow> Configuration \<Rightarrow> Index \<Rightarrow> 's RawNode \<Rightarrow> 's RawNode" where
  "setConfiguration S conf i r =
     (if Configuration_Equal (rConf r) conf \<and> rConfIndex r = i then r
      else (let r = r\<lparr>rConf := conf, rConfIndex := i\<rparr>
            in if rState r = Leader then refreshProgress S r else r))"

text \<open>The loop of \<open>refreshConfiguration\<close>: the last configuration change the log holds, if any.\<close>

function find_conf :: "'s Storage \<Rightarrow> 's raftLog \<Rightarrow> Index \<Rightarrow> (ConfChange \<times> Index) option result" where
  "find_conf S l i =
     (if i \<ge> firstIndex S l \<and> i > 0
      then (case GetEntry S i (storage l) of
              Crash \<Rightarrow> Crash
            | Err _ \<Rightarrow> Ok None
            | Ok e \<Rightarrow> if eType e \<noteq> EntryConfChange then find_conf S l (i - 1)
                     else rbind (DecodeConfChange (eCommand e)) (\<lambda>cc. Ok (Some (cc, i))))
      else Ok None)"
  by pat_completeness auto
termination
  by (relation "measure (\<lambda>(S, l, i). unat i)") (auto intro: unat_pred_less)

declare find_conf.simps [simp del]

definition refreshConfiguration :: "'s Storage \<Rightarrow> 's RawNode \<Rightarrow> (unit, 's RawNode) outcome" where
  "refreshConfiguration S r =
     bind (lift (find_conf S (rLog r) (lastIndex S (rLog r))) r) (\<lambda>found r.
       case found of
         Some (cc, i) \<Rightarrow> Done () (setConfiguration S (ccConfig cc) i r)
       | None \<Rightarrow>
           (case LoadSnapshot S (rStore r) of
              Crash \<Rightarrow> Panic r
            | Err _ \<Rightarrow> Done () (setConfiguration S (rBootstrap r) 0 r)
            | Ok snap \<Rightarrow>
                if \<not> Configuration_IsEmpty (snapConfig snap)
                then Done () (setConfiguration S (snapConfig snap) (LastIncludedIndex snap) r)
                else Done () (setConfiguration S (rBootstrap r) 0 r)))"

definition refreshConfigurationIfNeeded ::
  "'s Storage \<Rightarrow> LogEntry list \<Rightarrow> 's RawNode \<Rightarrow> (unit, 's RawNode) outcome" where
  "refreshConfigurationIfNeeded S es r =
     (let changed = rConfIndex r > lastIndex S (rLog r) \<or>
        list_ex (\<lambda>e. eType e = EntryConfChange \<or> rConfIndex r > 0 \<and> eIndex e \<le> rConfIndex r) es
      in if \<not> changed then Done () r else refreshConfiguration S r)"

definition stepDownIfRemoved :: "'s RawNode \<Rightarrow> 's RawNode" where
  "stepDownIfRemoved r =
     (if rState r \<noteq> Leader \<or> IsJoint (rConf r) \<or> IsVoter (rConf r) (rId r) then r
      else if rConfIndex r > rCommitted r then r
      else becomeFollower (rTerm r) None_id r)"

section \<open>Proposing and committing\<close>

definition matched :: "'s RawNode \<Rightarrow> NodeID \<Rightarrow> Index" where
  "matched r i = (case progress_of r i of Some p \<Rightarrow> Match p | None \<Rightarrow> 0)"

definition maybeAdvanceCommit_with ::
  "('s RawNode \<Rightarrow> (unit, 's RawNode) outcome) \<Rightarrow> 's Storage \<Rightarrow> 's RawNode \<Rightarrow> (bool, 's RawNode) outcome" where
  "maybeAdvanceCommit_with leave S r =
     (if rState r \<noteq> Leader then Done False r
      else
        (let candidate = CommittedIndex (rConf r) (matched r)
         in if candidate \<le> rCommitted r then Done False r
            else bind (lift (log_term S (rLog r) candidate) r) (\<lambda>t r.
              if t \<noteq> rTerm r then Done False r
              else
                bind (on_log r (commitTo S candidate (rLog r))) (\<lambda>_ r.
                bind (persistHardState S r) (\<lambda>_ r.
                bind (leave r) (\<lambda>_ r.
                Done True (stepDownIfRemoved r)))))))"

text \<open>The write \<open>self.Match, self.Next = index, index + 1\<close> to the node's own entry, if it has one.\<close>

definition record_self :: "Index \<Rightarrow> 's RawNode \<Rightarrow> 's RawNode" where
  "record_self i r =
     (case progress_of r (rId r) of
        Some p \<Rightarrow> set_progress (rId r) (p\<lparr>Match := i, Next := i + 1\<rparr>) r
      | None \<Rightarrow> r)"

definition propose_with ::
  "('s RawNode \<Rightarrow> (unit, 's RawNode) outcome) \<Rightarrow> 's Storage \<Rightarrow> EntryType \<Rightarrow> bytes \<Rightarrow> 's RawNode \<Rightarrow>
     (Index, 's RawNode) outcome" where
  "propose_with leave S ty cmd r =
     (if rState r \<noteq> Leader then Fail ErrNotLeader r
      else
        (let e = \<lparr>eTerm = rTerm r, eIndex = lastIndex S (rLog r) + 1, eType = ty, eCommand = cmd\<rparr>
         in bind (on_log r (log_append S [e] (rLog r))) (\<lambda>_ r.
            bind (if ty = EntryConfChange then refreshConfiguration S r else Done () r) (\<lambda>_ r.
            bind (maybeAdvanceCommit_with leave S (record_self (eIndex e) r)) (\<lambda>_ r.
            bind (broadcastAppend S r) (\<lambda>_ r.
            Done (eIndex e) r))))))"

definition maybeLeaveJoint_with ::
  "(EntryType \<Rightarrow> bytes \<Rightarrow> 's RawNode \<Rightarrow> (Index, 's RawNode) outcome) \<Rightarrow> 's RawNode \<Rightarrow>
     (unit, 's RawNode) outcome" where
  "maybeLeaveJoint_with prop r =
     (if rState r \<noteq> Leader \<or> \<not> IsJoint (rConf r) then Done () r
      else if rConfIndex r > rCommitted r then Done () r
      else bind (lift (LeaveJoint (rConf r)) r) (\<lambda>cc r.
        case prop EntryConfChange (Encode cc) r of
          Done _ r \<Rightarrow> Done () r
        | Fail err r \<Rightarrow> if err = ErrNotLeader then Done () r else Fail err r
        | Panic r \<Rightarrow> Panic r))"

primrec leaveJoint :: "nat \<Rightarrow> 's Storage \<Rightarrow> 's RawNode \<Rightarrow> (unit, 's RawNode) outcome" where
  "leaveJoint 0 S r = Panic r"
| "leaveJoint (Suc n) S r = maybeLeaveJoint_with (propose_with (leaveJoint n S) S) r"

definition maybeLeaveJoint :: "'s Storage \<Rightarrow> 's RawNode \<Rightarrow> (unit, 's RawNode) outcome" where
  "maybeLeaveJoint = leaveJoint 2"

definition maybeAdvanceCommit :: "'s Storage \<Rightarrow> 's RawNode \<Rightarrow> (bool, 's RawNode) outcome" where
  "maybeAdvanceCommit S = maybeAdvanceCommit_with (maybeLeaveJoint S) S"

definition propose :: "'s Storage \<Rightarrow> EntryType \<Rightarrow> bytes \<Rightarrow> 's RawNode \<Rightarrow> (Index, 's RawNode) outcome" where
  "propose S = propose_with (maybeLeaveJoint S) S"

definition Propose :: "'s Storage \<Rightarrow> bytes \<Rightarrow> 's RawNode \<Rightarrow> (Index, 's RawNode) outcome" where
  "Propose S cmd r = propose S EntryNormal cmd r"

section \<open>Reads\<close>

definition committedInCurrentTerm :: "'s Storage \<Rightarrow> 's RawNode \<Rightarrow> bool result" where
  "committedInCurrentTerm S r =
     (if rCommitted r = 0 then Ok False
      else (case log_term S (rLog r) (rCommitted r) of
              Ok t \<Rightarrow> Ok (t = rTerm r) | Err _ \<Rightarrow> Ok False | Crash \<Rightarrow> Crash))"

definition ReadIndex :: "'s Storage \<Rightarrow> uint64 \<Rightarrow> 's RawNode \<Rightarrow> (unit, 's RawNode) outcome" where
  "ReadIndex S i r =
     (if rState r \<noteq> Leader then Fail ErrNotLeader r
      else bind (lift (committedInCurrentTerm S r) r) (\<lambda>settled r.
        if \<not> settled then Fail ErrReadIndexUnavailable r
        else
          (let req = \<lparr>rrId = i, rrIndex = rCommitted r, rrAcks = (\<lambda>n. n = rId r)\<rparr>
           in if HasQuorum (rConf r) (rrAcks req)
              then Done () (r\<lparr>rReadStates := rReadStates r @ [\<lparr>rsID = rrId req, rsIndex = rrIndex req\<rparr>]\<rparr>)
              else for_each (\<lambda>peer. sendAppendWithRead S peer i) (Peers (rConf r) (rId r))
                     (r\<lparr>rPendingReads := rPendingReads r @ [req]\<rparr>))))"

text \<open>
  The loop of \<open>ackRead\<close> over the pending reads: the first request with this id takes the
  acknowledgement, and leaves the list if that completes its quorum.
\<close>

fun ack_loop :: "Configuration \<Rightarrow> NodeID \<Rightarrow> uint64 \<Rightarrow> readRequest list \<Rightarrow> readRequest list \<times> ReadState list" where
  "ack_loop c from readID [] = ([], [])"
| "ack_loop c from readID (req # reqs) =
     (if rrId req \<noteq> readID
      then (case ack_loop c from readID reqs of (left, confirmed) \<Rightarrow> (req # left, confirmed))
      else
        (let req = req\<lparr>rrAcks := (rrAcks req)(from := True)\<rparr>
         in if HasQuorum c (rrAcks req) then (reqs, [\<lparr>rsID = rrId req, rsIndex = rrIndex req\<rparr>])
            else (req # reqs, [])))"

definition ackRead :: "NodeID \<Rightarrow> uint64 \<Rightarrow> 's RawNode \<Rightarrow> 's RawNode" where
  "ackRead from readID r =
     (case ack_loop (rConf r) from readID (rPendingReads r) of
        (left, confirmed) \<Rightarrow> r\<lparr>rPendingReads := left, rReadStates := rReadStates r @ confirmed\<rparr>)"

definition ReadStates :: "'s RawNode \<Rightarrow> ReadState list \<times> 's RawNode" where
  "ReadStates r = (rReadStates r, r\<lparr>rReadStates := []\<rparr>)"

section \<open>Append requests and responses\<close>

text \<open>The first lines of both handlers of a leader's requests.\<close>

definition hear_leader :: "Message \<Rightarrow> 's RawNode \<Rightarrow> 's RawNode" where
  "hear_leader m r =
     (let r = r\<lparr>rElectionElapsed := 0\<rparr>;
          r = (if rState r \<noteq> Follower then becomeFollower (mTerm m) (mFrom m) r else r)
      in r\<lparr>rLead := mFrom m\<rparr>)"

text \<open>What \<open>handleAppendRequest\<close> does once \<open>maybeAppend\<close> has answered.\<close>

definition answer_append ::
  "'s Storage \<Rightarrow> Message \<Rightarrow> Index \<times> bool \<Rightarrow> 's RawNode \<Rightarrow> (unit, 's RawNode) outcome" where
  "answer_append S m res r =
     (if \<not> snd res
      then bind (lift (conflictHint S (rLog r) (mPrevLogIndex m)) r) (\<lambda>(ci, ct) r.
        Done () (send (zeroMessage\<lparr>mType := MsgAppendResp, mTo := mFrom m, mSuccess := False,
          mConflictIndex := ci, mConflictTerm := ct, mReadID := mReadID m\<rparr>) r))
      else
        bind (refreshConfigurationIfNeeded S (mEntries m) r) (\<lambda>_ r.
        bind (persistHardState S r) (\<lambda>_ r.
        Done () (send (zeroMessage\<lparr>mType := MsgAppendResp, mTo := mFrom m, mSuccess := True,
          mMatchIndex := fst res, mReadID := mReadID m\<rparr>) r))))"

definition handleAppendRequest :: "'s Storage \<Rightarrow> Message \<Rightarrow> 's RawNode \<Rightarrow> (unit, 's RawNode) outcome" where
  "handleAppendRequest S m r0 =
     (let r = hear_leader m r0
      in if mPrevLogIndex m < rCommitted r
         then Done () (send (zeroMessage\<lparr>mType := MsgAppendResp, mTo := mFrom m, mSuccess := True,
                mMatchIndex := rCommitted r, mReadID := mReadID m\<rparr>) r)
         else
           bind (on_log r (maybeAppend S (mPrevLogIndex m) (mPrevLogTerm m) (mLeaderCommit m) (mEntries m) (rLog r)))
             (answer_append S m))"

text \<open>The loop of \<open>lastIndexOfTerm\<close>, from the end of the log towards its first index.\<close>

function last_of_term :: "'s Storage \<Rightarrow> 's raftLog \<Rightarrow> Term \<Rightarrow> Index \<Rightarrow> Index option result" where
  "last_of_term S l t i =
     (if i \<ge> firstIndex S l \<and> i > 0
      then (case log_term S l i of
              Crash \<Rightarrow> Crash
            | Err _ \<Rightarrow> Ok None
            | Ok t' \<Rightarrow> if t' = t then Ok (Some i)
                      else if t' < t then Ok None
                      else last_of_term S l t (i - 1))
      else Ok None)"
  by pat_completeness auto
termination
  by (relation "measure (\<lambda>(S, l, t, i). unat i)") (auto intro: unat_pred_less)

declare last_of_term.simps [simp del]

definition lastIndexOfTerm :: "'s Storage \<Rightarrow> 's raftLog \<Rightarrow> Term \<Rightarrow> Index option result" where
  "lastIndexOfTerm S l t = last_of_term S l t (lastIndex S l)"

definition nextAfterRejection :: "'s Storage \<Rightarrow> 's raftLog \<Rightarrow> Progress \<Rightarrow> Message \<Rightarrow> Index result" where
  "nextAfterRejection S l pr m =
     (if mConflictTerm m > 0
      then rbind (lastIndexOfTerm S l (mConflictTerm m)) (\<lambda>found.
             Ok (case found of Some idx \<Rightarrow> idx + 1 | None \<Rightarrow> mConflictIndex m))
      else if mConflictIndex m > 0 then Ok (mConflictIndex m)
      else Ok (Next pr - 1))"

text \<open>
  The rest of a successful response, shared by appends and snapshots: take the follower's word for
  its match index, try to commit, and tell everyone or keep feeding this follower.
\<close>

definition advance_match :: "'s Storage \<Rightarrow> Progress \<Rightarrow> Message \<Rightarrow> 's RawNode \<Rightarrow> (unit, 's RawNode) outcome" where
  "advance_match S pr m r =
     (let feed = (\<lambda>pr r. if Next pr \<le> lastIndex S (rLog r) then sendAppend S (mFrom m) r else Done () r)
      in if mMatchIndex m > Match pr
         then
           (let pr = pr\<lparr>Match := mMatchIndex m, Next := mMatchIndex m + 1\<rparr>
            in bind (maybeAdvanceCommit S (set_progress (mFrom m) pr r)) (\<lambda>advanced r.
                 if advanced then broadcastAppend S r else feed pr r))
         else feed pr r)"

definition handleAppendResponse :: "'s Storage \<Rightarrow> Message \<Rightarrow> 's RawNode \<Rightarrow> (unit, 's RawNode) outcome" where
  "handleAppendResponse S m r =
     (if rState r \<noteq> Leader then Fail ErrIgnoredMessage r
      else
        (case progress_of r (mFrom m) of
           None \<Rightarrow> Fail ErrIgnoredMessage r
         | Some pr \<Rightarrow>
             (let r = (if mReadID m \<noteq> 0 then ackRead (mFrom m) (mReadID m) r else r)
              in if mSuccess m then advance_match S pr m r
                 else
                   bind (lift (nextAfterRejection S (rLog r) pr m) r) (\<lambda>next r.
                     (let next = (if next < 1 then 1 else next);
                          next = (if next \<le> Match pr then Match pr + 1 else next)
                      in if next < Next pr
                         then sendAppend S (mFrom m) (set_progress (mFrom m) (pr\<lparr>Next := next\<rparr>) r)
                         else Done () r)))))"

definition CommittedEntries :: "'s Storage \<Rightarrow> 's RawNode \<Rightarrow> LogEntry list result" where
  "CommittedEntries S r = entriesToApply S (rLog r) (MaxApplyEntries (rCfg r))"

definition HasCommittedEntries :: "'s RawNode \<Rightarrow> bool" where
  "HasCommittedEntries r = hasEntriesToApply (rLog r)"

definition ApplyTo :: "Index \<Rightarrow> 's RawNode \<Rightarrow> (unit, 's RawNode) outcome" where
  "ApplyTo i r = on_log r (appliedTo i (rLog r))"

section \<open>Membership changes\<close>

definition ProposeConfChange :: "'s Storage \<Rightarrow> Configuration \<Rightarrow> 's RawNode \<Rightarrow> (Index, 's RawNode) outcome" where
  "ProposeConfChange S target r =
     (if rState r \<noteq> Leader then Fail ErrNotLeader r
      else if IsJoint (rConf r) then Fail ErrConfChangeInProgress r
      else if rConfIndex r > rCommitted r then Fail ErrConfChangeInProgress r
      else bind (lift (committedInCurrentTerm S r) r) (\<lambda>settled r.
        if \<not> settled then Fail ErrReadIndexUnavailable r
        else (case EnterJoint (rConf r) target of
                Err e \<Rightarrow> Fail (ErrConfChangeInvalid e) r
              | Crash \<Rightarrow> Panic r
              | Ok cc \<Rightarrow> propose S EntryConfChange (Encode cc) r)))"

section \<open>Snapshots\<close>

definition ShouldSnapshot :: "'s Storage \<Rightarrow> 's RawNode \<Rightarrow> bool" where
  "ShouldSnapshot S r =
     (let done = applied (rLog r); first = firstIndex S (rLog r)
      in if SnapshotThreshold (rCfg r) = 0 \<or> done = 0 then False
         else if done < first then False
         else done - first + 1 \<ge> SnapshotThreshold (rCfg r))"

definition CreateSnapshot :: "'s Storage \<Rightarrow> bytes \<Rightarrow> 's RawNode \<Rightarrow> (Snapshot, 's RawNode) outcome" where
  "CreateSnapshot S data r =
     (let done = applied (rLog r)
      in if done = 0 then Fail ErrNothingToSnapshot r
         else
           bind (lift (log_term S (rLog r) done) r) (\<lambda>t r.
             (let snap = \<lparr>LastIncludedIndex = done, LastIncludedTerm = t, snapConfig = rConf r, snapData = data\<rparr>
              in bind (on_store r (SaveSnapshot S snap (rStore r))) (\<lambda>_ r.
                 (let keep = SnapshotCatchUpEntries (rCfg r);
                      compactTo = (if keep > 0 then done - keep else done)
                  in if keep > 0 \<and> done \<le> keep then Done snap r
                     else if compactTo \<le> firstIndex S (rLog r) - 1 then Done snap r
                     else bind (on_log r (log_compact S compactTo (rLog r))) (\<lambda>_ r. Done snap r))))))"

definition SnapshotToApply :: "'s RawNode \<Rightarrow> Snapshot option \<times> 's RawNode" where
  "SnapshotToApply r = (rAppliedSnapshot r, r\<lparr>rAppliedSnapshot := None\<rparr>)"

definition snapshot_resp :: "Message \<Rightarrow> Index \<Rightarrow> Message" where
  "snapshot_resp m i = zeroMessage\<lparr>mType := MsgSnapshotResp, mTo := mFrom m, mSuccess := True, mMatchIndex := i\<rparr>"

text \<open>What \<open>handleSnapshotRequest\<close> does once the log has taken the snapshot.\<close>

definition install_snapshot :: "'s Storage \<Rightarrow> Message \<Rightarrow> Snapshot \<Rightarrow> 's RawNode \<Rightarrow> (unit, 's RawNode) outcome" where
  "install_snapshot S m snap r =
     (let r = (if \<not> Configuration_IsEmpty (snapConfig snap)
               then setConfiguration S (snapConfig snap) (LastIncludedIndex snap) r else r);
          r = r\<lparr>rAppliedSnapshot := Some snap\<rparr>
      in bind (persistHardState S r) (\<lambda>_ r.
           Done () (send (snapshot_resp m (LastIncludedIndex snap)) r)))"

definition handleSnapshotRequest :: "'s Storage \<Rightarrow> Message \<Rightarrow> 's RawNode \<Rightarrow> (unit, 's RawNode) outcome" where
  "handleSnapshotRequest S m r0 =
     (let r = hear_leader m r0
      in case mSnapshot m of
           None \<Rightarrow> Fail ErrIgnoredMessage r
         | Some snap \<Rightarrow>
             if LastIncludedIndex snap \<le> rCommitted r
             then Done () (send (snapshot_resp m (rCommitted r)) r)
             else
               (case on_log r (log_restore S snap (rLog r)) of
                  Panic r \<Rightarrow> Panic r
                | Fail e r \<Rightarrow>
                    if e = ErrSnapshotOutOfDate then Done () (send (snapshot_resp m (rCommitted r)) r)
                    else Fail e r
                | Done _ r \<Rightarrow> install_snapshot S m snap r))"

definition handleSnapshotResponse :: "'s Storage \<Rightarrow> Message \<Rightarrow> 's RawNode \<Rightarrow> (unit, 's RawNode) outcome" where
  "handleSnapshotResponse S m r =
     (if rState r \<noteq> Leader then Fail ErrIgnoredMessage r
      else
        (case progress_of r (mFrom m) of
           None \<Rightarrow> Fail ErrIgnoredMessage r
         | Some pr \<Rightarrow>
             (let pr = pr\<lparr>PendingSnapshot := 0, SnapshotTicks := 0\<rparr>;
                  r = set_progress (mFrom m) pr r
              in if \<not> mSuccess m then Done () r else advance_match S pr m r)))"

end
