(* ===== verification/Raft_Election.thy ===== *)
theory Raft_Election
  imports Raft_Replication
begin

text \<open>
  Elections and the entry points: \<open>raft/election.go\<close>, and from \<open>raft/raft.go\<close> \<open>becomeLeader\<close>, \<open>Tick\<close>,
  \<open>Step\<close> and \<open>NewRawNode\<close>. \<open>campaign\<close> and \<open>tallyVotes\<close> call each other; the recursion ends because a
  pre-candidate's poll can only lead to a real campaign, and that one only to leadership.
\<close>

definition new_progress :: "'s RawNode \<Rightarrow> Index \<Rightarrow> NodeID \<rightharpoonup> Progress" where
  "new_progress r final =
     (\<lambda>i. if i \<in> set (Members (rConf r))
          then Some (zeroProgress\<lparr>Next := final + 1, Match := (if i = rId r then final else 0)\<rparr>)
          else None)"

definition becomeLeader :: "'s Storage \<Rightarrow> 's RawNode \<Rightarrow> (unit, 's RawNode) outcome" where
  "becomeLeader S r =
     (if rState r = Follower then Panic r
      else
        (let t = rTerm r;
             r = (reset t r)\<lparr>rState := Leader, rLead := rId r\<rparr>;
             final = lastIndex S (rLog r);
             r = r\<lparr>rProgress := Some (new_progress r final)\<rparr>;
             noop = \<lparr>eTerm = t, eIndex = final + 1, eType = EntryNoOp, eCommand = []\<rparr>
         in bind (on_log r (log_append S [noop] (rLog r))) (\<lambda>_ r.
            if progress_of r (rId r) = None then Panic r
            else
              bind (maybeAdvanceCommit S (record_self (eIndex noop) r)) (\<lambda>_ r.
              bind (persistHardState S r) (\<lambda>_ r.
              broadcastAppend S r)))))"

definition recordVote :: "NodeID \<Rightarrow> bool \<Rightarrow> 's RawNode \<Rightarrow> 's RawNode" where
  "recordVote from granted r =
     (if rVotes r from \<noteq> None then r else r\<lparr>rVotes := (rVotes r)(from \<mapsto> granted)\<rparr>)"

definition vote_request :: "NodeID \<Rightarrow> Term \<Rightarrow> bool \<Rightarrow> Index \<Rightarrow> Term \<Rightarrow> Message" where
  "vote_request i t pre lastI lastT =
     zeroMessage\<lparr>mType := MsgVoteReq, mTo := i, mTerm := t, mPreVote := pre,
       mLastLogIndex := lastI, mLastLogTerm := lastT\<rparr>"

text \<open>The end of \<open>campaign\<close>: ask every other voter.\<close>

definition request_votes :: "'s Storage \<Rightarrow> bool \<Rightarrow> Term \<Rightarrow> 's RawNode \<Rightarrow> (unit, 's RawNode) outcome" where
  "request_votes S pre t r =
     bind (lift (lastTerm S (rLog r)) r) (\<lambda>lastT r.
       for_each (\<lambda>peer r.
           if \<not> IsVoter (rConf r) peer then Done () r
           else Done () (send (vote_request peer t pre (lastIndex S (rLog r)) lastT) r))
         (Peers (rConf r) (rId r)) r)"

text \<open>\<open>campaign\<close> up to the tally: the new role, its durable write, and the campaign's term.\<close>

definition campaign_start :: "'s Storage \<Rightarrow> bool \<Rightarrow> 's RawNode \<Rightarrow> (Term, 's RawNode) outcome" where
  "campaign_start S pre r =
     (if pre then bind (becomePreCandidate r) (\<lambda>_ r. Done (rTerm r + 1) r)
      else bind (becomeCandidate r) (\<lambda>_ r. bind (persistHardState S r) (\<lambda>_ r'. Done (rTerm r) r')))"

lemma persist_frame:
  "always (\<lambda>r'. rState r' = rState r \<and> rId r' = rId r \<and> rCfg r' = rCfg r \<and> rTerm r' = rTerm r \<and>
     rVote r' = rVote r \<and> rLead r' = rLead r \<and> rConf r' = rConf r \<and> rConfIndex r' = rConfIndex r \<and>
     rBootstrap r' = rBootstrap r \<and> rVotes r' = rVotes r \<and> rProgress r' = rProgress r \<and>
     rPendingReads r' = rPendingReads r \<and> rReadStates r' = rReadStates r \<and>
     rAppliedSnapshot r' = rAppliedSnapshot r \<and> rMsgs r' = rMsgs r \<and>
     committed (rLog r') = committed (rLog r) \<and> applied (rLog r') = applied (rLog r))
   (persistHardState S r)"
  by (auto simp: persistHardState_def Let_def post_bind_iff)

lemma campaign_start_state:
  "campaign_start S pre r = Done t r' \<Longrightarrow> rState r' = (if pre then PreCandidate else Candidate)"
proof -
  have "post (\<lambda>_ r'. rState r' = (if pre then PreCandidate else Candidate)) (\<lambda>_ _. True) (\<lambda>_. True)
      (campaign_start S pre r)"
    by (auto simp: campaign_start_def becomePreCandidate_def becomeCandidate_def post_bind_iff
        resetRandomizedElectionTimeout_def intro: post_mono [OF persist_frame])
  then show "campaign_start S pre r = Done t r' \<Longrightarrow> rState r' = (if pre then PreCandidate else Candidate)"
    by auto
qed

lemma recordVote_state [simp]: "rState (recordVote i g r) = rState r"
  by (simp add: recordVote_def)

function (sequential) campaign :: "'s Storage \<Rightarrow> bool \<Rightarrow> 's RawNode \<Rightarrow> (unit, 's RawNode) outcome"
  and tallyVotes :: "'s Storage \<Rightarrow> 's RawNode \<Rightarrow> (bool, 's RawNode) outcome" where
  "campaign S pre r =
     (if \<not> promotable r then Done () r
      else
        bind (campaign_start S pre r) (\<lambda>t r.
        bind (tallyVotes S (recordVote (rId r) True r)) (\<lambda>decided r.
          if decided then Done () r else request_votes S pre t r)))"
| "tallyVotes S r =
     (if HasQuorum (rConf r) (\<lambda>i. rVotes r i = Some True)
      then (if rState r = PreCandidate
            then bind (campaign S False r) (\<lambda>_ r. Done True r)
            else bind (becomeLeader S r) (\<lambda>_ r. Done True r))
      else if QuorumImpossible (rConf r) (\<lambda>i. rVotes r i = Some False)
      then Done True (becomeFollower (rTerm r) None_id r)
      else Done False r)"
  by pat_completeness auto
termination
  by (relation "measure (\<lambda>x. case x of Inl (S, pre, r) \<Rightarrow> if pre then 3 else 1
        | Inr (S, r) \<Rightarrow> if rState r = PreCandidate then 2 else 0)")
     (auto dest!: campaign_start_state split: if_splits)

declare campaign.simps [simp del] tallyVotes.simps [simp del]

definition canVote :: "Message \<Rightarrow> 's RawNode \<Rightarrow> bool" where
  "canVote m r =
     (if mPreVote m
      then (if mTerm m \<le> rTerm r then False
            else rLead r = None_id \<or> rElectionElapsed r \<ge> rRandomizedElectionTimeout r)
      else if rVote r = mFrom m then True
      else rVote r = None_id \<and> rLead r = None_id)"

text \<open>
  The reply to a vote request from a node in term \<open>t\<close>: a granted pre-vote echoes the term it was asked
  about, everything else carries the node's own.
\<close>

definition vote_response :: "Message \<Rightarrow> bool \<Rightarrow> Term \<Rightarrow> Message" where
  "vote_response m granted t =
     zeroMessage\<lparr>mType := MsgVoteResp, mTo := mFrom m,
       mTerm := (if mPreVote m \<and> granted then mTerm m else t),
       mPreVote := mPreVote m, mGranted := granted\<rparr>"

definition handleVoteRequest :: "'s Storage \<Rightarrow> Message \<Rightarrow> 's RawNode \<Rightarrow> (unit, 's RawNode) outcome" where
  "handleVoteRequest S m r =
     bind (if canVote m r then lift (isUpToDate S (rLog r) (mLastLogIndex m) (mLastLogTerm m)) r
           else Done False r) (\<lambda>granted r.
     bind (if granted \<and> \<not> mPreVote m
           then persistHardState S (r\<lparr>rVote := mFrom m, rElectionElapsed := 0\<rparr>)
           else Done () r) (\<lambda>_ r.
     Done () (send (vote_response m granted (rTerm r)) r)))"

definition handleVoteResponse :: "'s Storage \<Rightarrow> Message \<Rightarrow> 's RawNode \<Rightarrow> (unit, 's RawNode) outcome" where
  "handleVoteResponse S m r =
     (if mPreVote m \<and> rState r \<noteq> PreCandidate then Fail ErrIgnoredMessage r
      else if \<not> mPreVote m \<and> rState r \<noteq> Candidate then Fail ErrIgnoredMessage r
      else bind (tallyVotes S (recordVote (mFrom m) (mGranted m) r)) (\<lambda>_ r. Done () r))"

definition Campaign :: "'s Storage \<Rightarrow> 's RawNode \<Rightarrow> (unit, 's RawNode) outcome" where
  "Campaign S r = campaign S (cfgPreVote (rCfg r)) r"

section \<open>Tick\<close>

definition tickElection :: "'s Storage \<Rightarrow> 's RawNode \<Rightarrow> (unit, 's RawNode) outcome" where
  "tickElection S r =
     (let r = r\<lparr>rElectionElapsed := rElectionElapsed r + 1\<rparr>
      in if \<not> promotable r \<or> rElectionElapsed r < rRandomizedElectionTimeout r then Done () r
         else campaign S (cfgPreVote (rCfg r)) (r\<lparr>rElectionElapsed := 0\<rparr>))"

definition tickHeartbeat :: "'s Storage \<Rightarrow> 's RawNode \<Rightarrow> (unit, 's RawNode) outcome" where
  "tickHeartbeat S r =
     (let r = r\<lparr>rHeartbeatElapsed := rHeartbeatElapsed r + 1, rElectionElapsed := rElectionElapsed r + 1\<rparr>
      in if rHeartbeatElapsed r < HeartbeatTick (rCfg r) then Done () r
         else
           bind (broadcastAppend S (expirePendingSnapshots (r\<lparr>rHeartbeatElapsed := 0\<rparr>))) (\<lambda>_ r.
             for_each (\<lambda>req r. for_each (\<lambda>peer. sendAppendWithRead S peer (rrId req)) (Peers (rConf r) (rId r)) r)
               (rPendingReads r) r))"

definition Tick :: "'s Storage \<Rightarrow> 's RawNode \<Rightarrow> (unit, 's RawNode) outcome" where
  "Tick S r = (if rState r = Leader then tickHeartbeat S r else tickElection S r)"

section \<open>Step\<close>

definition stepHigherTerm :: "'s Storage \<Rightarrow> Message \<Rightarrow> 's RawNode \<Rightarrow> (unit, 's RawNode) outcome" where
  "stepHigherTerm S m r =
     (if mType m = MsgVoteReq \<and> mPreVote m then Done () r
      else if mType m = MsgVoteResp \<and> mPreVote m \<and> mGranted m then Done () r
      else if mType m = MsgAppendReq \<or> mType m = MsgSnapshotReq
      then persistHardState S (becomeFollower (mTerm m) (mFrom m) r)
      else persistHardState S (becomeFollower (mTerm m) None_id r))"

definition stepLowerTerm :: "Message \<Rightarrow> 's RawNode \<Rightarrow> (unit, 's RawNode) outcome" where
  "stepLowerTerm m r =
     Fail ErrIgnoredMessage
       (if mType m = MsgAppendReq \<or> mType m = MsgSnapshotReq
        then send (zeroMessage\<lparr>mType := MsgAppendResp, mTo := mFrom m, mSuccess := False\<rparr>) r
        else if mType m = MsgVoteReq
        then send (zeroMessage\<lparr>mType := MsgVoteResp, mTo := mFrom m, mGranted := False, mPreVote := mPreVote m\<rparr>) r
        else r)"

definition dispatch :: "'s Storage \<Rightarrow> Message \<Rightarrow> 's RawNode \<Rightarrow> (unit, 's RawNode) outcome" where
  "dispatch S m r =
     (case mType m of
        MsgVoteReq \<Rightarrow> handleVoteRequest S m r
      | MsgVoteResp \<Rightarrow> handleVoteResponse S m r
      | MsgAppendReq \<Rightarrow> handleAppendRequest S m r
      | MsgAppendResp \<Rightarrow> handleAppendResponse S m r
      | MsgSnapshotReq \<Rightarrow> handleSnapshotRequest S m r
      | MsgSnapshotResp \<Rightarrow> handleSnapshotResponse S m r
      | MsgUnknown _ \<Rightarrow> Fail ErrIgnoredMessage r)"

definition Step :: "'s Storage \<Rightarrow> Message \<Rightarrow> 's RawNode \<Rightarrow> (unit, 's RawNode) outcome" where
  "Step S m r =
     (if mTo m \<noteq> rId r \<and> mTo m \<noteq> None_id then Fail ErrIgnoredMessage r
      else if mTerm m > rTerm r then bind (stepHigherTerm S m r) (\<lambda>_ r. dispatch S m r)
      else if mTerm m < rTerm r then stepLowerTerm m r
      else dispatch S m r)"

section \<open>Start\<close>

text \<open>The struct literal of \<open>NewRawNode\<close>; what it does not name is zero.\<close>

definition initial_node :: "Config \<Rightarrow> Rand \<Rightarrow> HardState \<Rightarrow> 's raftLog \<Rightarrow> 's RawNode" where
  "initial_node cfg rnd hs rlog =
     \<lparr>rId = cfgID cfg, rCfg = cfg, rTerm = hsTerm hs, rVote = hsVote hs, rPersisted = hs,
      rLog = rlog, rState = Follower, rLead = None_id, rConf = Bootstrap cfg,
      rConfIndex = 0, rBootstrap = Bootstrap cfg, rVotes = Map.empty, rProgress = None,
      rElectionElapsed = 0, rHeartbeatElapsed = 0, rRandomizedElectionTimeout = 0,
      rPendingReads = [], rReadStates = [], rAppliedSnapshot = None, rMsgs = [],
      rRand = rnd, rDraws = 0\<rparr>"

definition NewRawNode :: "'s Storage \<Rightarrow> 's option \<Rightarrow> Rand option \<Rightarrow> Config \<Rightarrow> 's RawNode result" where
  "NewRawNode S store rnd cfg =
     rbind (validate cfg store rnd) (\<lambda>_.
       (let st = the store
        in rbind (InitialState S st) (\<lambda>(hs, snap).
           rbind (newRaftLog S st) (\<lambda>rlog.
             (let r = initial_node cfg (the rnd) hs rlog;
                  r = (if \<not> Configuration_IsEmpty (snapConfig snap)
                       then r\<lparr>rConf := snapConfig snap, rConfIndex := LastIncludedIndex snap\<rparr> else r)
              in case refreshConfiguration S r of
                   Done _ r \<Rightarrow> Ok (becomeFollower (rTerm r) None_id r)
                 | Fail e _ \<Rightarrow> Err e
                 | Panic _ \<Rightarrow> Crash)))))"

lemma NewRawNode_Ok:
  assumes "NewRawNode S (Some st) (Some rnd) cfg = Ok r"
  obtains hs snap rlog r0 r1 where "InitialState S st = Ok (hs, snap)" "newRaftLog S st = Ok rlog"
    "r0 = (if \<not> Configuration_IsEmpty (snapConfig snap)
       then (initial_node cfg rnd hs rlog)\<lparr>rConf := snapConfig snap, rConfIndex := LastIncludedIndex snap\<rparr>
       else initial_node cfg rnd hs rlog)"
    "refreshConfiguration S r0 = Done () r1" "r = becomeFollower (rTerm r1) None_id r1"
proof -
  obtain hs snap rlog where a: "InitialState S st = Ok (hs, snap)" "newRaftLog S st = Ok rlog"
    using assms by (auto simp: NewRawNode_def rbind_Ok_iff)
  let ?r0 = "if \<not> Configuration_IsEmpty (snapConfig snap)
       then (initial_node cfg rnd hs rlog)\<lparr>rConf := snapConfig snap, rConfIndex := LastIncludedIndex snap\<rparr>
       else initial_node cfg rnd hs rlog"
  have "(case refreshConfiguration S ?r0 of Done _ r \<Rightarrow> Ok (becomeFollower (rTerm r) None_id r)
      | Fail e _ \<Rightarrow> Err e | Panic _ \<Rightarrow> Crash) = Ok r"
    using assms a by (simp add: NewRawNode_def rbind_Ok_iff Let_def)
  then obtain r1 where "refreshConfiguration S ?r0 = Done () r1" "r = becomeFollower (rTerm r1) None_id r1"
    by (cases "refreshConfiguration S ?r0") auto
  with a show thesis by (intro that [of hs snap rlog ?r0 r1]) auto
qed

end
