(* ===== verification/Raft_Votes.thy ===== *)
theory Raft_Votes
  imports Raft_Election
begin

text \<open>
  One node's part in election safety. \<open>h v t\<close> is the vote node \<open>v\<close> has made durable in term \<open>t\<close>, a
  history that only grows. The invariant \<open>node_inv\<close> ties a node's state to it: the vote on disk is the
  latest entry of the node's own history, a granted response in the outbound queue is backed by a
  durable vote, a candidate counts only durable votes, and a leader has a quorum of them.

  It is proved for every operation of the core over any store that keeps the \<open>durable_storage\<close>
  contract, with a fixed membership \<open>C\<close>: no entry is a configuration change, and a snapshot carries no
  configuration or \<open>C\<close>.
\<close>

type_synonym history = "NodeID \<Rightarrow> Term \<Rightarrow> NodeID option"

section \<open>Histories\<close>

definition extends :: "NodeID \<Rightarrow> history \<Rightarrow> history \<Rightarrow> bool" where
  "extends i h h' \<longleftrightarrow> (\<forall>v t x. h v t = Some x \<longrightarrow> h' v t = Some x) \<and> (\<forall>v. v \<noteq> i \<longrightarrow> h' v = h v)"

text \<open>The node's own history up to its durable term and vote.\<close>

definition own_votes :: "history \<Rightarrow> NodeID \<Rightarrow> Term \<Rightarrow> NodeID \<Rightarrow> bool" where
  "own_votes h i t w \<longleftrightarrow> (\<forall>t' x. h i t' = Some x \<longrightarrow> t' \<le> t \<and> (t' = t \<longrightarrow> x = w)) \<and>
     (w \<noteq> None_id \<longrightarrow> h i t = Some w)"

definition cast_vote :: "NodeID \<Rightarrow> Term \<Rightarrow> NodeID \<Rightarrow> history \<Rightarrow> history" where
  "cast_vote i t w h = (if w = None_id then h else h(i := (h i)(t \<mapsto> w)))"

lemma extends_refl [simp]: "extends i h h"
  by (simp add: extends_def)

lemma extends_trans: "extends i h h' \<Longrightarrow> extends i h' h'' \<Longrightarrow> extends i h h''"
  by (auto simp: extends_def)

lemma extends_Some: "extends i h h' \<Longrightarrow> h v t = Some x \<Longrightarrow> h' v t = Some x"
  by (simp add: extends_def)

text \<open>A later term, or the first vote of the same term, extends the history.\<close>

lemma cast_vote_extends:
  assumes "own_votes h i t w" and "t < t' \<or> t = t' \<and> (w = None_id \<or> w = w')"
    and "t = t' \<and> w = None_id \<longrightarrow> h i t = None"
  shows "extends i h (cast_vote i t' w' h)" and "own_votes (cast_vote i t' w' h) i t' w'"
proof -
  have le: "t \<le> t'" using assms(2) by auto
  have own: "t'' \<le> t" "t'' = t \<Longrightarrow> x = w" if "h i t'' = Some x" for t'' x
    using assms(1) that by (auto simp: own_votes_def)
  have n: "x = w'" if "h i t' = Some x" for x
    using own [OF that] assms(2,3) that leD [of t' t] by (cases "t = t'") auto
  show "extends i h (cast_vote i t' w' h)"
    using n by (auto simp: extends_def cast_vote_def)
  show "own_votes (cast_vote i t' w' h) i t' w'"
    unfolding own_votes_def
  proof (intro conjI allI impI)
    fix t'' x assume c: "cast_vote i t' w' h i t'' = Some x"
    show "t'' \<le> t'"
      using c own(1) [of t'' x] le by (auto simp: cast_vote_def split: if_splits)
    show "t'' = t' \<Longrightarrow> x = w'"
      using c n by (auto simp: cast_vote_def split: if_splits)
  qed (simp add: cast_vote_def)
qed

section \<open>The invariant\<close>

definition conf_ok :: "Configuration \<Rightarrow> Snapshot \<Rightarrow> bool" where
  "conf_ok C sn \<longleftrightarrow> Configuration_IsEmpty (snapConfig sn) \<or> snapConfig sn = C"

definition msg_ok :: "Configuration \<Rightarrow> history \<Rightarrow> Message \<Rightarrow> bool" where
  "msg_ok C h m \<longleftrightarrow> mFrom m \<noteq> None_id \<and> plain_entries (mEntries m) \<and>
     (\<forall>sn. mSnapshot m = Some sn \<longrightarrow> conf_ok C sn) \<and>
     (mType m = MsgVoteResp \<and> \<not> mPreVote m \<and> mGranted m \<longrightarrow>
        mTo m \<noteq> None_id \<and> h (mFrom m) (mTerm m) = Some (mTo m))"

definition store_inv ::
  "('s \<Rightarrow> HardState) \<Rightarrow> ('s \<Rightarrow> Snapshot) \<Rightarrow> ('s \<Rightarrow> bool) \<Rightarrow> Configuration \<Rightarrow> history \<Rightarrow> NodeID \<Rightarrow> Term \<Rightarrow> NodeID \<Rightarrow>
     's \<Rightarrow> bool" where
  "store_inv hard snap plain C h i t w st \<longleftrightarrow> plain st \<and> conf_ok C (snap st) \<and>
     hsTerm (hard st) = t \<and> hsVote (hard st) = w \<and> own_votes h i t w \<and> (w = None_id \<longrightarrow> h i t = None)"

definition node_inv ::
  "('s \<Rightarrow> HardState) \<Rightarrow> ('s \<Rightarrow> Snapshot) \<Rightarrow> ('s \<Rightarrow> bool) \<Rightarrow> Configuration \<Rightarrow> history \<Rightarrow> NodeID \<Rightarrow> Term \<Rightarrow> NodeID \<Rightarrow>
     's RawNode \<Rightarrow> bool" where
  "node_inv hard snap plain C h i t w r \<longleftrightarrow> store_inv hard snap plain C h i t w (rStore r) \<and>
     rId r = i \<and> i \<noteq> None_id \<and> rConf r = C \<and> rBootstrap r = C \<and>
     rTerm r = t \<and> rVote r = w \<and> rPersisted r = hard (rStore r) \<and>
     (\<forall>m \<in> set (rMsgs r). msg_ok C h m) \<and>
     (rState r = Candidate \<longrightarrow> w = i \<and> (\<forall>v. rVotes r v = Some True \<longrightarrow> h v t = Some i)) \<and>
     (rState r = Leader \<longrightarrow> HasQuorum C (\<lambda>v. h v t = Some i))"

lemma msg_ok_extends: "msg_ok C h m \<Longrightarrow> extends i h h' \<Longrightarrow> msg_ok C h' m"
  by (auto simp: msg_ok_def extends_def)

text \<open>
  A run from history \<open>h\<close>: the node is in order under a longer history, or at least its store is, so
  that it can be started again from it. An ignored message must not leave the node out of order,
  because the driver carries on after it.
\<close>

definition node_good ::
  "('s \<Rightarrow> HardState) \<Rightarrow> ('s \<Rightarrow> Snapshot) \<Rightarrow> ('s \<Rightarrow> bool) \<Rightarrow> Configuration \<Rightarrow> history \<Rightarrow> NodeID \<Rightarrow> 's RawNode \<Rightarrow> bool" where
  "node_good hard snap plain C h i r \<longleftrightarrow>
     (\<exists>h' t w. extends i h h' \<and> node_inv hard snap plain C h' i t w r)"

definition store_safe ::
  "('s \<Rightarrow> HardState) \<Rightarrow> ('s \<Rightarrow> Snapshot) \<Rightarrow> ('s \<Rightarrow> bool) \<Rightarrow> Configuration \<Rightarrow> history \<Rightarrow> NodeID \<Rightarrow> 's \<Rightarrow> bool" where
  "store_safe hard snap plain C h i st \<longleftrightarrow>
     (\<exists>h' t w. extends i h h' \<and> store_inv hard snap plain C h' i t w st)"

lemma node_good_safe: "node_good hard snap plain C h i r \<Longrightarrow> store_safe hard snap plain C h i (rStore r)"
  by (auto simp: node_good_def store_safe_def node_inv_def)

text \<open>Fields the invariant does not mention may change freely.\<close>

lemma node_inv_frame [simp]:
  "node_inv hard snap plain C h i t w (r\<lparr>rCfg := x1\<rparr>) = node_inv hard snap plain C h i t w r"
  "node_inv hard snap plain C h i t w (r\<lparr>rLead := x2\<rparr>) = node_inv hard snap plain C h i t w r"
  "node_inv hard snap plain C h i t w (r\<lparr>rConfIndex := x3\<rparr>) = node_inv hard snap plain C h i t w r"
  "node_inv hard snap plain C h i t w (r\<lparr>rProgress := x4\<rparr>) = node_inv hard snap plain C h i t w r"
  "node_inv hard snap plain C h i t w (r\<lparr>rElectionElapsed := x5\<rparr>) = node_inv hard snap plain C h i t w r"
  "node_inv hard snap plain C h i t w (r\<lparr>rHeartbeatElapsed := x5\<rparr>) = node_inv hard snap plain C h i t w r"
  "node_inv hard snap plain C h i t w (r\<lparr>rPendingReads := x6\<rparr>) = node_inv hard snap plain C h i t w r"
  "node_inv hard snap plain C h i t w (r\<lparr>rReadStates := x7\<rparr>) = node_inv hard snap plain C h i t w r"
  "node_inv hard snap plain C h i t w (r\<lparr>rAppliedSnapshot := x8\<rparr>) = node_inv hard snap plain C h i t w r"
  by (simp_all add: node_inv_def)

lemma node_inv_set_progress [simp]:
  "node_inv hard snap plain C h i t w (set_progress j p r) = node_inv hard snap plain C h i t w r"
  by (simp add: set_progress_def)

lemma node_inv_send:
  assumes "node_inv hard snap plain C h i t w r"
    and "msg_ok C h (m\<lparr>mFrom := i, mTerm := (if mTerm m = 0 then t else mTerm m)\<rparr>)"
  shows "node_inv hard snap plain C h i t w (send m r)"
  using assms by (auto simp: node_inv_def send_def)

lemma node_inv_follower:
  "node_inv hard snap plain C h i t w r \<Longrightarrow> node_inv hard snap plain C h i t w (becomeFollower t l r)"
  by (simp add: node_inv_def)

lemma node_inv_setConfiguration:
  "node_inv hard snap plain C h i t w r \<Longrightarrow> node_inv hard snap plain C h i t w (setConfiguration S C j r)"
  by (auto simp: setConfiguration_def refreshProgress_def Let_def node_inv_def split: option.splits)

lemma node_inv_commit:
  "node_inv hard snap plain C h i t w (r\<lparr>rLog := (rLog r)\<lparr>committed := c\<rparr>\<rparr>) = node_inv hard snap plain C h i t w r"
  "node_inv hard snap plain C h i t w (r\<lparr>rLog := (rLog r)\<lparr>applied := c\<rparr>\<rparr>) = node_inv hard snap plain C h i t w r"
  by (simp_all add: node_inv_def)

section \<open>Operations that leave term and vote alone\<close>

locale fixed_membership = durable_storage +
  fixes C :: Configuration
  assumes not_joint: "\<not> IsJoint C"
    and not_empty: "\<not> Configuration_IsEmpty C"
begin

abbreviation ninv :: "history \<Rightarrow> NodeID \<Rightarrow> Term \<Rightarrow> NodeID \<Rightarrow> 'a RawNode \<Rightarrow> bool" where
  "ninv \<equiv> node_inv hard snap plain C"

lemma ninv_store:
  assumes "ninv h i t w r" and "hard st = hard (rStore r)" and "conf_ok C (snap st)" and "plain st"
  shows "ninv h i t w (r\<lparr>rLog := (rLog r)\<lparr>storage := st\<rparr>\<rparr>)"
  using assms by (simp add: node_inv_def store_inv_def)

lemma ninv_store_facts:
  assumes "ninv h i t w r"
  shows "plain (rStore r)" and "conf_ok C (snap (rStore r))"
  using assms by (simp_all add: node_inv_def store_inv_def)

lemma persist_calm: "ninv h i t w r \<Longrightarrow> always (ninv h i t w) (persistHardState S r)"
proof -
  assume n: "ninv h i t w r"
  have "always (ninv h i t w) (persistHardState S r)" if "rPersisted r \<noteq> hs"
    "hs = \<lparr>hsTerm = rTerm r, hsVote = rVote r, hsCommit = rCommitted r\<rparr>" for hs
    using set_hard_state [of hs "rStore r"] n that
    by (auto simp: persistHardState_def Let_def post_bind_iff node_inv_def store_inv_def elim!: post_mono)
  with n show ?thesis by (auto simp: persistHardState_def Let_def)
qed

lemma log_append_calm:
  assumes "ninv h i t w r" and "plain_entries es"
  shows "always (ninv h i t w) (on_log r (log_append S es (rLog r)))"
  using assms append_entries [of "rStore r" es] ninv_store_facts [OF assms(1)]
  by (auto simp: log_append_def post_embed_iff elim!: post_mono intro!: ninv_store [OF assms(1)])

lemma send_calm:
  assumes "ninv h i t w r" and "mType m \<noteq> MsgVoteResp \<or> mPreVote m \<or> \<not> mGranted m"
    and "plain_entries (mEntries m)" and "\<And>sn. mSnapshot m = Some sn \<Longrightarrow> conf_ok C sn"
  shows "ninv h i t w (send m r)"
  using assms by (intro node_inv_send) (auto simp: msg_ok_def node_inv_def)

lemma sendSnapshot_calm: "ninv h i t w r \<Longrightarrow> always (ninv h i t w) (sendSnapshot S j r)"
  using load_snapshot [of "rStore r"] ninv_store_facts [of h i t w r]
  by (auto simp: sendSnapshot_def split: option.splits intro!: send_calm)

lemma entries_calm:
  "entries S (rLog r) lo up = Ok es \<Longrightarrow> plain (rStore r) \<Longrightarrow> plain_entries es"
  using entries_plain [of lo up "rStore r" es]
  by (auto simp: Raft_Log.entries_def split: if_splits)

lemma sendAppendWithRead_calm:
  assumes "ninv h i t w r"
  shows "always (ninv h i t w) (sendAppendWithRead S j k r)"
  using assms sendSnapshot_calm [OF assms, of j] ninv_store_facts [OF assms]
  by (auto simp: sendAppendWithRead_def Let_def split: option.splits result.splits if_splits
      intro!: send_calm dest: entries_calm)

lemma sendAppend_calm: "ninv h i t w r \<Longrightarrow> always (ninv h i t w) (sendAppend S j r)"
  by (simp add: sendAppend_def sendAppendWithRead_calm)

lemma broadcast_calm: "ninv h i t w r \<Longrightarrow> always (ninv h i t w) (broadcastAppend S r)"
  unfolding broadcastAppend_def by (rule for_each_inv) (auto intro: sendAppend_calm)

lemma expire_calm: "ninv h i t w r \<Longrightarrow> ninv h i t w (expirePendingSnapshots r)"
proof -
  have "ninv h i t w (fold (expire_pending k) js r)" if "ninv h i t w r" for k js r
    using that
    by (induction js arbitrary: r) (auto simp: expire_pending_def Let_def split: option.splits)
  then show "ninv h i t w r \<Longrightarrow> ninv h i t w (expirePendingSnapshots r)"
    by (simp add: expirePendingSnapshots_def Let_def)
qed

lemma find_conf_plain: "plain (storage l) \<Longrightarrow> find_conf S l j \<noteq> Ok (Some x)"
proof (induction "unat j" arbitrary: j rule: less_induct)
  case less
  have IH: "find_conf S l (j - 1) \<noteq> Ok (Some x)" if "j \<noteq> 0"
    by (rule less.hyps [OF _ less.prems]) (rule unat_pred_less [OF that])
  show ?case
  proof (cases "GetEntry S j (storage l)")
    case (Ok e)
    then have "eType e \<noteq> EntryConfChange" using get_entry_plain less.prems by blast
    with Ok IH show ?thesis by (subst find_conf.simps) (simp add: uint64_pos_iff)
  qed (subst find_conf.simps, simp)+
qed

lemma refreshConfiguration_calm:
  assumes "ninv h i t w r"
  shows "always (ninv h i t w) (refreshConfiguration S r)"
proof -
  have c: "conf_ok C (snap (rStore r))" "rBootstrap r = C" and p: "plain (storage (rLog r))"
    using assms by (auto simp: node_inv_def store_inv_def)
  then show ?thesis
    using assms find_conf_plain [OF p] load_snapshot [of "rStore r"]
    by (auto simp: refreshConfiguration_def post_bind_iff post_lift_iff conf_ok_def
        split: option.splits intro!: node_inv_setConfiguration)
qed

lemma refreshIfNeeded_calm: "ninv h i t w r \<Longrightarrow> always (ninv h i t w) (refreshConfigurationIfNeeded S es r)"
  by (simp add: refreshConfigurationIfNeeded_def Let_def refreshConfiguration_calm)

lemma stepDown_calm: "ninv h i t w r \<Longrightarrow> ninv h i t w (stepDownIfRemoved r)"
  using node_inv_follower [of hard snap plain C h i t w r None_id]
  by (auto simp: stepDownIfRemoved_def node_inv_def)

lemma commitTo_calm: "ninv h i t w r \<Longrightarrow> always (ninv h i t w) (on_log r (commitTo S j (rLog r)))"
  by (simp add: commitTo_def node_inv_commit)

lemma leaveJoint_calm:
  assumes "ninv h i t w r"
  shows "maybeLeaveJoint S r = Done () r"
  using assms not_joint
  by (simp add: maybeLeaveJoint_def numeral_2_eq_2 maybeLeaveJoint_with_def node_inv_def)

lemma advance_calm:
  assumes "ninv h i t w r"
  shows "always (ninv h i t w) (maybeAdvanceCommit S r)"
proof -
  have step: "always (ninv h i t w) (bind (on_log r (commitTo S j (rLog r))) (\<lambda>_ r.
      bind (persistHardState S r) (\<lambda>_ r. bind (maybeLeaveJoint S r) (\<lambda>_ r. Done True (stepDownIfRemoved r)))))"
    if "ninv h i t w r" for r j
    by (rule post_seq [OF commitTo_calm [OF that]], rule post_seq [OF persist_calm], assumption)
      (simp add: leaveJoint_calm stepDown_calm)
  show ?thesis
    unfolding maybeAdvanceCommit_def maybeAdvanceCommit_with_def Let_def
    using assms step [OF assms] by (auto simp: post_bind_iff [of _ _ _ "lift _ _"] post_lift_iff)
qed

lemma record_self_calm: "ninv h i t w r \<Longrightarrow> ninv h i t w (record_self j r)"
  by (simp add: record_self_def split: option.splits)

lemma propose_calm:
  assumes "ninv h i t w r" and "ty \<noteq> EntryConfChange"
  shows "always (ninv h i t w) (propose S ty cmd r)"
proof -
  have tail: "always (ninv h i t w) (bind (maybeAdvanceCommit S (record_self j r)) (\<lambda>_ r.
      bind (broadcastAppend S r) (\<lambda>_ r. Done j r)))" if "ninv h i t w r" for r and j :: Index
    by (rule post_seq [OF advance_calm [OF record_self_calm [OF that]]], rule post_seq [OF broadcast_calm]) auto
  show ?thesis
    unfolding propose_def propose_with_def maybeAdvanceCommit_def [symmetric] Let_def
    using assms by (auto simp del: post_on_log intro!: post_seq [OF log_append_calm [OF assms(1)]] tail)
qed

lemma reads_calm:
  assumes "ninv h i t w r"
  shows "always (ninv h i t w) (for_each (\<lambda>peer. sendAppendWithRead S peer k) js r)"
  using assms by (rule for_each_inv) (rule sendAppendWithRead_calm)

lemma ReadIndex_calm:
  assumes "ninv h i t w r"
  shows "always (ninv h i t w) (ReadIndex S k r)"
  using assms by (auto simp: ReadIndex_def Let_def post_bind_iff post_lift_iff reads_calm)

lemma ackRead_calm: "ninv h i t w r \<Longrightarrow> ninv h i t w (ackRead j k r)"
  by (simp add: ackRead_def split: prod.splits)

lemma advance_match_calm:
  assumes "ninv h i t w r"
  shows "always (ninv h i t w) (advance_match S pr m r)"
  using assms
  by (auto simp: advance_match_def Let_def sendAppend_calm broadcast_calm intro!: post_seq [OF advance_calm])

lemma handleAppendResponse_calm:
  assumes "ninv h i t w r"
  shows "always (ninv h i t w) (handleAppendResponse S m r)"
  using assms
  by (auto simp: handleAppendResponse_def Let_def post_bind_iff post_lift_iff ackRead_calm
      advance_match_calm sendAppend_calm split: option.splits)

lemma handleSnapshotResponse_calm:
  assumes "ninv h i t w r"
  shows "always (ninv h i t w) (handleSnapshotResponse S m r)"
  using assms
  by (auto simp: handleSnapshotResponse_def Let_def advance_match_calm split: option.splits)

lemma write_calm:
  assumes "ninv h i t w (r\<lparr>rLog := l\<rparr>)" and "plain_entries es"
  shows "always (\<lambda>l. ninv h i t w (r\<lparr>rLog := l\<rparr>)) (write_from_conflict S p es c l)"
proof -
  have "plain_entries es'" if "slice_from es j = Ok es'" for j es'
    using slice_from_Ok [OF that] assms(2) plain_entries_sub by blast
  then show ?thesis
    using assms(1) log_append_calm [OF assms(1)]
    by (auto simp: write_from_conflict_def post_bind_iff post_lift_iff)
qed

lemma maybeAppend_calm:
  assumes "ninv h i t w r" and "plain_entries es"
  shows "always (ninv h i t w) (on_log r (maybeAppend S p pt lc es (rLog r)))"
proof -
  let ?I = "\<lambda>l. ninv h i t w (r\<lparr>rLog := l\<rparr>)"
  have fin: "always ?I (bind (commitTo S j l) (\<lambda>_ l. Done x l))" if "?I l" for j x l
    by (rule post_seq [where J = ?I]) (use that commitTo_calm [OF that, of j] in auto)
  have tail: "always ?I (bind (write_from_conflict S p es c l) (\<lambda>_ l. bind (commitTo S j l) (\<lambda>_ l. Done x l)))"
    if "?I l" for c j x l
    by (rule post_seq [OF write_calm [OF that assms(2)] fin])
  have "always ?I (maybeAppend S p pt lc es (rLog r))"
    unfolding maybeAppend_def Let_def
    by (rule post_seq [OF always_lift]) (use assms tail in \<open>auto intro!: post_seq [OF always_lift]\<close>)
  then show ?thesis by simp
qed

lemma hear_leader_calm: "ninv h i t w r \<Longrightarrow> mTerm m = t \<Longrightarrow> ninv h i t w (hear_leader m r)"
  using node_inv_follower [of hard snap plain C h i t w "r\<lparr>rElectionElapsed := 0\<rparr>" "mFrom m"]
  by (simp add: hear_leader_def Let_def)

lemma answer_calm:
  assumes "ninv h i t w r"
  shows "always (ninv h i t w) (answer_append S m res r)"
proof (cases "snd res")
  case False
  then show ?thesis
    using assms by (auto simp: answer_append_def post_bind_iff post_lift_iff intro!: send_calm)
next
  case True
  have "always (ninv h i t w) (bind (persistHardState S r) (\<lambda>_ r. Done () (send (zeroMessage\<lparr>mType := MsgAppendResp,
      mTo := mFrom m, mSuccess := True, mMatchIndex := fst res, mReadID := mReadID m\<rparr>) r)))"
    if "ninv h i t w r" for r
    by (rule post_seq [OF persist_calm [OF that]]) (auto intro!: send_calm)
  with True assms show ?thesis
    by (simp add: answer_append_def) (rule post_seq [OF refreshIfNeeded_calm])
qed

lemma handleAppendRequest_calm:
  assumes "ninv h i t w r" and "msg_ok C h m" and "mTerm m = t"
  shows "always (ninv h i t w) (handleAppendRequest S m r)"
proof -
  note n = hear_leader_calm [OF assms(1,3)]
  have pl: "plain_entries (mEntries m)" using assms(2) by (simp add: msg_ok_def)
  show ?thesis
    unfolding handleAppendRequest_def Let_def
    using post_seq [OF maybeAppend_calm [OF n pl] answer_calm] n
    by (auto intro!: send_calm)
qed

lemma restore_calm:
  assumes "ninv h i t w r" and "conf_ok C sn"
  shows "always (ninv h i t w) (on_log r (log_restore S sn (rLog r)))"
proof -
  have "always (\<lambda>l. ninv h i t w (r\<lparr>rLog := l\<rparr>)) (embed (\<lambda>st. (rLog r)\<lparr>storage := st\<rparr>) (SaveSnapshot S sn (rStore r)))"
    using save_snapshot [of "rStore r" sn] ninv_store_facts [OF assms(1)] assms(2)
    by (auto simp: post_embed_iff elim!: post_mono intro!: ninv_store [OF assms(1)])
  then have "always (\<lambda>l. ninv h i t w (r\<lparr>rLog := l\<rparr>)) (log_restore S sn (rLog r))"
    unfolding log_restore_def using assms(1)
    by (auto intro!: post_seq simp: node_inv_def)
  then show ?thesis by simp
qed

lemma install_calm:
  assumes "ninv h i t w r" and "conf_ok C sn"
  shows "always (ninv h i t w) (install_snapshot S m sn r)"
proof -
  have n: "ninv h i t w ((if \<not> Configuration_IsEmpty (snapConfig sn)
      then setConfiguration S (snapConfig sn) k r else r)\<lparr>rAppliedSnapshot := Some sn\<rparr>)" for k
    using assms node_inv_setConfiguration [of hard snap plain C h i t w r S k] by (auto simp: conf_ok_def)
  show ?thesis
    unfolding install_snapshot_def Let_def
    by (rule post_seq [OF persist_calm [OF n]]) (auto simp: snapshot_resp_def intro!: send_calm)
qed

lemma handleSnapshotRequest_calm:
  assumes "ninv h i t w r" and "msg_ok C h m" and "mTerm m = t"
  shows "always (ninv h i t w) (handleSnapshotRequest S m r)"
proof (cases "mSnapshot m")
  case None
  then show ?thesis
    using hear_leader_calm [OF assms(1,3)] by (simp add: handleSnapshotRequest_def Let_def)
next
  case (Some sn)
  note n = hear_leader_calm [OF assms(1,3)]
  have c: "conf_ok C sn" using assms(2) Some by (simp add: msg_ok_def)
  have reply: "ninv h i t w (send (snapshot_resp m j) r)" if "ninv h i t w r" for r j
    using that by (auto simp: snapshot_resp_def intro!: send_calm)
  show ?thesis
    using restore_calm [OF n c] n Some reply install_calm [OF _ c, of h i t w]
    by (cases "on_log (hear_leader m r) (log_restore S sn (rLog (hear_leader m r)))")
      (auto simp: handleSnapshotRequest_def Let_def simp del: post_on_log)
qed

lemma CreateSnapshot_calm:
  assumes "ninv h i t w r"
  shows "always (ninv h i t w) (CreateSnapshot S data r)"
proof -
  have save: "always (ninv h i t w) (on_store r (SaveSnapshot S sn (rStore r)))"
    if "ninv h i t w r" "conf_ok C sn" for r sn
    using save_snapshot [of "rStore r" sn] ninv_store_facts [OF that(1)] that(2)
    by (auto elim!: post_mono intro!: ninv_store [OF that(1)])
  have cut: "always (ninv h i t w) (on_log r (log_compact S j (rLog r)))" if "ninv h i t w r" for r j
    using compact [of "rStore r" j] ninv_store_facts [OF that] that
    by (auto simp: log_compact_def post_embed_iff elim!: post_mono intro!: ninv_store [OF that])
  have "conf_ok C \<lparr>LastIncludedIndex = a, LastIncludedTerm = b, snapConfig = rConf r, snapData = d\<rparr>" for a b d
    using assms by (simp add: conf_ok_def node_inv_def)
  then show ?thesis
    unfolding CreateSnapshot_def Let_def
    using assms
    by (auto simp: post_bind_iff [of _ _ _ "lift _ _"] post_lift_iff simp del: post_on_log post_on_store
        intro!: post_seq [OF save] post_seq [OF cut])
qed

lemma ApplyTo_calm: "ninv h i t w r \<Longrightarrow> always (ninv h i t w) (ApplyTo j r)"
  by (simp add: ApplyTo_def appliedTo_def node_inv_commit)

lemma tickHeartbeat_calm:
  assumes "ninv h i t w r"
  shows "always (ninv h i t w) (tickHeartbeat S r)"
proof -
  have "always (ninv h i t w) (for_each (\<lambda>req r. for_each (\<lambda>peer. sendAppendWithRead S peer (rrId req)) (Peers (rConf r) (rId r)) r) reqs r)"
    if "ninv h i t w r" for reqs r
    using that by (rule for_each_inv) (rule reads_calm)
  then show ?thesis
    using assms
    by (auto simp: tickHeartbeat_def Let_def intro!: post_seq [OF broadcast_calm] expire_calm)
qed

lemma becomeLeader_calm:
  assumes "ninv h i t w r" and "HasQuorum C (\<lambda>v. h v t = Some i)"
  shows "always (ninv h i t w) (becomeLeader S r)"
proof -
  let ?r = "(reset (rTerm r) r)\<lparr>rState := Leader, rLead := rId r\<rparr>"
  have l: "ninv h i t w (?r\<lparr>rProgress := p\<rparr>)" for p
    using assms by (simp add: node_inv_def)
  have tail: "always (ninv h i t w) (bind (maybeAdvanceCommit S (record_self j r)) (\<lambda>_ r.
      bind (persistHardState S r) (\<lambda>_ r. broadcastAppend S r)))" if "ninv h i t w r" for r j
    by (rule post_seq [OF advance_calm [OF record_self_calm [OF that]]], rule post_seq [OF persist_calm], assumption)
      (rule broadcast_calm)
  show ?thesis
  proof (cases "rState r = Follower")
    case False
    show ?thesis
      unfolding becomeLeader_def Let_def if_not_P [OF False]
      by (rule post_seq [OF log_append_calm [OF l]]) (simp_all add: tail)
  qed (use assms in \<open>simp add: becomeLeader_def\<close>)
qed

section \<open>Votes\<close>

abbreviation good :: "history \<Rightarrow> NodeID \<Rightarrow> 'a RawNode \<Rightarrow> bool" where
  "good \<equiv> node_good hard snap plain C"

abbreviation safe :: "history \<Rightarrow> NodeID \<Rightarrow> 'a RawNode \<Rightarrow> bool" where
  "safe h i r \<equiv> store_safe hard snap plain C h i (rStore r)"

abbreviation run_ok :: "history \<Rightarrow> NodeID \<Rightarrow> ('b, 'a RawNode) outcome \<Rightarrow> bool" where
  "run_ok h i \<equiv> post (\<lambda>_. good h i) (\<lambda>e r. safe h i r \<and> (e = ErrIgnoredMessage \<longrightarrow> good h i r)) (safe h i)"

lemma good_inv: "ninv h i t w r \<Longrightarrow> good h i r"
  by (auto simp: node_good_def intro: extends_refl)

lemma good_extends: "extends i h h' \<Longrightarrow> good h' i r \<Longrightarrow> good h i r"
  by (auto simp: node_good_def intro: extends_trans)

lemma safe_extends: "extends i h h' \<Longrightarrow> safe h' i r \<Longrightarrow> safe h i r"
  by (auto simp: store_safe_def intro: extends_trans)

lemma run_ok_calm: "always (ninv h i t w) m \<Longrightarrow> run_ok h i m"
  by (cases m) (auto dest: good_inv node_good_safe)

lemma run_ok_extends: "extends i h h' \<Longrightarrow> run_ok h' i m \<Longrightarrow> run_ok h i m"
  by (cases m) (auto dest: good_extends safe_extends)

lemma run_ok_seq:
  assumes "run_ok h i m"
    and "\<And>h' t w a r. extends i h h' \<Longrightarrow> ninv h' i t w r \<Longrightarrow> m = Done a r \<Longrightarrow> run_ok h' i (f a r)"
  shows "run_ok h i (bind m f)"
proof (cases m)
  case (Done a r)
  then obtain h' t w where "extends i h h'" "ninv h' i t w r"
    using assms(1) by (auto simp: node_good_def)
  then show ?thesis using Done assms(2) run_ok_extends by fastforce
qed (use assms in auto)

lemma persist_vote:
  assumes n: "ninv h i t w r" and k: "rTerm r' = t'" "rVote r' = w'" "rLog r' = rLog r"
    "rPersisted r' = rPersisted r" "rId r' = i" "rConf r' = C" "rBootstrap r' = C" "rMsgs r' = rMsgs r"
    and new: "t < t' \<or> t' < t \<or> t = t' \<and> (w = None_id \<or> w = w')"
    and role: "\<And>h'. extends i h h' \<Longrightarrow> rState r' = Candidate \<Longrightarrow> w' = i \<and> (\<forall>v. rVotes r' v = Some True \<longrightarrow> h' v t' = Some i)"
    "\<And>h'. extends i h h' \<Longrightarrow> rState r' = Leader \<Longrightarrow> HasQuorum C (\<lambda>v. h' v t' = Some i)"
  shows "run_ok h i (persistHardState S r')"
proof -
  let ?hs = "\<lparr>hsTerm = t', hsVote = w', hsCommit = rCommitted r'\<rparr>"
  have st: "store_inv hard snap plain C h i t w (rStore r')" and hs: "rPersisted r' = hard (rStore r')"
    using n k by (auto simp: node_inv_def)
  have safe: "safe h i r'"
    using st by (auto simp: store_safe_def intro: extends_refl)
  show ?thesis
  proof (cases "?hs = rPersisted r'")
    case True
    then have "hard (rStore r') = ?hs" using hs by simp
    then have "t' = t" "w' = w" using st by (auto simp: store_inv_def)
    then have "ninv h i t w r'"
      using n k role [OF extends_refl] st hs by (auto simp: node_inv_def)
    moreover have "persistHardState S r' = Done () r'"
      using True k by (simp add: persistHardState_def)
    ultimately show ?thesis by (simp add: good_inv)
  next
    case False
    have "good h i (r'\<lparr>rLog := (rLog r')\<lparr>storage := s\<rparr>, rPersisted := ?hs\<rparr>)"
      if s: "hard s = ?hs" "hsTerm (hard (rStore r')) \<le> t'" "snap s = snap (rStore r')" "plain s" for s
    proof -
      have lt: "t < t' \<or> t = t' \<and> (w = None_id \<or> w = w')"
        using s(2) st new by (auto simp: store_inv_def)
      have own: "own_votes h i t w" "w = None_id \<longrightarrow> h i t = None" using st by (auto simp: store_inv_def)
      note c = cast_vote_extends [OF own(1) lt]
      have h': "extends i h (cast_vote i t' w' h)" "own_votes (cast_vote i t' w' h) i t' w'"
        using c own(2) by auto
      have "h i t' = None" if "w' = None_id"
      proof (cases "h i t'")
        case (Some x)
        then have "t' \<le> t" using own(1) unfolding own_votes_def by blast
        then have "t = t'" "w = None_id" using lt that by (auto simp: leD)
        then show ?thesis using own(2) by simp
      qed simp
      then have none: "w' = None_id \<longrightarrow> cast_vote i t' w' h i t' = None"
        by (simp add: cast_vote_def)
      obtain g where g: "extends i h g" "own_votes g i t' w'" "w' = None_id \<longrightarrow> g i t' = None"
        using h' none by blast
      have role': "rState r' = Candidate \<longrightarrow> w' = i \<and> (\<forall>v. rVotes r' v = Some True \<longrightarrow> g v t' = Some i)"
        "rState r' = Leader \<longrightarrow> HasQuorum C (\<lambda>v. g v t' = Some i)"
        using role [OF g(1)] by blast+
      have "ninv g i t' w' (r'\<lparr>rLog := (rLog r')\<lparr>storage := s\<rparr>, rPersisted := ?hs\<rparr>)"
        using n k s st g role' msg_ok_extends [OF _ g(1)]
        unfolding node_inv_def store_inv_def by simp
      with g(1) show ?thesis unfolding node_good_def by blast
    qed
    moreover have "plain (rStore r')" using st by (simp add: store_inv_def)
    ultimately have "post (\<lambda>_ s. good h i (r'\<lparr>rLog := (rLog r')\<lparr>storage := s\<rparr>, rPersisted := ?hs\<rparr>))
        (\<lambda>e s. s = rStore r' \<and> e \<noteq> ErrIgnoredMessage) (\<lambda>s. s = rStore r') (SetHardState S ?hs (rStore r'))"
      by (intro post_mono [OF set_hard_state [of ?hs "rStore r'"]]) auto
    then show ?thesis
      using False k safe
      by (cases "SetHardState S ?hs (rStore r')") (simp_all add: persistHardState_def on_store_def)
  qed
qed

lemma campaign_start_ok:
  assumes "ninv h i t w r"
  shows "run_ok h i (campaign_start S pre r)"
proof (cases "rState r = Leader")
  case True
  then show ?thesis
    using assms by (auto simp: campaign_start_def becomePreCandidate_def becomeCandidate_def
        dest: good_inv node_good_safe)
next
  case False
  show ?thesis
  proof (cases pre)
    case True
    have "ninv h i t w (resetRandomizedElectionTimeout (r\<lparr>rState := PreCandidate, rVotes := Map.empty, rLead := None_id\<rparr>))"
      using assms by (simp add: node_inv_def resetRandomizedElectionTimeout_def)
    with True False show ?thesis by (simp add: campaign_start_def becomePreCandidate_def good_inv)
  next
    case pre: False
    let ?r = "(reset (rTerm r + 1) r)\<lparr>rState := Candidate, rVote := rId r\<rparr>"
    have t: "t < t + 1 \<or> t + 1 < t"
      using less_linear [of t "t + 1"] by auto
    have "run_ok h i (persistHardState S ?r)"
      by (rule persist_vote [OF assms, where t' = "t + 1" and w' = i])
        (use assms t in \<open>auto simp: node_inv_def\<close>)
    then show ?thesis
      using pre False by (simp add: campaign_start_def becomeCandidate_def post_bind_iff)
  qed
qed

lemma recordVote_self: "ninv h i t w r \<Longrightarrow> ninv h i t w (recordVote (rId r) True r)"
  by (auto simp: recordVote_def node_inv_def store_inv_def own_votes_def)

lemma tally_decides:
  assumes "ninv h i t w r" and "rState r \<noteq> PreCandidate"
  shows "always (ninv h i t w) (tallyVotes S r)"
proof -
  have q: "HasQuorum C (\<lambda>v. h v t = Some i)"
    if "HasQuorum (rConf r) (\<lambda>v. rVotes r v = Some True)" "rState r \<noteq> Follower"
  proof (cases "rState r = Leader")
    case False
    then have "rState r = Candidate" using that(2) assms(2) by (cases "rState r") auto
    then show ?thesis
      using that(1) assms(1) by (auto simp: node_inv_def intro: conf_quorum.mono)
  qed (use assms in \<open>simp add: node_inv_def\<close>)
  have lead: "always (ninv h i t w) (bind (becomeLeader S r) (\<lambda>_ r. Done True r))"
    if "HasQuorum (rConf r) (\<lambda>v. rVotes r v = Some True)"
  proof (rule post_seq [where J = "ninv h i t w"])
    show "always (ninv h i t w) (becomeLeader S r)"
      using becomeLeader_calm [OF assms(1) q [OF that]] assms(1)
      by (cases "rState r = Follower") (simp_all add: becomeLeader_def)
  qed simp
  have "rTerm r = t" using assms(1) by (simp add: node_inv_def)
  with assms lead node_inv_follower [OF assms(1)] show ?thesis
    by (subst tallyVotes.simps) simp
qed

lemma request_votes_calm:
  assumes "ninv h i t w r"
  shows "always (ninv h i t w) (request_votes S pre k r)"
  unfolding request_votes_def
proof (rule post_seq [where J = "ninv h i t w"])
  show "always (ninv h i t w) (lift (lastTerm S (rLog r)) r)"
    using assms by (rule always_lift)
next
  fix lt s assume "ninv h i t w s"
  then show "always (ninv h i t w) (for_each (\<lambda>peer r. if \<not> IsVoter (rConf r) peer then Done () r
      else Done () (send (vote_request peer k pre (lastIndex S (rLog r)) lt) r)) (Peers (rConf s) (rId s)) s)"
    by (rule for_each_inv) (auto simp: vote_request_def intro!: send_calm)
qed

lemma campaign_promotable:
  "promotable r \<Longrightarrow> campaign S pre r = bind (campaign_start S pre r) (\<lambda>t r.
     bind (tallyVotes S (recordVote (rId r) True r)) (\<lambda>decided r.
       if decided then Done () r else request_votes S pre t r))"
  by (subst campaign.simps) simp

lemma after_tally:
  assumes "run_ok h i m"
  shows "run_ok h i (bind m (\<lambda>decided r. if decided then Done () r else request_votes S pre k r))"
  using assms by (rule run_ok_seq) (auto simp: good_inv intro: run_ok_calm [OF request_votes_calm])

lemma campaign_real:
  assumes "ninv h i t w r"
  shows "run_ok h i (campaign S False r)"
proof (cases "promotable r")
  case True
  show ?thesis
    unfolding campaign_promotable [OF True]
  proof (rule run_ok_seq [OF campaign_start_ok [OF assms]], rule after_tally)
    fix h' t' w' a r'
    assume r': "ninv h' i t' w' r'" and s: "campaign_start S False r = Done a r'"
    show "run_ok h' i (tallyVotes S (recordVote (rId r') True r'))"
      using campaign_start_state [OF s]
      by (intro run_ok_calm [OF tally_decides [OF recordVote_self [OF r']]]) simp
  qed
qed (use assms in \<open>simp add: campaign.simps good_inv\<close>)

lemma tally_ok:
  assumes "ninv h i t w r"
  shows "run_ok h i (tallyVotes S r)"
proof (cases "rState r = PreCandidate")
  case True
  have "run_ok h i (bind (campaign S False r) (\<lambda>_ r. Done True r))"
    by (rule run_ok_seq [OF campaign_real [OF assms]]) (simp add: good_inv)
  moreover have "rTerm r = t" using assms by (simp add: node_inv_def)
  moreover have "good h i (becomeFollower t None_id r)" "good h i r"
    using assms by (auto intro: good_inv node_inv_follower)
  ultimately show ?thesis
    using True by (subst tallyVotes.simps) simp
next
  case False
  show ?thesis by (rule run_ok_calm [OF tally_decides [OF assms False]])
qed

lemma campaign_ok:
  assumes "ninv h i t w r"
  shows "run_ok h i (campaign S pre r)"
proof (cases "promotable r")
  case True
  show ?thesis
    unfolding campaign_promotable [OF True]
    by (rule run_ok_seq [OF campaign_start_ok [OF assms]], rule after_tally, rule tally_ok)
      (rule recordVote_self)
qed (use assms in \<open>simp add: campaign.simps good_inv\<close>)

lemma vote_reply:
  assumes "ninv h i t w r" and "msg_ok C h m" and "granted \<and> \<not> mPreVote m \<longrightarrow> w = mFrom m"
  shows "ninv h i t w (send (vote_response m granted (rTerm r)) r)"
proof (rule node_inv_send [OF assms(1)])
  have "rTerm r = t" "i \<noteq> None_id" "w \<noteq> None_id \<longrightarrow> h i t = Some w"
    using assms(1) by (auto simp: node_inv_def store_inv_def own_votes_def)
  moreover have "mFrom m \<noteq> None_id" using assms(2) by (simp add: msg_ok_def)
  ultimately show "msg_ok C h ((vote_response m granted (rTerm r))\<lparr>mFrom := i,
      mTerm := (if mTerm (vote_response m granted (rTerm r)) = 0 then t else mTerm (vote_response m granted (rTerm r)))\<rparr>)"
    using assms(3) by (auto simp: msg_ok_def vote_response_def)
qed

lemma persist_own_vote:
  assumes n: "ninv h i t w r" and "canVote m r" and "\<not> mPreVote m"
  shows "run_ok h i (persistHardState S (r\<lparr>rVote := mFrom m, rElectionElapsed := 0\<rparr>))"
proof (rule persist_vote [OF n, where t' = t and w' = "mFrom m"])
  have w: "w = None_id \<or> w = mFrom m"
    using assms by (auto simp: canVote_def node_inv_def split: if_splits)
  then show "t < t \<or> t < t \<or> t = t \<and> (w = None_id \<or> w = mFrom m)" by simp
  show "mFrom m = i \<and> (\<forall>v. rVotes (r\<lparr>rVote := mFrom m, rElectionElapsed := 0\<rparr>) v = Some True \<longrightarrow> h' v t = Some i)"
    if "extends i h h'" "rState (r\<lparr>rVote := mFrom m, rElectionElapsed := 0\<rparr>) = Candidate" for h'
    using that n w extends_Some [OF that(1)] by (auto simp: node_inv_def)
  show "HasQuorum C (\<lambda>v. h' v t = Some i)"
    if "extends i h h'" "rState (r\<lparr>rVote := mFrom m, rElectionElapsed := 0\<rparr>) = Leader" for h'
    using that n by (auto simp: node_inv_def intro: conf_quorum.mono extends_Some)
qed (use n in \<open>auto simp: node_inv_def\<close>)

lemma handleVoteRequest_ok:
  assumes n: "ninv h i t w r" and m: "msg_ok C h m"
  shows "run_ok h i (handleVoteRequest S m r)"
proof -
  let ?r = "r\<lparr>rVote := mFrom m, rElectionElapsed := 0\<rparr>"
  have granted: "run_ok h i (bind (persistHardState S ?r) (\<lambda>_ r. Done () (send (vote_response m True (rTerm r)) r)))"
    if "canVote m r" "\<not> mPreVote m"
  proof (rule run_ok_seq [OF persist_own_vote [OF n that]])
    fix h' t' w' a r' assume h': "extends i h h'" "ninv h' i t' w' r'" "persistHardState S ?r = Done a r'"
    have "w' = mFrom m" using persist_frame [of ?r S] h'(2,3) by (simp add: node_inv_def)
    then show "run_ok h' i (Done () (send (vote_response m True (rTerm r')) r'))"
      using good_inv [OF vote_reply [OF h'(2) msg_ok_extends [OF m h'(1)], of True]] by simp
  qed
  have other: "good h i (send (vote_response m g (rTerm r)) r)" if "\<not> (g \<and> \<not> mPreVote m)" for g
    using vote_reply [OF n m, of g] that by (auto intro: good_inv)
  have stop: "good h i r" "safe h i r" using n by (auto dest: good_inv node_good_safe)
  show ?thesis
  proof (cases "canVote m r")
    case True
    show ?thesis
    proof (cases "isUpToDate S (rLog r) (mLastLogIndex m) (mLastLogTerm m)")
      case (Ok g)
      then show ?thesis
        using True granted other by (cases "g \<and> \<not> mPreVote m") (auto simp: handleVoteRequest_def)
    qed (use True stop in \<open>simp_all add: handleVoteRequest_def\<close>)
  qed (use other [of False] in \<open>simp add: handleVoteRequest_def\<close>)
qed

lemma stepHigherTerm_ok:
  assumes n: "ninv h i t w r" and "t < mTerm m"
  shows "run_ok h i (stepHigherTerm S m r)"
proof -
  have "run_ok h i (persistHardState S (becomeFollower (mTerm m) l r))" for l
    by (rule persist_vote [OF n, where t' = "mTerm m" and w' = None_id])
      (use assms in \<open>auto simp: node_inv_def\<close>)
  then show ?thesis
    using good_inv [OF n] by (simp add: stepHigherTerm_def)
qed

lemma handleVoteResponse_ok:
  assumes n: "ninv h i t w r" and m: "msg_ok C h m" and to: "mTo m = i \<or> mTo m = None_id"
    and tm: "mPreVote m \<or> mTerm m = t" and ty: "mType m = MsgVoteResp"
  shows "run_ok h i (handleVoteResponse S m r)"
proof -
  have rec: "ninv h i t w (recordVote (mFrom m) (mGranted m) r)" if "mPreVote m \<longrightarrow> rState r = PreCandidate"
    using assms that by (auto simp: recordVote_def node_inv_def msg_ok_def)
  have "run_ok h i (bind (tallyVotes S (recordVote (mFrom m) (mGranted m) r)) (\<lambda>_ r. Done () r))"
    if "mPreVote m \<longrightarrow> rState r = PreCandidate"
    by (rule run_ok_seq [OF tally_ok [OF rec [OF that]]]) (simp add: good_inv)
  then show ?thesis
    using n by (auto simp: handleVoteResponse_def dest: good_inv node_good_safe)
qed

lemma dispatch_ok:
  assumes n: "ninv h i t w r" and m: "msg_ok C h m" and to: "mTo m = i \<or> mTo m = None_id"
    and tm: "mTerm m = t \<or> (mType m = MsgVoteReq \<or> mType m = MsgVoteResp) \<and> mPreVote m"
  shows "run_ok h i (dispatch S m r)"
proof (cases "mType m")
  case MsgVoteReq
  then show ?thesis using handleVoteRequest_ok [OF n m] by (simp add: dispatch_def)
next
  case MsgVoteResp
  then show ?thesis using handleVoteResponse_ok [OF n m to] tm by (auto simp: dispatch_def)
next
  case MsgAppendReq
  then show ?thesis using run_ok_calm [OF handleAppendRequest_calm [OF n m]] tm by (simp add: dispatch_def)
next
  case MsgAppendResp
  then show ?thesis using run_ok_calm [OF handleAppendResponse_calm [OF n]] by (simp add: dispatch_def)
next
  case MsgSnapshotReq
  then show ?thesis using run_ok_calm [OF handleSnapshotRequest_calm [OF n m]] tm by (simp add: dispatch_def)
next
  case MsgSnapshotResp
  then show ?thesis using run_ok_calm [OF handleSnapshotResponse_calm [OF n]] by (simp add: dispatch_def)
next
  case (MsgUnknown b)
  then show ?thesis using n by (auto simp: dispatch_def dest: good_inv node_good_safe)
qed

lemma stepHigherTerm_term:
  assumes "stepHigherTerm S m r = Done a r'"
  shows "rTerm r' = mTerm m \<or> (mType m = MsgVoteReq \<or> mType m = MsgVoteResp) \<and> mPreVote m"
proof -
  have "post (\<lambda>_ r'. rTerm r' = mTerm m \<or> (mType m = MsgVoteReq \<or> mType m = MsgVoteResp) \<and> mPreVote m)
      (\<lambda>_ _. True) (\<lambda>_. True) (stepHigherTerm S m r)"
    by (auto simp: stepHigherTerm_def intro: post_mono [OF persist_frame])
  with assms show ?thesis by simp
qed

lemma stepLowerTerm_calm:
  assumes "ninv h i t w r"
  shows "always (ninv h i t w) (stepLowerTerm m r)"
  using assms by (auto simp: stepLowerTerm_def intro!: send_calm)

lemma Step_ok:
  assumes n: "ninv h i t w r" and m: "msg_ok C h m"
  shows "run_ok h i (Step S m r)"
proof (cases "mTo m = i \<or> mTo m = None_id")
  case to: True
  have r: "rId r = i" "rTerm r = t" using n by (auto simp: node_inv_def)
  consider "t < mTerm m" | "mTerm m < t" | "mTerm m = t" using less_linear by blast
  then show ?thesis
  proof cases
    case 1
    have "run_ok h i (bind (stepHigherTerm S m r) (\<lambda>_ r. dispatch S m r))"
    proof (rule run_ok_seq [OF stepHigherTerm_ok [OF n 1]])
      fix h' t' w' a r' assume h': "extends i h h'" "ninv h' i t' w' r'" "stepHigherTerm S m r = Done a r'"
      have "rTerm r' = t'" using h'(2) by (simp add: node_inv_def)
      then show "run_ok h' i (dispatch S m r')"
        using stepHigherTerm_term [OF h'(3)] by (intro dispatch_ok [OF h'(2) msg_ok_extends [OF m h'(1)] to]) auto
    qed
    with 1 r to show ?thesis by (auto simp: Step_def)
  next
    case 2
    then show ?thesis
      using run_ok_calm [OF stepLowerTerm_calm [OF n]] r to by (auto simp: Step_def)
  next
    case 3
    then show ?thesis
      using dispatch_ok [OF n m to] r to by (auto simp: Step_def)
  qed
next
  case False
  moreover have "rId r = i" using n by (simp add: node_inv_def)
  ultimately show ?thesis
    using good_inv [OF n] node_good_safe [OF good_inv [OF n]] by (simp add: Step_def)
qed

lemma Tick_ok:
  assumes n: "ninv h i t w r"
  shows "run_ok h i (Tick S r)"
proof (cases "rState r = Leader")
  case True
  then show ?thesis using run_ok_calm [OF tickHeartbeat_calm [OF n]] by (simp add: Tick_def)
next
  case False
  have "ninv h i t w (r\<lparr>rElectionElapsed := e\<rparr>)" for e using n by simp
  then have c: "run_ok h i (campaign S pre (r\<lparr>rElectionElapsed := e\<rparr>))" "good h i (r\<lparr>rElectionElapsed := e\<rparr>)" for pre e
    by (auto intro: campaign_ok good_inv)
  then show ?thesis using False by (simp add: Tick_def tickElection_def Let_def)
qed

lemma NewRawNode_ok:
  assumes st: "store_inv hard snap plain C h i t w st" and cfg: "cfgID cfg = i" "Bootstrap cfg = C"
    and new: "NewRawNode S (Some st) rnd cfg = Ok r"
  shows "ninv h i t w r"
proof -
  have i: "i \<noteq> None_id" using new cfg(1) by (auto simp: NewRawNode_def validate_def split: if_splits)
  obtain l where l: "newRaftLog S st = Ok l" "storage l = st"
    by (auto simp: newRaftLog_def init_state Let_def)
  define q where "q = initial_node cfg (the rnd) (hard st) l"
  define q' where "q' = (if \<not> Configuration_IsEmpty (snapConfig (snap st))
     then q\<lparr>rConf := snapConfig (snap st), rConfIndex := LastIncludedIndex (snap st)\<rparr> else q)"
  have q': "ninv h i t w q'"
    using st cfg i l(2) by (auto simp: q'_def q_def initial_node_def node_inv_def store_inv_def conf_ok_def)
  have "(case refreshConfiguration S q' of Done _ r \<Rightarrow> Ok (becomeFollower (rTerm r) None_id r)
      | Fail e _ \<Rightarrow> Err e | Panic _ \<Rightarrow> Crash) = Ok r"
    using new l(1) by (auto simp: NewRawNode_def init_state q'_def q_def Let_def rbind_Ok_iff)
  then obtain r' where r': "refreshConfiguration S q' = Done () r'" "r = becomeFollower (rTerm r') None_id r'"
    by (cases "refreshConfiguration S q'") auto
  have "ninv h i t w r'" using refreshConfiguration_calm [OF q'] r'(1) by simp
  then show ?thesis using r'(2) node_inv_follower by (simp add: node_inv_def)
qed

end

end
