(* ===== verification/Raft_Cluster.thy ===== *)
theory Raft_Cluster
  imports Raft_Votes
begin

text \<open>
  A cluster of nodes over a network that loses, duplicates, delays and reorders: the messages ever sent
  stay available for delivery, in any order and any number of times. A node acts on the events its
  driver feeds it (\<open>node/node.go\<close>, \<open>run\<close>), may crash at any moment, and is started again from its
  store. An error the driver does not tolerate, and a panic, stop the node with whatever its store
  holds; messages not yet flushed are lost with it.

  The store of the concrete cluster is the in-memory one behind a power supply: it performs a number
  of writes and then panics, so that a node also dies between any two writes of one operation.
\<close>

datatype 's member = Up "'s RawNode" | Down 's

datatype event =
    EvTick
  | EvStep Message
  | EvPropose bytes
  | EvRead uint64
  | EvApply Index
  | EvSnapshot bytes
  | EvCampaign

text \<open>Drop the value a method returns; the cluster only follows states.\<close>

definition void :: "('a, 's) outcome \<Rightarrow> (unit, 's) outcome" where
  "void m = bind m (\<lambda>_ s. Done () s)"

fun perform :: "'s Storage \<Rightarrow> event \<Rightarrow> 's RawNode \<Rightarrow> (unit, 's RawNode) outcome" where
  "perform S EvTick r = Tick S r"
| "perform S (EvStep m) r = Step S m r"
| "perform S (EvPropose cmd) r = void (Propose S cmd r)"
| "perform S (EvRead i) r = ReadIndex S i r"
| "perform S (EvApply i) r = ApplyTo i r"
| "perform S (EvSnapshot data) r = void (CreateSnapshot S data r)"
| "perform S EvCampaign r = Campaign S r"

text \<open>Which errors stop the driver's loop.\<close>

fun stops :: "event \<Rightarrow> goerr \<Rightarrow> bool" where
  "stops (EvStep m) e = (e \<noteq> ErrIgnoredMessage)"
| "stops (EvPropose cmd) e = False"
| "stops (EvRead i) e = False"
| "stops (EvSnapshot data) e = (e \<noteq> ErrNothingToSnapshot \<and> e \<noteq> ErrSnapshotOutOfDate)"
| "stops _ e = True"

record 's cluster =
  members :: "NodeID \<Rightarrow> 's member"
  net :: "Message set"

definition set_member :: "NodeID \<Rightarrow> 's member \<Rightarrow> 's cluster \<Rightarrow> 's cluster" where
  "set_member i x c = c\<lparr>members := (members c)(i := x)\<rparr>"

inductive cstep :: "'s Storage \<Rightarrow> Configuration \<Rightarrow> ('s \<Rightarrow> 's \<Rightarrow> bool) \<Rightarrow> 's cluster \<Rightarrow> 's cluster \<Rightarrow> bool"
  for S C reboot where
  act: "members c i = Up r \<Longrightarrow> (\<And>m. ev = EvStep m \<Longrightarrow> m \<in> net c) \<Longrightarrow> perform S ev r = Done () r' \<Longrightarrow>
    cstep S C reboot c (set_member i (Up r') c)"
| tolerated: "members c i = Up r \<Longrightarrow> (\<And>m. ev = EvStep m \<Longrightarrow> m \<in> net c) \<Longrightarrow> perform S ev r = Fail e r' \<Longrightarrow>
    \<not> stops ev e \<Longrightarrow> cstep S C reboot c (set_member i (Up r') c)"
| stopped: "members c i = Up r \<Longrightarrow> (\<And>m. ev = EvStep m \<Longrightarrow> m \<in> net c) \<Longrightarrow> perform S ev r = Fail e r' \<Longrightarrow>
    stops ev e \<Longrightarrow> cstep S C reboot c (set_member i (Down (rStore r')) c)"
| panicked: "members c i = Up r \<Longrightarrow> (\<And>m. ev = EvStep m \<Longrightarrow> m \<in> net c) \<Longrightarrow> perform S ev r = Panic r' \<Longrightarrow>
    cstep S C reboot c (set_member i (Down (rStore r')) c)"
| flush: "members c i = Up r \<Longrightarrow> Messages r = (ms, r') \<Longrightarrow>
    cstep S C reboot c ((set_member i (Up r') c)\<lparr>net := net c \<union> set ms\<rparr>)"
| install: "members c i = Up r \<Longrightarrow> SnapshotToApply r = (sn, r') \<Longrightarrow> cstep S C reboot c (set_member i (Up r') c)"
| answer: "members c i = Up r \<Longrightarrow> ReadStates r = (rs, r') \<Longrightarrow> cstep S C reboot c (set_member i (Up r') c)"
| crash: "members c i = Up r \<Longrightarrow> cstep S C reboot c (set_member i (Down (rStore r)) c)"
| restart: "members c i = Down st \<Longrightarrow> reboot st st' \<Longrightarrow> cfgID cfg = i \<Longrightarrow> Bootstrap cfg = C \<Longrightarrow>
    NewRawNode S (Some st') rnd cfg = Ok r \<Longrightarrow> cstep S C reboot c (set_member i (Up r) c)"

definition leads :: "'s cluster \<Rightarrow> NodeID \<Rightarrow> Term \<Rightarrow> bool" where
  "leads c i t \<longleftrightarrow> (case members c i of Up r \<Rightarrow> rState r = Leader \<and> rTerm r = t | Down _ \<Rightarrow> False)"

section \<open>The cluster's invariant\<close>

definition member_inv ::
  "('s \<Rightarrow> HardState) \<Rightarrow> ('s \<Rightarrow> Snapshot) \<Rightarrow> ('s \<Rightarrow> bool) \<Rightarrow> Configuration \<Rightarrow> history \<Rightarrow> NodeID \<Rightarrow> 's member \<Rightarrow> bool" where
  "member_inv hard snap plain C h i x =
     (case x of Up r \<Rightarrow> \<exists>t w. node_inv hard snap plain C h i t w r
      | Down st \<Rightarrow> \<exists>t w. store_inv hard snap plain C h i t w st)"

definition cluster_inv ::
  "('s \<Rightarrow> HardState) \<Rightarrow> ('s \<Rightarrow> Snapshot) \<Rightarrow> ('s \<Rightarrow> bool) \<Rightarrow> Configuration \<Rightarrow> history \<Rightarrow> 's cluster \<Rightarrow> bool" where
  "cluster_inv hard snap plain C h c \<longleftrightarrow> (\<forall>m \<in> net c. msg_ok C h m) \<and>
     (\<forall>i. member_inv hard snap plain C h i (members c i))"

lemma store_inv_other:
  "store_inv hard snap plain C h j t w st \<Longrightarrow> extends i h h' \<Longrightarrow> j \<noteq> i \<Longrightarrow> store_inv hard snap plain C h' j t w st"
  by (simp add: store_inv_def own_votes_def extends_def)

lemma node_inv_other:
  assumes "node_inv hard snap plain C h j t w r" and "extends i h h'" and "j \<noteq> i"
  shows "node_inv hard snap plain C h' j t w r"
  using assms store_inv_other [OF _ assms(2,3)] msg_ok_extends [OF _ assms(2)] extends_Some [OF assms(2)]
  by (auto simp: node_inv_def intro: conf_quorum.mono)

lemma member_inv_other:
  "member_inv hard snap plain C h j x \<Longrightarrow> extends i h h' \<Longrightarrow> j \<noteq> i \<Longrightarrow> member_inv hard snap plain C h' j x"
  by (auto simp: member_inv_def split: member.splits intro: node_inv_other store_inv_other)

locale fixed_cluster = fixed_membership +
  fixes reboot :: "'a \<Rightarrow> 'a \<Rightarrow> bool"
  assumes reboot_keeps: "reboot st st' \<Longrightarrow> hard st' = hard st \<and> snap st' = snap st \<and> (plain st \<longrightarrow> plain st')"
begin

abbreviation cinv :: "history \<Rightarrow> 'a cluster \<Rightarrow> bool" where
  "cinv \<equiv> cluster_inv hard snap plain C"

lemma cinv_update:
  assumes c: "cinv h c" and e: "extends i h h'" and x: "member_inv hard snap plain C h' i x"
  shows "cinv h' (set_member i x c)"
proof -
  have "member_inv hard snap plain C h' j (members c j)" if "j \<noteq> i" for j
    by (rule member_inv_other [OF _ e that]) (use c in \<open>simp add: cluster_inv_def\<close>)
  then show ?thesis
    using c x msg_ok_extends [OF _ e] by (simp add: cluster_inv_def set_member_def)
qed

lemma cinv_good:
  assumes "cinv h c" and "good h i r"
  shows "\<exists>h'. extends i h h' \<and> cinv h' (set_member i (Up r) c)"
proof -
  obtain h' t w where "extends i h h'" "ninv h' i t w r"
    using assms(2) by (auto simp: node_good_def)
  then show ?thesis
    using cinv_update [OF assms(1), of i h' "Up r"] by (auto simp: member_inv_def)
qed

lemma cinv_safe:
  assumes "cinv h c" and "store_safe hard snap plain C h i st"
  shows "\<exists>h'. extends i h h' \<and> cinv h' (set_member i (Down st) c)"
proof -
  obtain h' t w where "extends i h h'" "store_inv hard snap plain C h' i t w st"
    using assms(2) by (auto simp: store_safe_def)
  then show ?thesis
    using cinv_update [OF assms(1), of i h' "Down st"] by (auto simp: member_inv_def)
qed

lemma cinv_up:
  assumes "cinv h c" and "members c i = Up r"
  obtains t w where "ninv h i t w r"
proof -
  have "member_inv hard snap plain C h i (members c i)" using assms(1) by (simp add: cluster_inv_def)
  then show thesis using assms(2) that by (auto simp: member_inv_def)
qed

lemma cinv_down:
  assumes "cinv h c" and "members c i = Down st"
  obtains t w where "store_inv hard snap plain C h i t w st"
proof -
  have "member_inv hard snap plain C h i (members c i)" using assms(1) by (simp add: cluster_inv_def)
  then show thesis using assms(2) that by (auto simp: member_inv_def)
qed

lemma void_always: "always I (void m) = always I m"
  by (simp add: void_def post_bind_iff)

lemma perform_ok:
  assumes n: "ninv h i t w r" and m: "\<And>m. ev = EvStep m \<Longrightarrow> msg_ok C h m"
  shows "post (\<lambda>_. good h i) (\<lambda>e r. safe h i r \<and> (\<not> stops ev e \<longrightarrow> good h i r)) (safe h i) (perform S ev r)"
proof -
  have calm: "post (\<lambda>_. good h i) (\<lambda>e r. safe h i r \<and> (\<not> stops ev e \<longrightarrow> good h i r)) (safe h i) x"
    if "always (ninv h i t w) x" for x :: "(unit, 'a RawNode) outcome"
    using that by (cases x) (auto dest: good_inv node_good_safe)
  show ?thesis
  proof (cases ev)
    case EvTick
    then show ?thesis using Tick_ok [OF n] by (auto elim: post_mono)
  next
    case (EvStep m)
    then show ?thesis using Step_ok [OF n assms(2) [OF EvStep]] by (auto elim: post_mono)
  next
    case (EvPropose cmd)
    then show ?thesis
      using propose_calm [OF n, of EntryNormal cmd] by (intro calm) (simp add: void_always Propose_def)
  next
    case (EvRead k)
    then show ?thesis using ReadIndex_calm [OF n] by (intro calm) simp
  next
    case (EvApply k)
    then show ?thesis using ApplyTo_calm [OF n] by (intro calm) simp
  next
    case (EvSnapshot data)
    then show ?thesis using CreateSnapshot_calm [OF n] by (intro calm) (simp add: void_always)
  next
    case EvCampaign
    then show ?thesis using campaign_ok [OF n, of "cfgPreVote (rCfg r)"] by (auto simp: Campaign_def elim: post_mono)
  qed
qed

lemma cinv_perform:
  assumes "cinv h c" and "members c i = Up r" and "\<And>m. ev = EvStep m \<Longrightarrow> m \<in> net c"
  shows "post (\<lambda>_. good h i) (\<lambda>e r. safe h i r \<and> (\<not> stops ev e \<longrightarrow> good h i r)) (safe h i) (perform S ev r)"
proof -
  obtain t w where "ninv h i t w r" using cinv_up [OF assms(1,2)] by blast
  moreover have "msg_ok C h m" if "ev = EvStep m" for m
    using assms(1) assms(3) [OF that] by (simp add: cluster_inv_def)
  ultimately show ?thesis by (rule perform_ok)
qed

lemma cinv_step:
  assumes "cstep S C reboot c c'" and c: "cinv h c"
  shows "\<exists>i h'. extends i h h' \<and> cinv h' c'"
  using assms(1)
proof cases
  case (act i r ev r')
  have "good h i r'" using cinv_perform [OF c act(2), of ev] act(3,4) by simp
  then show ?thesis unfolding act(1) using cinv_good [OF c] by blast
next
  case (tolerated i r ev e r')
  have "good h i r'" using cinv_perform [OF c tolerated(2), of ev] tolerated(3,4,5) by simp
  then show ?thesis unfolding tolerated(1) using cinv_good [OF c] by blast
next
  case (stopped i r ev e r')
  have "safe h i r'" using cinv_perform [OF c stopped(2), of ev] stopped(3,4,5) by simp
  then show ?thesis unfolding stopped(1) using cinv_safe [OF c] by blast
next
  case (panicked i r ev r')
  have "safe h i r'" using cinv_perform [OF c panicked(2), of ev] panicked(3,4) by simp
  then show ?thesis unfolding panicked(1) using cinv_safe [OF c] by blast
next
  case (flush i r ms r')
  obtain t w where n: "ninv h i t w r" using cinv_up [OF c flush(2)] by blast
  then have "\<forall>m \<in> set ms. msg_ok C h m" "ninv h i t w r'"
    using flush(3) by (auto simp: Messages_def node_inv_def)
  moreover have "cinv h (set_member i (Up r') c)"
    by (rule cinv_update [OF c extends_refl]) (use calculation in \<open>auto simp: member_inv_def\<close>)
  ultimately have "cinv h c'"
    using c flush(1) by (auto simp: cluster_inv_def)
  then show ?thesis using extends_refl by blast
next
  case (install i r sn r')
  obtain t w where "ninv h i t w r" using cinv_up [OF c install(2)] by blast
  then have "ninv h i t w r'" using install(3) by (auto simp: SnapshotToApply_def)
  then show ?thesis using cinv_good [OF c good_inv] install(1) by blast
next
  case (answer i r rs r')
  obtain t w where "ninv h i t w r" using cinv_up [OF c answer(2)] by blast
  then have "ninv h i t w r'" using answer(3) by (auto simp: ReadStates_def)
  then show ?thesis using cinv_good [OF c good_inv] answer(1) by blast
next
  case (crash i r)
  obtain t w where "ninv h i t w r" using cinv_up [OF c crash(2)] by blast
  then show ?thesis using cinv_safe [OF c node_good_safe [OF good_inv]] crash(1) by blast
next
  case (restart i st st' cfg rnd r)
  obtain t w where "store_inv hard snap plain C h i t w st" using cinv_down [OF c restart(2)] by blast
  then have "store_inv hard snap plain C h i t w st'"
    using reboot_keeps [OF restart(3)] by (simp add: store_inv_def)
  then show ?thesis
    using cinv_good [OF c good_inv [OF NewRawNode_ok [OF _ restart(4,5,6)]]] restart(1) by blast
qed

lemma cinv_steps:
  assumes "(cstep S C reboot)\<^sup>*\<^sup>* c c'" and "cinv h c"
  shows "\<exists>h'. (\<forall>v t x. h v t = Some x \<longrightarrow> h' v t = Some x) \<and> cinv h' c'"
  using assms
proof (induction rule: rtranclp_induct)
  case (step c' c'')
  then obtain h' where h': "\<forall>v t x. h v t = Some x \<longrightarrow> h' v t = Some x" "cinv h' c'" by blast
  then obtain i h'' where "extends i h' h''" "cinv h'' c''" using cinv_step [OF step(2)] by blast
  with h'(1) show ?case using extends_Some by blast
qed auto

lemma leads_quorum: "cinv h c \<Longrightarrow> leads c i t \<Longrightarrow> HasQuorum C (\<lambda>v. h v t = Some i)"
  by (auto simp: leads_def node_inv_def split: member.splits elim: cinv_up)

text \<open>Two leaders of one term, at the same or at different moments of a run, are the same node.\<close>

lemma one_leader_per_term:
  assumes "cinv h c" and "(cstep S C reboot)\<^sup>*\<^sup>* c c'" and "leads c i t" and "leads c' j t"
  shows "i = j"
proof -
  obtain h' where h': "\<forall>v t x. h v t = Some x \<longrightarrow> h' v t = Some x" "cinv h' c'"
    using cinv_steps [OF assms(2,1)] by blast
  have "HasQuorum C (\<lambda>v. h' v t = Some i)"
    using leads_quorum [OF assms(1,3)] h'(1) by (auto intro: conf_quorum.mono)
  moreover have "HasQuorum C (\<lambda>v. h' v t = Some j)"
    using leads_quorum [OF h'(2) assms(4)] .
  ultimately show ?thesis by (rule conf_quorum.unique_choice)
qed

lemma cinv_start:
  assumes "net c = {}" and "\<And>i. members c i = Down (st i)"
    and "\<And>i. plain (st i)" and "\<And>i. conf_ok C (snap (st i))" and "\<And>i. hsVote (hard (st i)) = None_id"
  shows "cinv (\<lambda>_ _. None) c"
  using assms by (simp add: cluster_inv_def member_inv_def store_inv_def own_votes_def)

end

section \<open>A store that loses power\<close>

text \<open>The store with a number of writes left before the process dies; reading needs no power.\<close>

definition powered :: "('s \<Rightarrow> (unit, 's) outcome) \<Rightarrow> 's \<times> nat \<Rightarrow> (unit, 's \<times> nat) outcome" where
  "powered f s =
     (if snd s = 0 then Panic s
      else case f (fst s) of
             Done u st \<Rightarrow> Done u (st, snd s - 1)
           | Fail e st \<Rightarrow> Fail e (st, snd s)
           | Panic st \<Rightarrow> Panic (st, snd s))"

lemma post_powered:
  "post Q E P (powered f s) \<longleftrightarrow> (if snd s = 0 then P s
     else post (\<lambda>u st. Q u (st, snd s - 1)) (\<lambda>e st. E e (st, snd s)) (\<lambda>st. P (st, snd s)) (f (fst s)))"
  by (cases "f (fst s)") (auto simp: powered_def)

definition with_power :: "'s Storage \<Rightarrow> ('s \<times> nat) Storage" where
  "with_power S =
     \<lparr>InitialState = (\<lambda>s. InitialState S (fst s)), SetHardState = (\<lambda>hs. powered (SetHardState S hs)),
      AppendEntries = (\<lambda>es. powered (AppendEntries S es)), GetEntry = (\<lambda>i s. GetEntry S i (fst s)),
      Entries = (\<lambda>lo hi s. Entries S lo hi (fst s)), FirstIndex = (\<lambda>s. FirstIndex S (fst s)),
      LastIndex = (\<lambda>s. LastIndex S (fst s)), TermAt = (\<lambda>i s. TermAt S i (fst s)),
      SaveSnapshot = (\<lambda>sn. powered (SaveSnapshot S sn)), LoadSnapshot = (\<lambda>s. LoadSnapshot S (fst s)),
      Compact = (\<lambda>i. powered (Compact S i))\<rparr>"

definition same_disk :: "'s \<times> nat \<Rightarrow> 's \<times> nat \<Rightarrow> bool" where
  "same_disk s s' \<longleftrightarrow> fst s' = fst s"

context durable_storage
begin

lemma power_cut_durable:
  "durable_storage (with_power S) (\<lambda>s. hard (fst s)) (\<lambda>s. snap (fst s)) (\<lambda>s. plain (fst s))"
proof unfold_locales
  show "post (\<lambda>_ s'. hard (fst s') = hs \<and> hsTerm (hard (fst s)) \<le> hsTerm hs \<and> snap (fst s') = snap (fst s) \<and>
      (plain (fst s) \<longrightarrow> plain (fst s'))) (\<lambda>e s'. s' = s \<and> e \<noteq> ErrIgnoredMessage) (\<lambda>s'. s' = s)
      (SetHardState (with_power S) hs s)" for hs s
    using set_hard_state [of hs "fst s"]
    by (auto simp: with_power_def post_powered prod_eq_iff elim!: post_mono)
  show "always (\<lambda>s'. hard (fst s') = hard (fst s) \<and> snap (fst s') = snap (fst s) \<and>
      (plain (fst s) \<and> plain_entries es \<longrightarrow> plain (fst s'))) (AppendEntries (with_power S) es s)" for es s
    using append_entries [of "fst s" es] by (simp add: with_power_def post_powered)
  show "always (\<lambda>s'. hard (fst s') = hard (fst s) \<and> snap (fst s') \<in> {snap (fst s), sn} \<and>
      (plain (fst s) \<longrightarrow> plain (fst s'))) (SaveSnapshot (with_power S) sn s)" for sn s
    using save_snapshot [of "fst s" sn] by (simp add: with_power_def post_powered)
  show "always (\<lambda>s'. hard (fst s') = hard (fst s) \<and> snap (fst s') = snap (fst s) \<and>
      (plain (fst s) \<longrightarrow> plain (fst s'))) (Compact (with_power S) i s)" for i s
    using compact [of "fst s" i] by (simp add: with_power_def post_powered)
qed (auto simp: with_power_def init_state load_snapshot dest: get_entry_plain entries_plain)

end

interpretation mem_power: durable_storage "with_power memory_storage"
    "\<lambda>s. msHardState (fst s)" "\<lambda>s. msSnapshot (fst s)" "\<lambda>s. mem_plain (fst s)"
  by (rule mem_durable.power_cut_durable)

text \<open>A membership of at least one voter, and any learners.\<close>

definition static_conf :: "NodeID \<Rightarrow> NodeID list \<Rightarrow> NodeID list \<Rightarrow> Configuration" where
  "static_conf v vs ls = NewConfiguration (v # vs) ls"

lemma static_conf_settled: "\<not> IsJoint (static_conf v vs ls)" "\<not> Configuration_IsEmpty (static_conf v vs ls)"
proof -
  have "Voters (static_conf v vs ls) = sortedUnique (v # vs)" "OldVoters (static_conf v vs ls) = []"
    by (simp_all add: static_conf_def NewConfiguration_def normalize_sel zeroConfiguration_def)
  then show "\<not> IsJoint (static_conf v vs ls)" "\<not> Configuration_IsEmpty (static_conf v vs ls)"
    by (simp_all add: IsJoint_def Configuration_IsEmpty_def)
qed

interpretation mem_cluster: fixed_cluster "with_power memory_storage"
    "\<lambda>s. msHardState (fst s)" "\<lambda>s. msSnapshot (fst s)" "\<lambda>s. mem_plain (fst s)" "static_conf v vs ls" same_disk
    for v vs ls
  by unfold_locales (simp_all add: static_conf_settled same_disk_def)

type_synonym mem_cluster = "(MemoryStorage \<times> nat) cluster"

text \<open>A cluster none of whose nodes has ever run; \<open>k i\<close> is the power node \<open>i\<close> starts with.\<close>

definition new_cluster :: "(NodeID \<Rightarrow> nat) \<Rightarrow> mem_cluster" where
  "new_cluster k = \<lparr>members = (\<lambda>i. Down (NewMemoryStorage, k i)), net = {}\<rparr>"

abbreviation runs :: "Configuration \<Rightarrow> mem_cluster \<Rightarrow> mem_cluster \<Rightarrow> bool" where
  "runs C \<equiv> (cstep (with_power memory_storage) C same_disk)\<^sup>*\<^sup>*"

lemma new_cluster_inv:
  "cluster_inv (\<lambda>s. msHardState (fst s)) (\<lambda>s. msSnapshot (fst s)) (\<lambda>s. mem_plain (fst s))
     (static_conf v vs ls) (\<lambda>_ _. None) (new_cluster k)"
  by (rule mem_cluster.cinv_start [where st = "\<lambda>i. (NewMemoryStorage, k i)"])
    (simp_all add: new_cluster_def NewMemoryStorage_def mem_plain_def zeroEntry_def conf_ok_def
      zeroSnapshot_def zeroConfiguration_def Configuration_IsEmpty_def zeroHardState_def)

section \<open>A run\<close>

text \<open>Three nodes: node 1 times out, node 2 grants its request, and node 1 leads term 1.\<close>

definition demo_cfg :: "NodeID \<Rightarrow> Config" where
  "demo_cfg i = \<lparr>cfgID = i, ElectionTick = 2, HeartbeatTick = 1, cfgPreVote = False,
     Bootstrap = static_conf 1 [2, 3] [], MaxApplyEntries = 0, MaxEntriesPerMessage = 0,
     SnapshotThreshold = 0, SnapshotCatchUpEntries = 0, SnapshotRetryHeartbeats = 0\<rparr>"

fun ok_or :: "'a \<Rightarrow> 'a result \<Rightarrow> 'a" where
  "ok_or d (Ok a) = a"
| "ok_or d _ = d"

fun is_ok :: "'a result \<Rightarrow> bool" where
  "is_ok (Ok a) = True"
| "is_ok _ = False"

fun is_done :: "('a, 's) outcome \<Rightarrow> bool" where
  "is_done (Done a s) = True"
| "is_done _ = False"

type_synonym mem_node = "(MemoryStorage \<times> nat) RawNode"

definition demo_boot :: "NodeID \<Rightarrow> mem_node result" where
  "demo_boot i = NewRawNode (with_power memory_storage) (Some (NewMemoryStorage, 9)) (Some (\<lambda>_ _. 0)) (demo_cfg i)"

definition demo_act :: "event \<Rightarrow> mem_node \<Rightarrow> mem_node" where
  "demo_act ev r = state_of (perform (with_power memory_storage) ev r)"

definition demo_flush :: "mem_node \<Rightarrow> mem_node" where
  "demo_flush r = r\<lparr>rMsgs := []\<rparr>"

definition demo_booted :: "NodeID \<Rightarrow> mem_node" where
  "demo_booted i = ok_or undefined (demo_boot i)"

definition demo_candidate :: mem_node where
  "demo_candidate = demo_act EvTick (demo_act EvTick (demo_booted 1))"

definition demo_voter :: mem_node where
  "demo_voter = demo_act (EvStep (hd (rMsgs demo_candidate))) (demo_booted 2)"

definition demo_leader :: mem_node where
  "demo_leader = demo_act (EvStep (hd (rMsgs demo_voter))) (demo_flush demo_candidate)"

lemma demo_run_facts:
  "is_ok (demo_boot 1)" "is_ok (demo_boot 2)"
  "is_done (perform (with_power memory_storage) EvTick (demo_booted 1))"
  "is_done (perform (with_power memory_storage) EvTick (demo_act EvTick (demo_booted 1)))"
  "is_done (perform (with_power memory_storage) (EvStep (hd (rMsgs demo_candidate))) (demo_booted 2))"
  "is_done (perform (with_power memory_storage) (EvStep (hd (rMsgs demo_voter))) (demo_flush demo_candidate))"
  "rMsgs demo_candidate \<noteq> []" "rMsgs demo_voter \<noteq> []"
  "rState demo_leader = Leader" "rTerm demo_leader = 1"
  by code_simp+

lemma demo_act_step:
  assumes "members c i = Up r" and "is_done (perform (with_power memory_storage) ev r)"
    and "\<And>m. ev = EvStep m \<Longrightarrow> m \<in> net c"
  shows "cstep (with_power memory_storage) C same_disk c (set_member i (Up (demo_act ev r)) c)"
  using assms(2) by (cases "perform (with_power memory_storage) ev r")
    (auto simp: demo_act_def intro!: cstep.act [OF assms(1,3)])

lemma demo_flush_step:
  assumes "members c i = Up r"
  shows "cstep S C reboot c ((set_member i (Up (demo_flush r)) c)\<lparr>net := net c \<union> set (rMsgs r)\<rparr>)"
  by (rule cstep.flush [OF assms]) (simp add: Messages_def demo_flush_def)

lemma demo_boot_step:
  assumes "members c i = Down (NewMemoryStorage, 9)" and "is_ok (demo_boot i)"
  shows "cstep (with_power memory_storage) (static_conf 1 [2, 3] []) same_disk c (set_member i (Up (demo_booted i)) c)"
proof -
  have "demo_boot i = Ok (demo_booted i)"
    using assms(2) by (cases "demo_boot i") (auto simp: demo_booted_def)
  then show ?thesis
    by (intro cstep.restart [OF assms(1), of _ "(NewMemoryStorage, 9)" "demo_cfg i"])
      (auto simp: same_disk_def demo_cfg_def demo_boot_def)
qed

lemma demo_run:
  "\<exists>c. runs (static_conf 1 [2, 3] []) (new_cluster (\<lambda>_. 9)) c \<and> leads c 1 1"
proof -
  let ?C = "static_conf 1 [2, 3] []"
  define c1 where "c1 = set_member 1 (Up (demo_booted 1)) (new_cluster (\<lambda>_. 9))"
  define c2 where "c2 = set_member 1 (Up (demo_act EvTick (demo_booted 1))) c1"
  define c3 where "c3 = set_member 1 (Up demo_candidate) c2"
  define c4 where "c4 = (set_member 1 (Up (demo_flush demo_candidate)) c3)\<lparr>net := net c3 \<union> set (rMsgs demo_candidate)\<rparr>"
  define c5 where "c5 = set_member 2 (Up (demo_booted 2)) c4"
  define c6 where "c6 = set_member 2 (Up demo_voter) c5"
  define c7 where "c7 = (set_member 2 (Up (demo_flush demo_voter)) c6)\<lparr>net := net c6 \<union> set (rMsgs demo_voter)\<rparr>"
  define c8 where "c8 = set_member 1 (Up demo_leader) c7"
  note defs = c1_def c2_def c3_def c4_def c5_def c6_def c7_def c8_def
  note at = set_member_def new_cluster_def
  have "runs ?C (new_cluster (\<lambda>_. 9)) c1"
    unfolding c1_def by (intro r_into_rtranclp demo_boot_step demo_run_facts) (simp add: at)
  also have "runs ?C c1 c2"
    unfolding c2_def by (intro r_into_rtranclp demo_act_step demo_run_facts) (auto simp: defs at)
  also have "runs ?C c2 c3"
    unfolding c3_def demo_candidate_def by (intro r_into_rtranclp demo_act_step demo_run_facts) (auto simp: defs at)
  also have "runs ?C c3 c4"
    unfolding c4_def by (intro r_into_rtranclp demo_flush_step) (simp add: defs at)
  also have "runs ?C c4 c5"
    unfolding c5_def by (intro r_into_rtranclp demo_boot_step demo_run_facts) (simp add: defs at)
  also have "runs ?C c5 c6"
    unfolding c6_def demo_voter_def
    by (intro r_into_rtranclp demo_act_step demo_run_facts) (use demo_run_facts(7) in \<open>auto simp: defs at\<close>)
  also have "runs ?C c6 c7"
    unfolding c7_def by (intro r_into_rtranclp demo_flush_step) (simp add: defs at)
  also have "runs ?C c7 c8"
    unfolding c8_def demo_leader_def
    by (intro r_into_rtranclp demo_act_step demo_run_facts) (use demo_run_facts(8) in \<open>auto simp: defs at\<close>)
  finally have "runs ?C (new_cluster (\<lambda>_. 9)) c8" .
  moreover have "leads c8 1 1"
    using demo_run_facts(9,10) by (simp add: leads_def c8_def set_member_def)
  ultimately show ?thesis by blast
qed

section \<open>Properties\<close>

text \<open>C1. Election safety: over a network that loses, duplicates, delays and reorders messages, with
  nodes that crash at any point, also between two writes to their store, and restart from it, a
  cluster of fixed membership has at most one leader in a term: whoever leads a term at one moment of
  a run and whoever leads it at the same or any later moment are the same node.\<close>

theorem election_safety:
  assumes "runs (static_conf v vs ls) (new_cluster k) c" and "runs (static_conf v vs ls) c c'"
    and "leads c i t" and "leads c' j t"
  shows "i = j"
proof -
  obtain h where "cluster_inv (\<lambda>s. msHardState (fst s)) (\<lambda>s. msSnapshot (fst s)) (\<lambda>s. mem_plain (fst s))
      (static_conf v vs ls) h c"
    using mem_cluster.cinv_steps [OF assms(1) new_cluster_inv] by blast
  then show ?thesis using mem_cluster.one_leader_per_term assms(2-4) by blast
qed

theorem election_safety_witness:
  "\<exists>c. runs (static_conf 1 [2, 3] []) (new_cluster (\<lambda>_. 9)) c \<and> {j. leads c j 1} = {1}"
proof -
  obtain c where c: "runs (static_conf 1 [2, 3] []) (new_cluster (\<lambda>_. 9)) c" "leads c 1 1"
    using demo_run by blast
  then have "{j. leads c j 1} = {1}"
    using election_safety [OF c(1) rtranclp.rtrancl_refl c(2)] by auto
  with c(1) show ?thesis by blast
qed

end
