(* ===== verification/Raft_Frame.thy ===== *)
theory Raft_Frame
  imports Raft_Cluster
begin

text \<open>
  Invariants that do not depend on the contents of the log. A predicate on nodes that looks only at
  the identity, the configuration, the two log indices, the waiting reads and the election timer, and
  that survives the few primitive changes to those, survives every event, whatever the storage does:
  errors, panics and all (locale \<open>node_frame\<close>). The sweep over the operations is done once here, for any
  such predicate; the theory then uses it three times, for the indices of the log, for the indices of
  waiting reads, and for the range of the election timer.
\<close>

definition soft_eq :: "'s RawNode \<Rightarrow> 's RawNode \<Rightarrow> bool" where
  "soft_eq r r' \<longleftrightarrow> rId r' = rId r \<and> rCfg r' = rCfg r \<and> committed (rLog r') = committed (rLog r) \<and>
     applied (rLog r') = applied (rLog r) \<and> rRandomizedElectionTimeout r' = rRandomizedElectionTimeout r \<and>
     rRand r' = rRand r \<and> rPendingReads r' = rPendingReads r \<and> rReadStates r' = rReadStates r"

abbreviation with_log :: "('s raftLog \<Rightarrow> 's raftLog) \<Rightarrow> 's RawNode \<Rightarrow> 's RawNode" where
  "with_log f r \<equiv> r\<lparr>rLog := f (rLog r)\<rparr>"

text \<open>\<open>A\<close> holds the identifiers that new reads may have.\<close>

locale node_frame =
  fixes S :: "'s Storage" and A :: "uint64 set" and J :: "'s RawNode \<Rightarrow> bool"
  assumes soft: "J r \<Longrightarrow> soft_eq r r' \<Longrightarrow> J r'"
    and commit: "J r \<Longrightarrow> committed (rLog r) \<le> c \<Longrightarrow> J (with_log (\<lambda>l. l\<lparr>committed := c\<rparr>) r)"
    and apply_up: "J r \<Longrightarrow> applied (rLog r) \<le> a \<Longrightarrow> a \<le> committed (rLog r) \<Longrightarrow> J (with_log (\<lambda>l. l\<lparr>applied := a\<rparr>) r)"
    and restore: "J r \<Longrightarrow> committed (rLog r) < c \<Longrightarrow> J (with_log (\<lambda>l. l\<lparr>committed := c, applied := c\<rparr>) r)"
    and timeout: "J r \<Longrightarrow> J (resetRandomizedElectionTimeout r)"
    and drop_reads: "J r \<Longrightarrow> J (dropPendingReads r)"
    and drain_reads: "J r \<Longrightarrow> J (r\<lparr>rReadStates := []\<rparr>)"
    and ack: "J r \<Longrightarrow> J (ackRead i k r)"
    and ask: "J r \<Longrightarrow> k \<in> A \<Longrightarrow> J (r\<lparr>rPendingReads := rPendingReads r @ [\<lparr>rrId = k, rrIndex = rCommitted r, rrAcks = acks\<rparr>]\<rparr>)"
    and confirm: "J r \<Longrightarrow> k \<in> A \<Longrightarrow> J (r\<lparr>rReadStates := rReadStates r @ [\<lparr>rsID = k, rsIndex = rCommitted r\<rparr>]\<rparr>)"
begin

section \<open>Primitive changes\<close>

lemma J_send: "J r \<Longrightarrow> J (send m r)"
  by (erule soft) (simp add: soft_eq_def send_def)

lemma J_set_progress: "J r \<Longrightarrow> J (set_progress i p r)"
  by (erule soft) (simp add: soft_eq_def set_progress_def)

lemma J_reset: "J r \<Longrightarrow> J (reset t r)"
proof -
  assume "J r"
  then have "J (dropPendingReads (resetRandomizedElectionTimeout r))" by (intro drop_reads timeout)
  then show ?thesis
    by (rule soft) (simp add: soft_eq_def reset_def Let_def dropPendingReads_def resetRandomizedElectionTimeout_def)
qed

lemma J_update:
  "J r \<Longrightarrow> J (r\<lparr>rState := a\<rparr>)" "J r \<Longrightarrow> J (r\<lparr>rLead := b\<rparr>)" "J r \<Longrightarrow> J (r\<lparr>rVote := b\<rparr>)" "J r \<Longrightarrow> J (r\<lparr>rVotes := v\<rparr>)"
  "J r \<Longrightarrow> J (r\<lparr>rProgress := p\<rparr>)" "J r \<Longrightarrow> J (r\<lparr>rElectionElapsed := n\<rparr>)" "J r \<Longrightarrow> J (r\<lparr>rHeartbeatElapsed := n\<rparr>)"
  "J r \<Longrightarrow> J (r\<lparr>rAppliedSnapshot := sn\<rparr>)"
  "J r \<Longrightarrow> J (r\<lparr>rMsgs := ms\<rparr>)" "J r \<Longrightarrow> J (r\<lparr>rConf := cf\<rparr>)" "J r \<Longrightarrow> J (r\<lparr>rConfIndex := ix\<rparr>)" "J r \<Longrightarrow> J (r\<lparr>rPersisted := hs\<rparr>)"
  by (erule soft; simp add: soft_eq_def)+

lemma J_store: "J r \<Longrightarrow> J (with_log (\<lambda>l. l\<lparr>storage := st\<rparr>) r)"
  by (erule soft) (simp add: soft_eq_def)

lemma J_becomeFollower: "J r \<Longrightarrow> J (becomeFollower t l r)"
  unfolding becomeFollower_def by (intro J_update J_reset)

lemmas J_intros = J_send J_set_progress J_reset J_update J_becomeFollower

text \<open>Whatever a method of the store does, only the store's state changes.\<close>

lemma on_store_frame: "J r \<Longrightarrow> always J (on_store r m)"
  by (cases m) (simp_all add: on_store_def J_store)

lemma embed_store_frame:
  "J (r\<lparr>rLog := l\<rparr>) \<Longrightarrow> always (\<lambda>l. J (r\<lparr>rLog := l\<rparr>)) (embed (\<lambda>st. l\<lparr>storage := st\<rparr>) m)"
  using J_store [of "r\<lparr>rLog := l\<rparr>"] by (cases m) simp_all

lemma persisted_frame: "J r \<Longrightarrow> always J (persistHardState S r)"
  unfolding persistHardState_def Let_def
  by (auto simp del: post_on_store intro!: post_seq [OF on_store_frame] J_intros)

lemma log_append_frame: "J (r\<lparr>rLog := l\<rparr>) \<Longrightarrow> always (\<lambda>l. J (r\<lparr>rLog := l\<rparr>)) (log_append S es l)"
  by (simp add: log_append_def embed_store_frame)

lemma commitTo_frame: "J (r\<lparr>rLog := l\<rparr>) \<Longrightarrow> always (\<lambda>l. J (r\<lparr>rLog := l\<rparr>)) (commitTo S i l)"
  using commit [of "r\<lparr>rLog := l\<rparr>" i] by (simp add: commitTo_def)

lemma on_log_frame: "always (\<lambda>l. J (r\<lparr>rLog := l\<rparr>)) m \<Longrightarrow> always J (on_log r m)"
  by simp

section \<open>Sending\<close>

lemma sendSnapshot_frame: "J r \<Longrightarrow> always J (sendSnapshot S i r)"
  by (auto simp: sendSnapshot_def split: option.splits result.splits intro!: J_intros)

lemma sendAppendWithRead_frame: "J r \<Longrightarrow> always J (sendAppendWithRead S i k r)"
  using sendSnapshot_frame
  by (auto simp: sendAppendWithRead_def Let_def split: option.splits result.splits intro!: J_intros)

lemma sendAppend_frame: "J r \<Longrightarrow> always J (sendAppend S i r)"
  by (simp add: sendAppend_def sendAppendWithRead_frame)

lemma broadcast_frame: "J r \<Longrightarrow> always J (broadcastAppend S r)"
  unfolding broadcastAppend_def by (rule for_each_inv) (auto intro: sendAppend_frame)

lemma expire_frame: "J r \<Longrightarrow> J (expirePendingSnapshots r)"
proof -
  have "J r \<Longrightarrow> J (fold (expire_pending k) is r)" for k "is"
    by (induction "is" arbitrary: r) (auto simp: expire_pending_def Let_def split: option.splits intro!: J_intros)
  then show "J r \<Longrightarrow> ?thesis" by (simp add: expirePendingSnapshots_def Let_def)
qed

section \<open>Configurations, proposals and commits\<close>

lemma setConfiguration_frame: "J r \<Longrightarrow> J (setConfiguration S c i r)"
  by (auto simp: setConfiguration_def refreshProgress_def Let_def split: option.splits intro!: J_intros)

lemma refreshConfiguration_frame: "J r \<Longrightarrow> always J (refreshConfiguration S r)"
  unfolding refreshConfiguration_def
  by (rule post_seq [OF always_lift]) (auto split: option.splits result.splits intro!: setConfiguration_frame)

lemma refreshIfNeeded_frame: "J r \<Longrightarrow> always J (refreshConfigurationIfNeeded S es r)"
  by (simp add: refreshConfigurationIfNeeded_def Let_def refreshConfiguration_frame)

lemma stepDown_frame: "J r \<Longrightarrow> J (stepDownIfRemoved r)"
  by (simp add: stepDownIfRemoved_def J_becomeFollower)

lemma record_self_frame: "J r \<Longrightarrow> J (record_self i r)"
  by (auto simp: record_self_def split: option.splits intro!: J_intros)

lemma advance_with_frame:
  assumes "J r" and "\<And>r. J r \<Longrightarrow> always J (leave r)"
  shows "always J (maybeAdvanceCommit_with leave S r)"
proof -
  have "always J (bind (on_log r (commitTo S c (rLog r))) (\<lambda>_ r. bind (persistHardState S r) (\<lambda>_ r.
      bind (leave r) (\<lambda>_ r. Done True (stepDownIfRemoved r)))))" if "J r" for c r
    by (rule post_seq [OF on_log_frame [OF commitTo_frame]], simp add: that, rule post_seq [OF persisted_frame], assumption,
        rule post_seq [OF assms(2)]) (simp_all add: stepDown_frame)
  then show ?thesis
    using assms(1) by (auto simp: maybeAdvanceCommit_with_def Let_def simp del: post_on_log intro!: post_seq [OF always_lift])
qed

lemma propose_with_frame:
  assumes "J r" and "\<And>r. J r \<Longrightarrow> always J (leave r)"
  shows "always J (propose_with leave S ty cmd r)"
proof -
  have tail: "always J (bind (maybeAdvanceCommit_with leave S (record_self i r)) (\<lambda>_ r.
      bind (broadcastAppend S r) (\<lambda>_ r. Done x r)))" if "J r" for i x r
    by (rule post_seq [OF advance_with_frame [OF record_self_frame [OF that] assms(2)]], assumption,
        rule post_seq [OF broadcast_frame]) auto
  have mid: "always J (bind (if ty = EntryConfChange then refreshConfiguration S r else Done () r) (\<lambda>_ r.
      bind (maybeAdvanceCommit_with leave S (record_self i r)) (\<lambda>_ r. bind (broadcastAppend S r) (\<lambda>_ r. Done x r))))"
    if "J r" for i x r
    by (rule post_seq [where J = J]) (auto simp: that refreshConfiguration_frame intro: tail)
  show ?thesis
    unfolding propose_with_def Let_def
    using assms(1) by (auto simp del: post_on_log intro!: post_seq [OF on_log_frame [OF log_append_frame]] mid)
qed

lemma leaveJoint_frame: "J r \<Longrightarrow> always J (leaveJoint n S r)"
proof (induction n arbitrary: r)
  case (Suc n)
  have "always J (case propose_with (leaveJoint n S) S EntryConfChange c r of Done _ r \<Rightarrow> Done () r
      | Fail err r \<Rightarrow> if err = ErrNotLeader then Done () r else Fail err r | Panic r \<Rightarrow> Panic r)" if "J r" for c r
  proof -
    have "always J (propose_with (leaveJoint n S) S EntryConfChange c r)"
      using that by (rule propose_with_frame) (rule Suc.IH)
    then show ?thesis by (cases "propose_with (leaveJoint n S) S EntryConfChange c r") auto
  qed
  then show ?case
    using Suc.prems by (auto simp: maybeLeaveJoint_with_def intro!: post_seq [OF always_lift])
qed simp

lemma advance_frame: "J r \<Longrightarrow> always J (maybeAdvanceCommit S r)"
  unfolding maybeAdvanceCommit_def maybeLeaveJoint_def by (rule advance_with_frame) (auto intro: leaveJoint_frame)

lemma propose_frame: "J r \<Longrightarrow> always J (propose S ty cmd r)"
  unfolding propose_def maybeLeaveJoint_def by (rule propose_with_frame) (auto intro: leaveJoint_frame)

lemma ProposeConfChange_frame: "J r \<Longrightarrow> always J (ProposeConfChange S target r)"
  unfolding ProposeConfChange_def
  by (auto intro!: post_seq [OF always_lift] propose_frame split: result.splits)

section \<open>Reads and responses\<close>

lemma reads_frame: "J r \<Longrightarrow> always J (for_each (\<lambda>peer. sendAppendWithRead S peer k) ps r)"
  by (rule for_each_inv) (auto intro: sendAppendWithRead_frame)

lemma ReadIndex_frame: "J r \<Longrightarrow> k \<in> A \<Longrightarrow> always J (ReadIndex S k r)"
  unfolding ReadIndex_def Let_def
  by (auto intro!: post_seq [OF always_lift] reads_frame ask confirm)

lemma advance_match_frame: "J r \<Longrightarrow> always J (advance_match S pr m r)"
  by (auto simp: advance_match_def Let_def sendAppend_frame broadcast_frame
      intro!: post_seq [OF advance_frame] J_intros)

lemma handleAppendResponse_frame: "J r \<Longrightarrow> always J (handleAppendResponse S m r)"
  unfolding handleAppendResponse_def Let_def
  by (auto split: option.splits intro!: post_seq [OF always_lift] advance_match_frame sendAppend_frame J_intros ack)

lemma handleSnapshotResponse_frame: "J r \<Longrightarrow> always J (handleSnapshotResponse S m r)"
  by (auto simp: handleSnapshotResponse_def Let_def split: option.splits intro!: advance_match_frame J_intros)

section \<open>Requests of a leader\<close>

lemma maybeAppend_frame: "J r \<Longrightarrow> always J (on_log r (maybeAppend S p pt lc es (rLog r)))"
proof -
  let ?I = "\<lambda>l. J (r\<lparr>rLog := l\<rparr>)"
  assume "J r"
  then have start: "?I (rLog r)" by simp
  have fin: "always ?I (bind (commitTo S j l) (\<lambda>_ l. Done x l))" if "?I l" for j x l
    by (rule post_seq [OF commitTo_frame [OF that]]) simp
  have w: "always ?I (write_from_conflict S p es c l)" if "?I l" for c l
    using that log_append_frame by (auto simp: write_from_conflict_def intro!: post_seq [OF always_lift])
  have tail: "always ?I (bind (write_from_conflict S p es c l) (\<lambda>_ l. bind (commitTo S j l) (\<lambda>_ l. Done x l)))"
    if "?I l" for c j x l
    by (rule post_seq [OF w [OF that] fin])
  have "always ?I (maybeAppend S p pt lc es (rLog r))"
    unfolding maybeAppend_def Let_def
    by (rule post_seq [OF always_lift]) (use start tail in \<open>auto intro!: post_seq [OF always_lift]\<close>)
  then show ?thesis by simp
qed

lemma hear_leader_frame: "J r \<Longrightarrow> J (hear_leader m r)"
  unfolding hear_leader_def Let_def by (auto intro!: J_intros)

lemma answer_frame: "J r \<Longrightarrow> always J (answer_append S m res r)"
proof -
  have "always J (bind (persistHardState S r) (\<lambda>_ r. Done () (send x r)))" if "J r" for x r
    by (rule post_seq [OF persisted_frame [OF that]]) (auto intro!: J_intros)
  then show "J r \<Longrightarrow> ?thesis"
    by (auto simp: answer_append_def intro!: post_seq [OF always_lift] post_seq [OF refreshIfNeeded_frame] J_intros)
qed

lemma handleAppendRequest_frame: "J r \<Longrightarrow> always J (handleAppendRequest S m r)"
  unfolding handleAppendRequest_def Let_def
  using hear_leader_frame
  by (auto simp del: post_on_log intro!: post_seq [OF maybeAppend_frame] answer_frame J_send)

lemma restore_frame: "J r \<Longrightarrow> always J (on_log r (log_restore S sn (rLog r)))"
proof -
  let ?I = "\<lambda>l. J (r\<lparr>rLog := l\<rparr>)"
  assume "J r"
  then have start: "?I (rLog r)" by simp
  have e: "always (\<lambda>l. ?I l \<and> committed l = committed (rLog r)) (embed (\<lambda>st. (rLog r)\<lparr>storage := st\<rparr>) (SaveSnapshot S sn (rStore r)))"
    using J_store [OF \<open>J r\<close>] by (cases "SaveSnapshot S sn (rStore r)") simp_all
  have "always ?I (bind (embed (\<lambda>st. (rLog r)\<lparr>storage := st\<rparr>) (SaveSnapshot S sn (rStore r)))
      (\<lambda>_ l. Done () (l\<lparr>committed := LastIncludedIndex sn, applied := LastIncludedIndex sn\<rparr>)))"
    if "\<not> LastIncludedIndex sn \<le> committed (rLog r)"
  proof -
    have k: "?I (l\<lparr>committed := LastIncludedIndex sn, applied := LastIncludedIndex sn\<rparr>)"
      if "?I l \<and> committed l = committed (rLog r)" for l
      using that restore [of "r\<lparr>rLog := l\<rparr>" "LastIncludedIndex sn"] \<open>\<not> LastIncludedIndex sn \<le> committed (rLog r)\<close> by simp
    show ?thesis
      using e k by (cases "SaveSnapshot S sn (rStore r)") auto
  qed
  then have "always ?I (log_restore S sn (rLog r))" using start by (simp add: log_restore_def)
  then show ?thesis by simp
qed

lemma install_frame: "J r \<Longrightarrow> always J (install_snapshot S m sn r)"
  unfolding install_snapshot_def Let_def
  by (rule post_seq [OF persisted_frame]) (auto intro!: J_intros setConfiguration_frame)

lemma handleSnapshotRequest_frame: "J r \<Longrightarrow> always J (handleSnapshotRequest S m r)"
proof -
  assume "J r"
  then have n: "J (hear_leader m r)" by (rule hear_leader_frame)
  show ?thesis
  proof (cases "mSnapshot m")
    case (Some sn)
    then show ?thesis
      using restore_frame [OF n, of sn] n install_frame
      by (cases "on_log (hear_leader m r) (log_restore S sn (rLog (hear_leader m r)))")
        (auto simp: handleSnapshotRequest_def Let_def simp del: post_on_log intro!: J_send)
  qed (use n in \<open>simp add: handleSnapshotRequest_def Let_def\<close>)
qed

section \<open>Elections\<close>

lemma becomeLeader_frame: "J r \<Longrightarrow> always J (becomeLeader S r)"
proof -
  have tail: "always J (bind (maybeAdvanceCommit S (record_self i r)) (\<lambda>_ r. bind (persistHardState S r) (\<lambda>_ r. broadcastAppend S r)))"
    if "J r" for i r
    by (rule post_seq [OF advance_frame [OF record_self_frame [OF that]]], rule post_seq [OF persisted_frame], assumption)
      (rule broadcast_frame)
  assume "J r"
  then have l: "J ((reset (rTerm r) r)\<lparr>rState := Leader, rLead := rId r, rProgress := p, rLog := rLog r\<rparr>)" for p
    by (rule soft [OF J_reset]) (simp add: soft_eq_def)
  show ?thesis
    unfolding becomeLeader_def Let_def
    using \<open>J r\<close> l by (auto simp del: post_on_log intro!: post_seq [OF on_log_frame [OF log_append_frame]] tail)
qed

lemma campaign_start_frame: "J r \<Longrightarrow> always J (campaign_start S pre r)"
proof -
  assume "J r"
  have "J (resetRandomizedElectionTimeout (r\<lparr>rState := PreCandidate, rVotes := Map.empty, rLead := None_id\<rparr>))"
    using \<open>J r\<close> by (intro timeout J_update)
  moreover have "J ((reset (rTerm r + 1) r)\<lparr>rState := Candidate, rVote := rId r\<rparr>)"
    using \<open>J r\<close> by (intro J_update J_reset)
  then have "always J (bind (persistHardState S ((reset (rTerm r + 1) r)\<lparr>rState := Candidate, rVote := rId r\<rparr>)) (\<lambda>_ r'. Done x r'))" for x :: Term
    by (rule post_seq [OF persisted_frame]) simp
  ultimately show ?thesis
    using \<open>J r\<close> by (simp add: campaign_start_def becomePreCandidate_def becomeCandidate_def)
qed

lemma request_votes_frame: "J r \<Longrightarrow> always J (request_votes S pre t r)"
  unfolding request_votes_def
  by (rule post_seq [OF always_lift], assumption, rule for_each_inv) (auto intro!: J_send)

lemma recordVote_frame: "J r \<Longrightarrow> J (recordVote i g r)"
  by (simp add: recordVote_def J_update)

lemma tally_final_frame:
  assumes "J r" and "rState r \<noteq> PreCandidate"
  shows "always J (tallyVotes S r)"
  using assms by (subst tallyVotes.simps) (auto intro!: post_seq [OF becomeLeader_frame] J_becomeFollower)

lemma campaign_frame_if:
  assumes "J r" and tally: "\<And>r. J r \<Longrightarrow> rState r = (if pre then PreCandidate else Candidate) \<Longrightarrow> always J (tallyVotes S r)"
  shows "always J (campaign S pre r)"
proof (cases "campaign_start S pre r")
  case (Done t r')
  then have n: "J (recordVote (rId r') True r')" "rState (recordVote (rId r') True r') = (if pre then PreCandidate else Candidate)"
    using campaign_start_frame [OF assms(1), of pre] campaign_start_state [OF Done] by (simp_all add: recordVote_frame)
  have "always J (bind (tallyVotes S (recordVote (rId r') True r')) (\<lambda>decided r. if decided then Done () r else request_votes S pre t r))"
    by (rule post_seq [OF tally [OF n]]) (simp add: request_votes_frame)
  with Done assms(1) show ?thesis by (subst campaign.simps) simp
qed (use campaign_start_frame [OF assms(1), of pre] assms(1) in \<open>subst campaign.simps; simp\<close>)+

lemma tally_frame:
  assumes "J r"
  shows "always J (tallyVotes S r)"
proof (cases "rState r = PreCandidate")
  case True
  have "always J (campaign S False r)"
    using assms by (rule campaign_frame_if) (simp add: tally_final_frame)
  with True assms show ?thesis
    by (subst tallyVotes.simps) (auto intro!: post_seq J_becomeFollower)
qed (rule tally_final_frame [OF assms])

lemma campaign_frame: "J r \<Longrightarrow> always J (campaign S pre r)"
  by (rule campaign_frame_if) (auto intro: tally_frame)

lemma handleVoteRequest_frame: "J r \<Longrightarrow> always J (handleVoteRequest S m r)"
proof -
  assume "J r"
  have vote: "always J (bind (if granted \<and> \<not> mPreVote m then persistHardState S (r\<lparr>rVote := mFrom m, rElectionElapsed := 0\<rparr>)
      else Done () r) (\<lambda>_ r. Done () (send (vote_response m granted (rTerm r)) r)))" if "J r" for granted r
    by (rule post_seq [where J = J]) (use that in \<open>auto intro!: persisted_frame J_intros\<close>)
  show ?thesis
    unfolding handleVoteRequest_def
    by (rule post_seq [where J = J]) (use \<open>J r\<close> vote in \<open>auto intro: always_lift\<close>)
qed

lemma handleVoteResponse_frame: "J r \<Longrightarrow> always J (handleVoteResponse S m r)"
  unfolding handleVoteResponse_def by (auto intro!: post_seq [OF tally_frame] recordVote_frame)

section \<open>Events\<close>

lemma Tick_frame: "J r \<Longrightarrow> always J (Tick S r)"
proof -
  have "always J (for_each (\<lambda>req r. for_each (\<lambda>peer. sendAppendWithRead S peer (rrId req)) (Peers (rConf r) (rId r)) r) reqs r)"
    if "J r" for reqs r
    using that by (rule for_each_inv) (rule reads_frame)
  then show "J r \<Longrightarrow> ?thesis"
    unfolding Tick_def tickHeartbeat_def tickElection_def Let_def
    by (auto intro!: post_seq [OF broadcast_frame] expire_frame campaign_frame J_update)
qed

lemma dispatch_frame: "J r \<Longrightarrow> always J (dispatch S m r)"
  by (auto simp: dispatch_def handleVoteRequest_frame handleVoteResponse_frame handleAppendRequest_frame
      handleAppendResponse_frame handleSnapshotRequest_frame handleSnapshotResponse_frame split: MessageType.splits)

lemma Step_frame: "J r \<Longrightarrow> always J (Step S m r)"
proof -
  have "always J (stepHigherTerm S m r)" if "J r" for r
    using that by (auto simp: stepHigherTerm_def intro!: persisted_frame J_becomeFollower)
  moreover have "always J (stepLowerTerm m r)" if "J r" for r
    using that by (auto simp: stepLowerTerm_def intro!: J_send)
  ultimately show "J r \<Longrightarrow> ?thesis"
    by (auto simp: Step_def dispatch_frame intro!: post_seq)
qed

lemma CreateSnapshot_frame: "J r \<Longrightarrow> always J (CreateSnapshot S data r)"
proof -
  assume "J r"
  have cut: "always J (bind (on_log r (log_compact S c (rLog r))) (\<lambda>_ r. Done x r))" if "J r" for c x r
    by (rule post_seq [OF on_log_frame]) (use that embed_store_frame [where r = r and l = "rLog r"] in \<open>auto simp: log_compact_def\<close>)
  have save: "always J (bind (on_store r (SaveSnapshot S sn (rStore r))) (\<lambda>_ r.
      (let keep = SnapshotCatchUpEntries (rCfg r); compactTo = (if keep > 0 then d - keep else d)
       in if keep > 0 \<and> d \<le> keep then Done sn r
          else if compactTo \<le> firstIndex S (rLog r) - 1 then Done sn r
          else bind (on_log r (log_compact S compactTo (rLog r))) (\<lambda>_ r. Done sn r))))" if "J r" for sn d r
    by (rule post_seq [OF on_store_frame [OF that]]) (auto simp: Let_def simp del: post_on_log intro: cut)
  show ?thesis
    unfolding CreateSnapshot_def
    using \<open>J r\<close> save by (auto simp: Let_def simp del: post_on_log post_on_store intro!: post_seq [OF always_lift])
qed

lemma ApplyTo_frame: "J r \<Longrightarrow> always J (ApplyTo i r)"
  using apply_up [of r i] by (auto simp: ApplyTo_def appliedTo_def)

lemma perform_frame: "J r \<Longrightarrow> (\<And>k. ev = EvRead k \<Longrightarrow> k \<in> A) \<Longrightarrow> always J (perform S ev r)"
  by (cases ev) (auto simp: void_def Propose_def Campaign_def Tick_frame Step_frame ReadIndex_frame ApplyTo_frame campaign_frame
      intro!: post_seq [OF propose_frame] post_seq [OF CreateSnapshot_frame])

end

section \<open>The indices of the log\<close>

text \<open>Since node \<open>r0\<close>: still the same node, neither index has gone back, and nothing uncommitted is applied.\<close>

definition advanced :: "'s RawNode \<Rightarrow> 's RawNode \<Rightarrow> bool" where
  "advanced r0 r \<longleftrightarrow> rId r = rId r0 \<and> committed (rLog r0) \<le> committed (rLog r) \<and> applied (rLog r0) \<le> applied (rLog r) \<and>
     applied (rLog r) \<le> committed (rLog r)"

interpretation indices: node_frame S A "advanced r0" for S A r0
  by unfold_locales (auto simp: advanced_def soft_eq_def resetRandomizedElectionTimeout_def dropPendingReads_def ackRead_def
      split: prod.splits)

section \<open>The indices of waiting reads\<close>

text \<open>Whatever read \<open>k\<close> is told, it is not told less than \<open>c\<close>.\<close>

definition reads_above :: "uint64 \<Rightarrow> Index \<Rightarrow> 's RawNode \<Rightarrow> bool" where
  "reads_above k c r \<longleftrightarrow> c \<le> rCommitted r \<and> (\<forall>q \<in> set (rPendingReads r). rrId q = k \<longrightarrow> c \<le> rrIndex q) \<and>
     (\<forall>s \<in> set (rReadStates r). rsID s = k \<longrightarrow> c \<le> rsIndex s)"

lemma ack_loop_index:
  assumes "ack_loop cf i k qs = (left, confirmed)"
  shows "\<forall>q \<in> set left. \<exists>q' \<in> set qs. rrId q' = rrId q \<and> rrIndex q' = rrIndex q"
    and "\<forall>s \<in> set confirmed. \<exists>q' \<in> set qs. rrId q' = rsID s \<and> rrIndex q' = rsIndex s"
  using assms by (induction qs arbitrary: left confirmed) (auto simp: Let_def split: if_splits prod.splits)

interpretation reads: node_frame S A "reads_above k c" for S A k c
proof
  fix r :: "'a RawNode" and i j
  assume "reads_above k c r"
  then show "reads_above k c (ackRead i j r)"
    by (fastforce simp: reads_above_def ackRead_def split: prod.splits dest: ack_loop_index)
qed (auto simp: reads_above_def soft_eq_def resetRandomizedElectionTimeout_def dropPendingReads_def)

text \<open>No read has an identifier above \<open>q\<close>.\<close>

definition reads_upto :: "uint64 \<Rightarrow> 's RawNode \<Rightarrow> bool" where
  "reads_upto q r \<longleftrightarrow> (\<forall>x \<in> set (rPendingReads r). rrId x \<le> q) \<and> (\<forall>x \<in> set (rReadStates r). rsID x \<le> q)"

interpretation read_ids: node_frame S "{.. q}" "reads_upto q" for S q
proof
  fix r :: "'a RawNode" and i j
  assume "reads_upto q r"
  then show "reads_upto q (ackRead i j r)"
    by (fastforce simp: reads_upto_def ackRead_def split: prod.splits dest: ack_loop_index)
qed (auto simp: reads_upto_def soft_eq_def resetRandomizedElectionTimeout_def dropPendingReads_def)

section \<open>The election timer\<close>

text \<open>What \<open>Intn\<close> promises, and what it gives: the election period and less than another on top, added in Go's \<open>int\<close>.\<close>

definition fair_rand :: "Rand \<Rightarrow> bool" where
  "fair_rand f \<longleftrightarrow> (\<forall>k n. 0 < n \<longrightarrow> 0 \<le> f k n \<and> f k n < n)"

definition timer_ok :: "'s RawNode \<Rightarrow> bool" where
  "timer_ok r \<longleftrightarrow> fair_rand (rRand r) \<and> 0 < ElectionTick (rCfg r) \<and>
     (\<exists>x. 0 \<le> x \<and> x < ElectionTick (rCfg r) \<and> rRandomizedElectionTimeout r = wrap_int (ElectionTick (rCfg r) + x))"

interpretation timer: node_frame S A timer_ok for S A
proof
  fix r :: "'a RawNode"
  assume "timer_ok r"
  then show "timer_ok (resetRandomizedElectionTimeout r)"
    by (auto simp: timer_ok_def resetRandomizedElectionTimeout_def fair_rand_def)
qed (auto simp: timer_ok_def soft_eq_def dropPendingReads_def ackRead_def split: prod.splits)

section \<open>Runs of one node\<close>

text \<open>
  Everything its driver does to a node: any event, whatever comes of it, and the three calls that take
  something away. \<open>A\<close> holds the identifiers of the reads among the events.
\<close>

inductive node_runs :: "'s Storage \<Rightarrow> uint64 set \<Rightarrow> 's RawNode \<Rightarrow> 's RawNode \<Rightarrow> bool" for S A r where
  start: "node_runs S A r r"
| event: "node_runs S A r r' \<Longrightarrow> (\<And>k. ev = EvRead k \<Longrightarrow> k \<in> A) \<Longrightarrow> node_runs S A r (state_of (perform S ev r'))"
| conf_change: "node_runs S A r r' \<Longrightarrow> node_runs S A r (state_of (ProposeConfChange S target r'))"
| drain: "node_runs S A r r' \<Longrightarrow> Messages r' = (ms, r'') \<Longrightarrow> node_runs S A r r''"
| reads: "node_runs S A r r' \<Longrightarrow> ReadStates r' = (rs, r'') \<Longrightarrow> node_runs S A r r''"
| snapshot: "node_runs S A r r' \<Longrightarrow> SnapshotToApply r' = (sn, r'') \<Longrightarrow> node_runs S A r r''"

context node_frame
begin

lemma runs_frame: "node_runs S A r r' \<Longrightarrow> J r \<Longrightarrow> J r'"
proof (induction rule: node_runs.induct)
  case (event r' ev)
  then show ?case using perform_frame [of r' ev] by (simp add: always_state_of)
next
  case (conf_change r' target)
  then show ?case using ProposeConfChange_frame [of r' target] by (simp add: always_state_of)
qed (auto simp: Messages_def ReadStates_def SnapshotToApply_def J_update drain_reads)

end

lemma NewRawNode_timer:
  assumes "NewRawNode S (Some st) (Some rnd) cfg = Ok r" and "fair_rand rnd"
  shows "timer_ok r \<and> rCfg r = cfg"
proof -
  have v: "0 < ElectionTick cfg"
    using assms(1) by (auto simp: NewRawNode_def validate_def rbind_Ok_iff split: if_splits)
  have keep: "always (\<lambda>r'. rRand r' = rRand r0 \<and> rCfg r' = rCfg r0) (refreshConfiguration S r0)" for r0 :: "'a RawNode"
    by (auto simp: refreshConfiguration_def post_bind_iff post_lift_iff setConfiguration_def refreshProgress_def Let_def
        split: option.splits result.splits)
  obtain r1 where "r = becomeFollower (rTerm r1) None_id r1" "rRand r1 = rnd" "rCfg r1 = cfg"
  proof (rule NewRawNode_Ok [OF assms(1)])
    fix hs snap rlog r0 r1
    assume r0: "r0 = (if \<not> Configuration_IsEmpty (snapConfig snap)
       then (initial_node cfg rnd hs rlog)\<lparr>rConf := snapConfig snap, rConfIndex := LastIncludedIndex snap\<rparr>
       else initial_node cfg rnd hs rlog)"
      and r1: "refreshConfiguration S r0 = Done () r1" "r = becomeFollower (rTerm r1) None_id r1"
    have "rRand r0 = rnd" "rCfg r0 = cfg" by (simp_all add: r0 initial_node_def)
    with keep [of r0] r1 show thesis by (intro that [of r1]) auto
  qed
  then show ?thesis
    using assms(2) v
    by (auto simp: timer_ok_def becomeFollower_def reset_def Let_def dropPendingReads_def resetRandomizedElectionTimeout_def fair_rand_def)
qed

section \<open>Properties\<close>

text \<open>C9. What is committed stays committed and what is applied stays applied: whatever happens to a node,
  over any storage, including errors and panics in the middle of an operation, its commit index and
  its applied index never decrease, and it never applies past what is committed.\<close>

theorem indices_never_decrease:
  assumes "node_runs S A r r'" and "applied (rLog r) \<le> committed (rLog r)"
  shows "committed (rLog r) \<le> committed (rLog r') \<and> applied (rLog r) \<le> applied (rLog r') \<and>
    applied (rLog r') \<le> committed (rLog r')"
  using indices.runs_frame [OF assms(1), of r] assms(2) by (simp add: advanced_def)

theorem indices_never_decrease_witness:
  "committed (rLog demo_leader) \<le> committed (rLog (demo_act (EvPropose [1]) demo_leader)) \<and>
   rState (demo_act (EvPropose [1]) demo_leader) = Leader"
proof -
  have "node_runs (with_power memory_storage) {} demo_leader (demo_act (EvPropose [1]) demo_leader)"
    unfolding demo_act_def by (rule node_runs.event [OF node_runs.start]) simp
  moreover have "applied (rLog demo_leader) \<le> committed (rLog demo_leader)"
    "rState (demo_act (EvPropose [1]) demo_leader) = Leader"
    by code_simp+
  ultimately show ?thesis using indices_never_decrease by blast
qed

text \<open>C14. The election timeout is always in range: in every state of a node that was started with a fair
  source of randomness and an election period of at most 2 to the 62 ticks, it lies between one and two
  election periods, so followers wait at least the one and at most the other. For a longer period, which
  \<open>validate\<close> accepts, the sum can wrap around, and the bound is all that the wrapped sum gives.\<close>

theorem election_timeout_bounds:
  assumes "NewRawNode S (Some st) (Some rnd) cfg = Ok r" and "fair_rand rnd" and "node_runs S A r r'"
  shows "(\<exists>x. 0 \<le> x \<and> x < ElectionTick (rCfg r') \<and> rRandomizedElectionTimeout r' = wrap_int (ElectionTick (rCfg r') + x)) \<and>
    (ElectionTick (rCfg r') \<le> 2 ^ 62 \<longrightarrow>
      ElectionTick (rCfg r') \<le> rRandomizedElectionTimeout r' \<and> rRandomizedElectionTimeout r' < 2 * ElectionTick (rCfg r'))"
proof -
  have "timer_ok r'" using timer.runs_frame [OF assms(3)] NewRawNode_timer [OF assms(1,2)] by blast
  then obtain x where x: "0 \<le> x" "x < ElectionTick (rCfg r')" "rRandomizedElectionTimeout r' = wrap_int (ElectionTick (rCfg r') + x)"
    by (auto simp: timer_ok_def)
  moreover have "wrap_int (ElectionTick (rCfg r') + x) = ElectionTick (rCfg r') + x" if "ElectionTick (rCfg r') \<le> 2 ^ 62"
    using that x(1,2) by (intro wrap_int_id) simp_all
  ultimately show ?thesis by auto
qed

theorem election_timeout_bounds_witness:
  "2 \<le> rRandomizedElectionTimeout demo_candidate \<and> rRandomizedElectionTimeout demo_candidate < 4"
proof -
  let ?S = "with_power memory_storage"
  have "NewRawNode ?S (Some (NewMemoryStorage, 9)) (Some (\<lambda>_ _. 0)) (demo_cfg 1) = Ok (demo_booted 1)"
    using demo_run_facts(1) by (cases "demo_boot 1") (auto simp: demo_booted_def demo_boot_def)
  moreover have "fair_rand (\<lambda>_ _. 0)" by (simp add: fair_rand_def)
  moreover have "node_runs ?S {} (demo_booted 1) demo_candidate"
    unfolding demo_candidate_def demo_act_def by (intro node_runs.event node_runs.start) simp_all
  moreover have "ElectionTick (rCfg demo_candidate) = 2" by code_simp
  ultimately show ?thesis
    using election_timeout_bounds [of ?S "(NewMemoryStorage, 9)" "\<lambda>_ _. 0" "demo_cfg 1" "demo_booted 1" "{}" demo_candidate] by simp
qed

end
