(* ===== verification/Raft_Safety.thy ===== *)
theory Raft_Safety
  imports Raft_Frame
begin

text \<open>
  What one node guarantees: the depth of the circle between proposing, committing and leaving a joint
  configuration, the commit rule, the confirmation of reads, what a follower does with an append
  request, and what is handed to the state machine. The lemmas on the log hold for every store that
  keeps the contract \<open>log_storage\<close>; the properties state them for the in-memory store.
\<close>

section \<open>The depth of calls\<close>

lemma leaveJoint_simple [simp]: "\<not> IsJoint (rConf r) \<Longrightarrow> leaveJoint (Suc n) S r = Done () r"
  by (simp add: maybeLeaveJoint_with_def)

lemma persist_conf: "persistHardState S r = Done u r' \<Longrightarrow> rConf r' = rConf r"
  using persist_frame [of r S] by auto

lemma advance_with_cong:
  assumes "\<And>r'. rConf r' = rConf r \<Longrightarrow> leave r' = leave' r'"
  shows "maybeAdvanceCommit_with leave S r = maybeAdvanceCommit_with leave' S r"
  unfolding maybeAdvanceCommit_with_def Let_def
  by (intro if_cong refl bind_cong) (auto dest!: lift_Done persist_conf simp: on_log_def commitTo_def assms split: if_splits)

lemma record_self_conf [simp]: "rConf (record_self i r) = rConf r"
  by (simp add: record_self_def split: option.splits)

lemma propose_with_cong:
  assumes "\<And>r1 r2 u. on_log r (log_append S [\<lparr>eTerm = rTerm r, eIndex = lastIndex S (rLog r) + 1,
      eType = EntryConfChange, eCommand = cmd\<rparr>] (rLog r)) = Done () r1 \<Longrightarrow> refreshConfiguration S r1 = Done u r2 \<Longrightarrow>
      \<not> IsJoint (rConf r2)"
    and "\<And>r'. \<not> IsJoint (rConf r') \<Longrightarrow> leave r' = leave' r'"
  shows "propose_with leave S EntryConfChange cmd r = propose_with leave' S EntryConfChange cmd r"
proof -
  have "maybeAdvanceCommit_with leave S (record_self i r2) = maybeAdvanceCommit_with leave' S (record_self i r2)"
    if "\<not> IsJoint (rConf r2)" for i r2
    by (rule advance_with_cong) (simp add: that assms(2))
  then show ?thesis
    unfolding propose_with_def Let_def
    by (intro if_cong refl bind_cong) (auto dest: assms(1))
qed

lemma IsJoint_setConfiguration [simp]: "IsJoint (rConf (setConfiguration S c i r)) = IsJoint c"
  by (auto simp: setConfiguration_def refreshProgress_def Let_def IsJoint_def Configuration_Equal_def split: option.splits)

lemma length_sortedUnique: "length (sortedUnique ids) \<le> length ids"
  using remdups_adj_length [of "sort ids"] by (simp add: sortedUnique_def)

lemma LeaveJoint_encodable:
  assumes "LeaveJoint c = Ok cc" and "encodable_conf c"
  shows "encodable_conf (ccConfig cc)"
proof -
  have cc: "ccConfig cc = normalize \<lparr>Voters = Voters c, OldVoters = [], Learners = Learners c\<rparr>"
    using assms(1) by (auto simp: LeaveJoint_def Let_def Validate_def zeroConfiguration_def split: if_splits)
  have "length (Learners (ccConfig cc)) \<le> length (Learners c)"
    using order_trans [OF length_filter_le length_sortedUnique] by (simp add: cc normalize_sel)
  moreover have "length (Voters (ccConfig cc)) \<le> length (Voters c)" "OldVoters (ccConfig cc) = []"
    by (simp_all add: cc normalize_sel length_sortedUnique)
  ultimately show ?thesis using assms(2) by (simp add: encodable_conf_def)
qed

context log_storage
begin

text \<open>The configuration change a leader has just appended is the one in force.\<close>

lemma append_one:
  assumes i: "inv (storage l)" and big: "aLast (abs (storage l)) + 2 < 2 ^ 64" and e: "eIndex e = lastIndex S l + 1"
    and d: "log_append S [e] l = Done () l'"
  shows "inv (storage l') \<and> lastIndex S l' = lastIndex S l + 1 \<and> GetEntry S (lastIndex S l') (storage l') = Ok e \<and>
    firstIndex S l' = firstIndex S l"
proof -
  let ?a = "abs (storage l)"
  have n: "unat (eIndex e) = aLast ?a + 1"
    using lastIndex_eq [OF i] big e by (simp add: unat_Suc_uint64)
  then have f: "fits [e]" using big by (simp add: fits_def)
  obtain st' where st': "AppendEntries S [e] (storage l) = Done () st'" "l' = l\<lparr>storage := st'\<rparr>"
    using d by (cases "AppendEntries S [e] (storage l)") (auto simp: log_append_def split: if_splits)
  have v: "inv st'" using append_inv [OF i f] st'(1) by simp
  have "a_append [e] ?a = Done () (abs st')" using append [OF i f] st'(1) by simp
  moreover have "aBase ?a \<le> aLast ?a" by (simp add: aLast_def)
  ultimately have a': "abs st' = ?a\<lparr>aEnts := aEnts ?a @ [e]\<rparr>"
    using n by (auto simp: a_append_def Let_def aLast_def)
  then have l1: "unat (lastIndex S l') = aLast ?a + 1"
    using lastIndex_eq [of l'] v st'(2) by (simp add: aLast_def)
  then have "lastIndex S l' = lastIndex S l + 1"
    using n e by (simp add: uint64_eq_iff)
  moreover have "GetEntry S (lastIndex S l') (storage l') = Ok e"
    using get_entry [OF v, of "lastIndex S l'"] l1 st'(2) a' by (simp add: a_get_def aLast_def)
  moreover have "firstIndex S l' = firstIndex S l"
    using firstIndex_eq [of l'] firstIndex_eq [OF i] v st'(2) a' by (simp add: uint64_eq_iff)
  ultimately show ?thesis using v st'(2) by simp
qed

lemma leave_depth:
  assumes i: "inv (rStore r)" and big: "aLast (abs (rStore r)) + 2 < 2 ^ 64" and enc: "encodable_conf (rConf r)"
  shows "leaveJoint (Suc (Suc n)) S r = leaveJoint 2 S r"
proof -
  have "propose_with (leaveJoint (Suc n) S) S EntryConfChange (Encode cc) r =
      propose_with (leaveJoint (Suc 0) S) S EntryConfChange (Encode cc) r"
    if cc: "LeaveJoint (rConf r) = Ok cc" for cc
  proof (rule propose_with_cong)
    fix r1 r2 u
    let ?e = "\<lparr>eTerm = rTerm r, eIndex = lastIndex S (rLog r) + 1, eType = EntryConfChange, eCommand = Encode cc\<rparr>"
    assume a: "on_log r (log_append S [?e] (rLog r)) = Done () r1" and b: "refreshConfiguration S r1 = Done u r2"
    obtain l' where l': "log_append S [?e] (rLog r) = Done () l'" "r1 = r\<lparr>rLog := l'\<rparr>"
      using a by (cases "log_append S [?e] (rLog r)") (auto simp: on_log_def)
    have ap: "lastIndex S l' = lastIndex S (rLog r) + 1" "firstIndex S l' = firstIndex S (rLog r)"
      and get: "GetEntry S (lastIndex S l') (storage l') = Ok ?e"
      using append_one [OF i big _ l'(1)] by auto
    have "unat (lastIndex S (rLog r)) + 1 < 2 ^ 64" using lastIndex_eq [OF i] big by simp
    then have "unat (lastIndex S l') = aLast (abs (rStore r)) + 1"
      using ap lastIndex_eq [OF i] by (simp add: unat_Suc_uint64)
    moreover have "unat (firstIndex S l') = aBase (abs (rStore r)) + 1"
      using ap firstIndex_eq [OF i] by simp
    ultimately have "firstIndex S l' \<le> lastIndex S l'" "lastIndex S l' > 0"
      by (simp_all add: uint64_le_iff uint64_less_iff aLast_def)
    moreover have "DecodeConfChange (Encode cc) = Ok cc"
      using Decode_Encode [of cc "[]"] LeaveJoint_encodable [OF cc enc] LeaveJoint_Ok(6) [OF cc] by (simp add: normalize_id)
    ultimately have "find_conf S l' (lastIndex S l') = Ok (Some (cc, lastIndex S l'))"
      using get by (subst find_conf.simps) simp
    then have "r2 = setConfiguration S (ccConfig cc) (lastIndex S l') r1"
      using b l'(2) by (simp add: refreshConfiguration_def)
    then show "\<not> IsJoint (rConf r2)" using LeaveJoint_Ok(5) [OF cc] by simp
  qed (simp del: leaveJoint.simps)
  then show ?thesis
    unfolding numeral_2_eq_2 leaveJoint.simps maybeLeaveJoint_with_def
    by (intro if_cong refl bind_cong) (auto dest!: lift_Done)
qed

end

section \<open>The commit rule\<close>

definition may_commit :: "'s Storage \<Rightarrow> 's RawNode \<Rightarrow> Index \<Rightarrow> bool" where
  "may_commit S r c \<longleftrightarrow> rState r = Leader \<and> rCommitted r < c \<and> log_term S (rLog r) c = Ok (rTerm r) \<and>
     HasQuorum (rConf r) (\<lambda>i. c \<le> matched r i)"

lemma leave_advances:
  assumes "c \<le> rCommitted r"
  shows "always (\<lambda>r'. c \<le> rCommitted r' \<and> (\<not> IsJoint (rConf r) \<longrightarrow> rCommitted r' = rCommitted r)) (maybeLeaveJoint S r)"
proof (cases "IsJoint (rConf r)")
  case True
  have "node_frame UNIV (\<lambda>r :: 'a RawNode. c \<le> rCommitted r)"
    by unfold_locales (auto simp: soft_eq_def resetRandomizedElectionTimeout_def dropPendingReads_def ackRead_def split: prod.splits)
  then have "always (\<lambda>r. c \<le> rCommitted r) (leaveJoint 2 S r)"
    using assms by (rule node_frame.leaveJoint_frame)
  with True show ?thesis by (simp add: maybeLeaveJoint_def)
qed (use assms in \<open>simp add: maybeLeaveJoint_def numeral_2_eq_2 del: leaveJoint.simps\<close>)

lemma stepDown_committed [simp]: "rLog (stepDownIfRemoved r) = rLog r"
  by (simp add: stepDownIfRemoved_def)

lemma advance_commit_rule:
  assumes "Voters (rConf r) \<noteq> []"
  shows "always (\<lambda>r'. rCommitted r' = rCommitted r \<or>
      (\<exists>c. may_commit S r c \<and> c \<le> rCommitted r' \<and> (\<not> IsJoint (rConf r) \<longrightarrow> rCommitted r' = c)))
    (maybeAdvanceCommit S r)"
proof -
  let ?c = "CommittedIndex (rConf r) (matched r)"
  let ?Q = "\<lambda>r'. ?c \<le> rCommitted r' \<and> (\<not> IsJoint (rConf r) \<longrightarrow> rCommitted r' = ?c)"
  have q: "HasQuorum (rConf r) (\<lambda>i. ?c \<le> matched r i)" by (rule CommittedIndex_reached [OF assms])
  have tail: "always ?Q (bind (persistHardState S r1) (\<lambda>_ r. bind (maybeLeaveJoint S r) (\<lambda>_ r. Done True (stepDownIfRemoved r))))"
    if "rCommitted r1 = ?c" "rConf r1 = rConf r" for r1 :: "'a RawNode"
  proof (rule post_seq [where J = "\<lambda>r'. rCommitted r' = ?c \<and> rConf r' = rConf r"])
    show "post (\<lambda>_ r'. rCommitted r' = ?c \<and> rConf r' = rConf r) (\<lambda>_. ?Q) ?Q (persistHardState S r1)"
      by (rule post_mono [OF persist_frame]) (use that in auto)
    fix r2 :: "'a RawNode" assume r2: "rCommitted r2 = ?c \<and> rConf r2 = rConf r"
    show "always ?Q (bind (maybeLeaveJoint S r2) (\<lambda>_ r. Done True (stepDownIfRemoved r)))"
      by (rule post_seq [where J = ?Q]) (use leave_advances [of ?c r2 S] r2 in \<open>auto elim!: post_mono\<close>)
  qed
  show ?thesis
  proof (cases "rState r = Leader \<and> \<not> ?c \<le> rCommitted r \<and> log_term S (rLog r) ?c = Ok (rTerm r) \<and> \<not> ?c > lastIndex S (rLog r)")
    case True
    then have "may_commit S r ?c" using q by (simp add: may_commit_def not_le)
    moreover have "maybeAdvanceCommit S r = bind (persistHardState S (r\<lparr>rLog := (rLog r)\<lparr>committed := ?c\<rparr>\<rparr>))
        (\<lambda>_ r. bind (maybeLeaveJoint S r) (\<lambda>_ r. Done True (stepDownIfRemoved r)))"
      using True by (simp add: maybeAdvanceCommit_def maybeAdvanceCommit_with_def Let_def on_log_def commitTo_def)
    ultimately show ?thesis
      using tail [of "r\<lparr>rLog := (rLog r)\<lparr>committed := ?c\<rparr>\<rparr>"] by (auto elim!: post_mono)
  next
    case False
    then show ?thesis
      by (cases "log_term S (rLog r) ?c")
        (auto simp: maybeAdvanceCommit_def maybeAdvanceCommit_with_def Let_def on_log_def commitTo_def)
  qed
qed

section \<open>Reads\<close>

text \<open>What a sequence of acknowledgements does to a read that is waiting.\<close>

definition waiting :: "uint64 \<Rightarrow> readRequest \<Rightarrow> 's RawNode \<Rightarrow> bool" where
  "waiting k req r \<longleftrightarrow> rrId req = k \<and> \<not> HasQuorum (rConf r) (rrAcks req) \<and>
     (\<exists>before after. rPendingReads r = before @ req # after \<and> (\<forall>q \<in> set before. rrId q \<noteq> k))"

lemma ack_loop_split:
  assumes "\<forall>q \<in> set before. rrId q \<noteq> k" and "rrId req = k"
  shows "ack_loop c i k (before @ req # after) =
    (if HasQuorum c ((rrAcks req)(i := True)) then (before @ after, [\<lparr>rsID = k, rsIndex = rrIndex req\<rparr>])
     else (before @ req\<lparr>rrAcks := (rrAcks req)(i := True)\<rparr> # after, []))"
  using assms by (induction before) (auto simp: Let_def)

lemma ackRead_waiting:
  assumes "waiting k req r"
  shows "if HasQuorum (rConf r) ((rrAcks req)(i := True))
    then rReadStates (ackRead i k r) = rReadStates r @ [\<lparr>rsID = k, rsIndex = rrIndex req\<rparr>]
    else waiting k (req\<lparr>rrAcks := (rrAcks req)(i := True)\<rparr>) (ackRead i k r) \<and>
      rReadStates (ackRead i k r) = rReadStates r"
proof -
  obtain before after where b: "rPendingReads r = before @ req # after" "\<forall>q \<in> set before. rrId q \<noteq> k"
    using assms by (auto simp: waiting_def)
  have k: "rrId req = k" using assms by (simp add: waiting_def)
  show ?thesis
    using ack_loop_split [OF b(2) k, of "rConf r" i after] b k by (auto simp: ackRead_def waiting_def)
qed

lemma ackRead_keeps [simp]: "rConf (ackRead i k r) = rConf r" "rCommitted (ackRead i k r) = rCommitted r"
  by (simp_all add: ackRead_def split: prod.splits)

lemma ackRead_states: "set (rReadStates r) \<subseteq> set (rReadStates (ackRead i k r))"
  by (auto simp: ackRead_def split: prod.splits)

lemma acks_states: "set (rReadStates r) \<subseteq> set (rReadStates (fold (\<lambda>i. ackRead i k) is r))"
  by (induction "is" arbitrary: r) (auto dest: subsetD [OF ackRead_states])

lemma acks_confirm:
  assumes "waiting k req r"
  shows "if HasQuorum (rConf r) (\<lambda>n. rrAcks req n \<or> n \<in> set is)
    then \<lparr>rsID = k, rsIndex = rrIndex req\<rparr> \<in> set (rReadStates (fold (\<lambda>i. ackRead i k) is r))
    else rReadStates (fold (\<lambda>i. ackRead i k) is r) = rReadStates r"
  using assms
proof (induction "is" arbitrary: req r)
  case Nil
  then show ?case by (simp add: waiting_def)
next
  case (Cons i "is")
  let ?acks = "(rrAcks req)(i := True)"
  have same: "(\<lambda>n. ?acks n \<or> n \<in> set is) = (\<lambda>n. rrAcks req n \<or> n \<in> set (i # is))" by auto
  show ?case
  proof (cases "HasQuorum (rConf r) ?acks")
    case True
    then have "HasQuorum (rConf r) (\<lambda>n. rrAcks req n \<or> n \<in> set (i # is))"
      by (rule conf_quorum.mono) (auto split: if_splits)
    moreover have "\<lparr>rsID = k, rsIndex = rrIndex req\<rparr> \<in> set (rReadStates (ackRead i k r))"
      using ackRead_waiting [OF Cons.prems, of i] True by simp
    ultimately show ?thesis using acks_states by fastforce
  next
    case False
    then have "waiting k (req\<lparr>rrAcks := ?acks\<rparr>) (ackRead i k r)" "rReadStates (ackRead i k r) = rReadStates r"
      using ackRead_waiting [OF Cons.prems, of i] by simp_all
    then show ?thesis using Cons.IH [of "req\<lparr>rrAcks := ?acks\<rparr>" "ackRead i k r"] same by (simp split: if_splits)
  qed
qed

section \<open>What a follower does with an append request\<close>

lemma readIDs_error: "readIDs b = Err e \<Longrightarrow> \<exists>x. e = ErrMsg x"
proof -
  have loop: "read_id_loop n ids b = Err e \<Longrightarrow> \<exists>x. e = ErrMsg x" for n ids b
    by (induction n ids b rule: read_id_loop.induct) (auto simp: Let_def split: prod.splits if_splits)
  show "readIDs b = Err e \<Longrightarrow> ?thesis"
    by (auto simp: readIDs_def Let_def make_NodeIDs_def dest: loop split: prod.splits if_splits)
qed

lemma find_conf_error: "find_conf S l i = Err e \<Longrightarrow> e \<noteq> ErrSafetyViolation"
proof (induction S l i rule: find_conf.induct)
  case (1 S l i)
  have "DecodeConfChange b \<noteq> Err ErrSafetyViolation" for b
    using readIDs_error by (auto simp: DecodeConfChange_def rbind_Err_iff split: list.splits)
  with 1 show ?case
    by (subst (asm) find_conf.simps) (auto simp: rbind_Err_iff split: if_splits result.splits)
qed

lemma conflictHint_no_error: "conflictHint S l p \<noteq> Err e"
proof -
  have "conflict_loop S l t i \<noteq> Err e" for t i
  proof (induction S l t i rule: conflict_loop.induct)
    case (1 S l t i)
    then show ?case by (subst conflict_loop.simps) (auto split: result.splits)
  qed
  then show ?thesis by (auto simp: conflictHint_def rbind_Err_iff split: result.splits)
qed

context log_storage
begin

lemma persist_log: "always (\<lambda>r'. rCommitted r' = rCommitted r \<and> applied (rLog r') = applied (rLog r) \<and>
    (log_ok abs inv (rLog r) \<longrightarrow> log_ok abs inv (rLog r'))) (persistHardState S r)"
proof -
  have "always (\<lambda>st. store_ok abs inv st \<and> aSnap (abs st) = aSnap (abs (rStore r)) \<and> aLast (abs st) = aLast (abs (rStore r)))
      (SetHardState S hs (rStore r))" if "store_ok abs inv (rStore r)" for hs
  proof -
    have i: "inv (rStore r)" using that by (simp add: store_ok_def)
    show ?thesis
      using set_hard [OF i, of hs] set_hard_inv [OF i, of hs] that
      by (cases "SetHardState S hs (rStore r)") (auto simp: a_set_hard_def store_ok_def aLast_def split: if_splits)
  qed
  note keep = this
  show ?thesis
  proof (cases "log_ok abs inv (rLog r)")
    case True
    then have "store_ok abs inv (rStore r)" by (simp add: log_ok_def)
    from post_mono [OF keep [OF this]] True show ?thesis
      by (simp add: persistHardState_def Let_def post_bind_iff log_ok_def)
  next
    case False
    then show ?thesis using persist_frame [of r S] by (auto elim!: post_mono)
  qed
qed

lemma setConfiguration_log [simp]: "rLog (setConfiguration S' c i r) = rLog r"
  by (auto simp: setConfiguration_def refreshProgress_def Let_def split: option.splits)

lemma persist_error: "persistHardState S r = Fail e r' \<Longrightarrow> log_ok abs inv (rLog r) \<Longrightarrow> e \<noteq> ErrSafetyViolation"
  using set_hard [of "rStore r" "\<lparr>hsTerm = rTerm r, hsVote = rVote r, hsCommit = rCommitted r\<rparr>"]
  by (cases "SetHardState S \<lparr>hsTerm = rTerm r, hsVote = rVote r, hsCommit = rCommitted r\<rparr> (rStore r)")
    (auto simp: persistHardState_def Let_def on_store_def log_ok_def store_ok_def a_set_hard_def split: if_splits)

lemma refresh_ok:
  "post (\<lambda>_ r'. rLog r' = rLog r) (\<lambda>e r'. rLog r' = rLog r \<and> e \<noteq> ErrSafetyViolation) (\<lambda>r'. rLog r' = rLog r)
    (refreshConfigurationIfNeeded S es r)"
  using find_conf_error [of S "rLog r"]
  by (auto simp: refreshConfigurationIfNeeded_def refreshConfiguration_def Let_def post_bind_iff post_lift_iff
      split: option.splits result.splits)

lemma answer_ok:
  assumes "log_ok abs inv (rLog r)"
  shows "post (\<lambda>_ r'. log_ok abs inv (rLog r')) (\<lambda>e r'. log_ok abs inv (rLog r') \<and> e \<noteq> ErrSafetyViolation)
    (\<lambda>r'. log_ok abs inv (rLog r')) (answer_append S m res r)"
proof -
  let ?E = "\<lambda>e r'. log_ok abs inv (rLog r') \<and> e \<noteq> ErrSafetyViolation" and ?P = "\<lambda>r'. log_ok abs inv (rLog r')"
  have p: "post (\<lambda>_. ?P) ?E ?P (bind (persistHardState S r) (\<lambda>_ r. Done () (send x r)))" if "?P r" for x r
    using persist_log [of r] persist_error [of r] that by (cases "persistHardState S r") auto
  show ?thesis
  proof (cases "snd res")
    case True
    have "post (\<lambda>_. ?P) ?E ?P (bind (refreshConfigurationIfNeeded S (mEntries m) r) (\<lambda>_ r. bind (persistHardState S r)
        (\<lambda>_ r. Done () (send (zeroMessage\<lparr>mType := MsgAppendResp, mTo := mFrom m, mSuccess := True,
          mMatchIndex := fst res, mReadID := mReadID m\<rparr>) r))))"
      by (rule post_seq [where J = ?P]) (use refresh_ok [where r = r and es = "mEntries m"] assms in \<open>auto elim!: post_mono intro!: p\<close>)
    with True show ?thesis by (simp add: answer_append_def)
  next
    case False
    then show ?thesis
      using assms conflictHint_no_error [of S "rLog r" "mPrevLogIndex m"]
      by (auto simp: answer_append_def post_bind_iff post_lift_iff)
  qed
qed

lemma append_request_ok:
  assumes ok: "log_ok abs inv (rLog r)" and es: "from_prev (mPrevLogIndex m) (mEntries m)"
  shows "post (\<lambda>_ r'. log_ok abs inv (rLog r')) (\<lambda>e r'. log_ok abs inv (rLog r') \<and> e \<noteq> ErrSafetyViolation)
    (\<lambda>r'. log_ok abs inv (rLog r')) (handleAppendRequest S m r)"
proof -
  let ?r = "hear_leader m r"
  have l: "rLog ?r = rLog r" by (simp add: hear_leader_def Let_def)
  show ?thesis
  proof (cases "mPrevLogIndex m < rCommitted ?r")
    case True
    then show ?thesis using ok l by (simp add: handleAppendRequest_def)
  next
    case False
    then have m: "post (\<lambda>_. log_ok abs inv) (\<lambda>_ _. False) (\<lambda>_. False)
        (maybeAppend S (mPrevLogIndex m) (mPrevLogTerm m) (mLeaderCommit m) (mEntries m) (rLog ?r))"
      using maybeAppend_ok [OF ok _ es, of "mPrevLogTerm m" "mLeaderCommit m"] l by simp
    then have "\<exists>res l'. maybeAppend S (mPrevLogIndex m) (mPrevLogTerm m) (mLeaderCommit m) (mEntries m) (rLog ?r) = Done res l' \<and>
        log_ok abs inv l'"
      by (cases "maybeAppend S (mPrevLogIndex m) (mPrevLogTerm m) (mLeaderCommit m) (mEntries m) (rLog ?r)") auto
    then obtain res l' where "maybeAppend S (mPrevLogIndex m) (mPrevLogTerm m) (mLeaderCommit m) (mEntries m) (rLog ?r) = Done res l'"
      "log_ok abs inv l'" by blast
    with False show ?thesis
      using answer_ok [of "?r\<lparr>rLog := l'\<rparr>" m res] by (simp add: handleAppendRequest_def on_log_def)
  qed
qed

end

text \<open>A membership change whose first list of members cannot be allocated.\<close>

definition poisoned :: "LogEntry \<Rightarrow> bool" where
  "poisoned e \<longleftrightarrow> eType e = EntryConfChange \<and>
     (case eCommand e of [] \<Rightarrow> False | _ # b \<Rightarrow> (case Uvarint b of (n, k) \<Rightarrow> k > 0 \<and> 2 ^ 48 < uint n * 8))"

definition poisoned_log :: "astore \<Rightarrow> bool" where
  "poisoned_log a \<longleftrightarrow> (\<exists>xs e ys. aEnts a = xs @ e # ys \<and> poisoned e \<and> (\<forall>y \<in> set ys. eType y \<noteq> EntryConfChange))"

lemma poisoned_decode:
  assumes "poisoned e"
  shows "DecodeConfChange (eCommand e) = Crash"
proof -
  obtain k b n c where e: "eCommand e = k # b" "Uvarint b = (n, c)" "c > 0" "2 ^ 48 < uint n * 8"
    using assms by (auto simp: poisoned_def split: list.splits prod.splits)
  then have "make_NodeIDs n = Crash" "n \<noteq> 0" by (auto simp: make_NodeIDs_def)
  with e(2,3) have "readIDs b = Crash" by (simp add: readIDs_def Let_def)
  then show ?thesis by (simp add: DecodeConfChange_def e(1))
qed

context log_storage
begin

lemma find_conf_poisoned:
  assumes i: "inv (storage l)" and e: "aEnts (abs (storage l)) = xs @ e # ys" "poisoned e" "\<forall>y \<in> set ys. eType y \<noteq> EntryConfChange"
    and "unat k = aBase (abs (storage l)) + length xs + 1 + j" and "j \<le> length ys"
  shows "find_conf S l k = Crash"
  using assms(5,6)
proof (induction j arbitrary: k)
  have in_log: "firstIndex S l \<le> k" "0 < k" "GetEntry S k (storage l) = Ok ((e # ys) ! j)"
    if "unat k = aBase (abs (storage l)) + length xs + 1 + j" "j \<le> length ys" for j k
    using that e(1) by (simp_all add: uint64_le_iff uint64_less_iff firstIndex_def first_index [OF i] get_entry [OF i]
        a_get_def aLast_def nth_append)
  {
    case 0
    from in_log [OF 0] e(2) poisoned_decode [OF e(2)] show ?case
      by (subst find_conf.simps) (simp add: poisoned_def)
  next
    case (Suc j)
    have "unat (k - 1) = aBase (abs (storage l)) + length xs + 1 + j"
      using Suc.prems(1) by (subst unat_sub_uint64) simp_all
    then have "find_conf S l (k - 1) = Crash" using Suc.IH [of "k - 1"] Suc.prems(2) by simp
    moreover have "eType ((e # ys) ! Suc j) \<noteq> EntryConfChange" using Suc.prems(2) e(3) by simp
    ultimately show ?case
      using in_log [OF Suc.prems] by (subst find_conf.simps) simp
  }
qed

lemma poisoned_refresh:
  assumes "inv (rStore r)" and "poisoned_log (abs (rStore r))"
  shows "refreshConfiguration S r = Panic r"
proof -
  obtain xs e ys where e: "aEnts (abs (rStore r)) = xs @ e # ys" "poisoned e" "\<forall>y \<in> set ys. eType y \<noteq> EntryConfChange"
    using assms(2) by (auto simp: poisoned_log_def)
  have "unat (lastIndex S (rLog r)) = aBase (abs (rStore r)) + length xs + 1 + length ys"
    by (simp add: lastIndex_def last_index [OF assms(1)] aLast_def e(1))
  from find_conf_poisoned [OF assms(1) e this order_refl] show ?thesis
    by (simp add: refreshConfiguration_def)
qed

lemma poisoned_start:
  assumes "inv st" and "poisoned_log (abs st)" and "validate cfg (Some st) (Some rnd) = Ok ()"
  shows "NewRawNode S (Some st) (Some rnd) cfg = Crash"
proof -
  obtain rl where rl: "newRaftLog S st = Ok rl" "storage rl = st"
    using assms(1) by (auto simp: newRaftLog_def initial_state Let_def)
  have "refreshConfiguration S r = Panic r" if "rLog r = rl" for r :: "'s RawNode"
    using that rl(2) assms by (simp add: poisoned_refresh)
  then show ?thesis
    using assms(1,3) rl(1) by (simp add: NewRawNode_def initial_state Let_def initial_node_def)
qed

lemma poisoned_request:
  assumes ok: "log_ok abs inv (rLog r)" and c: "rCommitted r \<le> mPrevLogIndex m"
    and m: "matchTerm S (rLog r) (mPrevLogIndex m) (mPrevLogTerm m) = Ok True"
    and es: "from_prev (mPrevLogIndex m) (mEntries m)" "mEntries m = xs @ e # ys" and e: "poisoned e"
    and ys: "\<forall>y \<in> set ys. eType y \<noteq> EntryConfChange" and k: "length (takeWhile (holds (abs (rStore r))) (mEntries m)) \<le> length xs"
  shows "\<exists>r'. handleAppendRequest S m r = Panic r' \<and> inv (rStore r') \<and> poisoned_log (abs (rStore r'))"
proof -
  let ?r = "hear_leader m r" and ?k = "length (takeWhile (holds (abs (rStore r))) (mEntries m))"
  have l: "rLog ?r = rLog r" by (simp add: hear_leader_def Let_def)
  obtain st' c' where st': "maybeAppend S (mPrevLogIndex m) (mPrevLogTerm m) (mLeaderCommit m) (mEntries m) (rLog r) =
      Done (mPrevLogIndex m + of_nat (length (mEntries m)), True) ((rLog r)\<lparr>storage := st', committed := c'\<rparr>)"
    "inv st'" "abs st' = a_overwrite (unat (mPrevLogIndex m)) (mEntries m) (abs (rStore r))"
    using maybeAppend_match [OF ok c m es(1)] by blast
  let ?r' = "?r\<lparr>rLog := (rLog r)\<lparr>storage := st', committed := c'\<rparr>\<rparr>"
  have "?k \<noteq> length (mEntries m)" using k by (simp add: es(2))
  then have "aEnts (abs st') = (take (unat (mPrevLogIndex m) + ?k - aBase (abs (rStore r))) (aEnts (abs (rStore r))) @ drop ?k xs) @ e # ys"
    using k by (simp add: st'(3) a_overwrite_def Let_def es(2))
  then have "poisoned_log (abs st')" using e ys unfolding poisoned_log_def by blast
  then have p: "poisoned_log (abs (rStore ?r'))" by simp
  then have "refreshConfiguration S ?r' = Panic ?r'" by (intro poisoned_refresh) (simp_all add: st'(2))
  moreover have "list_ex (\<lambda>x. eType x = EntryConfChange \<or> rConfIndex ?r' > 0 \<and> eIndex x \<le> rConfIndex ?r') (mEntries m)"
    using e by (simp add: es(2) poisoned_def)
  ultimately have "answer_append S m (mPrevLogIndex m + of_nat (length (mEntries m)), True) ?r' = Panic ?r'"
    by (simp add: answer_append_def refreshConfigurationIfNeeded_def Let_def)
  then have "handleAppendRequest S m r = Panic ?r'"
    using c by (simp add: handleAppendRequest_def Let_def l st'(1) on_log_def not_less)
  with p st'(2) show ?thesis by (intro exI [of _ ?r']) simp
qed

end

section \<open>Waiting for a leader\<close>

fun ticks :: "nat \<Rightarrow> 's Storage \<Rightarrow> 's RawNode \<Rightarrow> (unit, 's RawNode) outcome" where
  "ticks 0 S r = Done () r"
| "ticks (Suc n) S r = bind (Tick S r) (\<lambda>_ r. ticks n S r)"

lemma ticks_quiet:
  assumes "rState r \<noteq> Leader" and "rElectionElapsed r + int n < rRandomizedElectionTimeout r"
  shows "ticks n S r = Done () (r\<lparr>rElectionElapsed := rElectionElapsed r + int n\<rparr>)"
  using assms
proof (induction n arbitrary: r)
  case (Suc n)
  then show ?case
    using Suc.IH [of "r\<lparr>rElectionElapsed := rElectionElapsed r + 1\<rparr>"]
    by (simp add: Tick_def tickElection_def Let_def algebra_simps)
qed simp

lemma ticks_Suc: "ticks (Suc n) S r = bind (ticks n S r) (\<lambda>_ r. Tick S r)"
proof (induction n arbitrary: r)
  case 0
  then show ?case by (cases "Tick S r") simp_all
next
  case (Suc n)
  have "ticks (Suc (Suc n)) S r = bind (Tick S r) (\<lambda>_ r. ticks (Suc n) S r)" by (rule ticks.simps(2))
  also have "\<dots> = bind (Tick S r) (\<lambda>_ r. bind (ticks n S r) (\<lambda>_ r. Tick S r))" by (simp only: Suc)
  also have "\<dots> = bind (ticks (Suc n) S r) (\<lambda>_ r. Tick S r)" by (simp add: bind_assoc)
  finally show ?case .
qed

section \<open>Properties\<close>

text \<open>C12. The circle of \<open>maybeAdvanceCommit\<close>, \<open>maybeLeaveJoint\<close> and \<open>propose\<close> closes after two rounds: over a
  store in order and with a configuration that can be encoded, allowing any greater depth of calls
  makes no difference, because the configuration the leader proposes on leaving is not joint.\<close>

theorem leaveJoint_depth:
  assumes "mem_inv (rStore r)" and "aLast (mem_abs (rStore r)) + 2 < 2 ^ 64" and "encodable_conf (rConf r)" and "2 \<le> n"
  shows "leaveJoint n memory_storage r = maybeLeaveJoint memory_storage r"
proof -
  obtain k where "n = Suc (Suc k)" using assms(4) by (metis Suc_le_D numeral_2_eq_2 Suc_le_mono)
  then show ?thesis
    using mem_log.leave_depth [OF assms(1-3), of k] by (simp only: maybeLeaveJoint_def)
qed

definition mem_boot :: "Configuration \<Rightarrow> NodeID \<Rightarrow> MemoryStorage RawNode" where
  "mem_boot c i = ok_or undefined (NewRawNode memory_storage (Some NewMemoryStorage) (Some (\<lambda>_ _. 0)) ((demo_cfg i)\<lparr>Bootstrap := c\<rparr>))"

definition mem_act :: "event \<Rightarrow> MemoryStorage RawNode \<Rightarrow> MemoryStorage RawNode" where
  "mem_act ev r = state_of (perform memory_storage ev r)"

lemma mem_from_zero:
  assumes "map eIndex (msEnts m) = map of_nat [0..<Suc k]" and "k + 1 < 2 ^ 64"
  shows "mem_inv m" and "aBase (mem_abs m) = 0" and "aLast (mem_abs m) = k"
proof -
  have len: "length (msEnts m) = Suc k" using arg_cong [OF assms(1), of length] by simp
  have idx: "unat (eIndex (msEnts m ! i)) = i" if "i < Suc k" for i
    using arg_cong [OF assms(1), of "\<lambda>xs. xs ! i"] that len assms(2) by (simp del: upt_Suc add: unat_of_nat_uint64)
  show "aBase (mem_abs m) = 0"
    using idx [of 0] by (simp add: mem_abs_def offset_def)
  then show "aLast (mem_abs m) = k" using len by (simp add: aLast_def mem_abs_def)
  with \<open>aBase (mem_abs m) = 0\<close> show "mem_inv m"
    using len idx assms(2) by (auto simp: mem_inv_def awf_def mem_abs_def nth_tl)
qed

text \<open>A cluster of one leads at once; adding a second voter leaves it in a joint configuration.\<close>

definition demo_single :: "MemoryStorage RawNode" where
  "demo_single = mem_act EvCampaign (mem_boot (NewConfiguration [1] []) 1)"

definition demo_growing :: "MemoryStorage RawNode" where
  "demo_growing = state_of (ProposeConfChange memory_storage (NewConfiguration [1, 2] []) demo_single)"

theorem leaveJoint_depth_witness:
  "IsJoint (rConf demo_growing) \<and>
   leaveJoint 7 memory_storage (demo_growing\<lparr>rLog := (rLog demo_growing)\<lparr>committed := 2\<rparr>\<rparr>) =
   maybeLeaveJoint memory_storage (demo_growing\<lparr>rLog := (rLog demo_growing)\<lparr>committed := 2\<rparr>\<rparr>)"
proof -
  let ?r = "demo_growing\<lparr>rLog := (rLog demo_growing)\<lparr>committed := 2\<rparr>\<rparr>"
  have "IsJoint (rConf demo_growing)" "length (Voters (rConf ?r)) = 2" "length (OldVoters (rConf ?r)) = 1"
    "length (Learners (rConf ?r)) = 0" and i: "map eIndex (msEnts (rStore ?r)) = [0, 1, 2]"
    by code_simp+
  with mem_from_zero [of "rStore ?r" 2] leaveJoint_depth [of ?r 7] show ?thesis
    by (simp add: encodable_conf_def upt_rec)
qed

text \<open>C2. The commit rule. Over any storage and whatever comes of the call, \<open>maybeAdvanceCommit\<close> leaves the
  commit index where it was unless the node leads, the entry at some higher index is of its own term,
  and a quorum of its configuration (of both halves, when it is joint) has matched that index; then
  the commit index reaches it, and outside a joint configuration it is exactly that index.\<close>

theorem commit_rule:
  assumes "Voters (rConf r) \<noteq> []" and "r' = state_of (maybeAdvanceCommit S r)" and "rCommitted r' \<noteq> rCommitted r"
  shows "\<exists>c. rState r = Leader \<and> rCommitted r < c \<and> log_term S (rLog r) c = Ok (rTerm r) \<and>
    HasQuorum (rConf r) (\<lambda>i. c \<le> matched r i) \<and> c \<le> rCommitted r' \<and> (\<not> IsJoint (rConf r) \<longrightarrow> rCommitted r' = c)"
  using advance_commit_rule [OF assms(1), of S] assms(2,3) by (auto simp: always_state_of may_commit_def)

definition demo_acked :: mem_node where
  "demo_acked = set_progress 2 \<lparr>Match = 1, Next = 2, PendingSnapshot = 0, SnapshotTicks = 0\<rparr> demo_leader"

theorem commit_rule_witness:
  "rCommitted (state_of (maybeAdvanceCommit (with_power memory_storage) demo_acked)) = 1 \<and>
   HasQuorum (rConf demo_acked) (\<lambda>i. 1 \<le> matched demo_acked i) \<and> \<not> HasQuorum (rConf demo_acked) (\<lambda>i. i = 1)"
proof -
  let ?S = "with_power memory_storage"
  have f: "Voters (rConf demo_acked) \<noteq> []" "rCommitted demo_acked = 0" "\<not> IsJoint (rConf demo_acked)"
    "rCommitted (state_of (maybeAdvanceCommit ?S demo_acked)) = 1" "\<not> HasQuorum (rConf demo_acked) (\<lambda>i. i = 1)"
    by code_simp+
  from commit_rule [OF f(1) refl, of ?S] f show ?thesis by auto
qed

text \<open>C10. A read is answered exactly when a quorum has vouched for the leader: for a read that is waiting, and
  any sequence of acknowledgements of its identifier, the read is confirmed, at the index recorded
  when it was accepted, if the senders together with those who had answered before form a quorum, and
  otherwise no read is confirmed.\<close>

theorem read_confirmed_iff:
  assumes "rPendingReads r = before @ req # after" and "\<forall>q \<in> set before. rrId q \<noteq> rrId req"
    and "\<not> HasQuorum (rConf r) (rrAcks req)"
  shows "if HasQuorum (rConf r) (\<lambda>n. rrAcks req n \<or> n \<in> set is)
    then \<lparr>rsID = rrId req, rsIndex = rrIndex req\<rparr> \<in> set (rReadStates (fold (\<lambda>i. ackRead i (rrId req)) is r))
    else rReadStates (fold (\<lambda>i. ackRead i (rrId req)) is r) = rReadStates r"
proof -
  have "waiting (rrId req) req r" unfolding waiting_def using assms by blast
  then show ?thesis by (rule acks_confirm)
qed

definition demo_reading :: mem_node where
  "demo_reading = state_of (ReadIndex (with_power memory_storage) 7
     (state_of (maybeAdvanceCommit (with_power memory_storage) demo_acked)))"

theorem read_confirmed_iff_witness:
  "\<lparr>rsID = 7, rsIndex = 1\<rparr> \<in> set (rReadStates (ackRead 3 7 demo_reading))"
proof -
  define req where "req = hd (rPendingReads demo_reading)"
  have f: "rPendingReads demo_reading \<noteq> []" "tl (rPendingReads demo_reading) = []" "\<not> HasQuorum (rConf demo_reading) (rrAcks req)"
    "HasQuorum (rConf demo_reading) (\<lambda>n. rrAcks req n \<or> n \<in> set [3])" "rrId req = 7" "rrIndex req = 1"
    unfolding req_def by code_simp+
  then have "rPendingReads demo_reading = [] @ req # []" by (metis append_Nil list.collapse req_def)
  from read_confirmed_iff [OF this _ f(3), of "[3]"] f(4-6) show ?thesis by simp
qed

text \<open>C13. A node that hears nothing campaigns in time: a voter that does not lead, left alone, ticks in silence
  until its timeout, and the tick that reaches the timeout starts a campaign. It needs exactly as many
  ticks as its timer is short of the timeout.\<close>

theorem campaign_when_due:
  assumes "rState r \<noteq> Leader" and "promotable r" and "rElectionElapsed r + int (Suc n) = rRandomizedElectionTimeout r"
  shows "ticks n S r = Done () (r\<lparr>rElectionElapsed := rElectionElapsed r + int n\<rparr>) \<and>
    ticks (Suc n) S r = campaign S (cfgPreVote (rCfg r)) (r\<lparr>rElectionElapsed := 0\<rparr>)"
proof -
  have q: "ticks n S r = Done () (r\<lparr>rElectionElapsed := rElectionElapsed r + int n\<rparr>)"
    using assms by (intro ticks_quiet) auto
  then have "ticks (Suc n) S r = Tick S (r\<lparr>rElectionElapsed := rElectionElapsed r + int n\<rparr>)"
    by (simp only: ticks_Suc bind.simps)
  also have "\<dots> = campaign S (cfgPreVote (rCfg r)) (r\<lparr>rElectionElapsed := 0\<rparr>)"
    using assms by (simp add: Tick_def tickElection_def Let_def promotable_def algebra_simps)
  finally show ?thesis using q by simp
qed

theorem campaign_when_due_witness:
  "ticks 2 (with_power memory_storage) (demo_booted 1) =
   campaign (with_power memory_storage) False ((demo_booted 1)\<lparr>rElectionElapsed := 0\<rparr>)"
proof -
  have "rState (demo_booted 1) \<noteq> Leader" "promotable (demo_booted 1)" "\<not> cfgPreVote (rCfg (demo_booted 1))"
    "rElectionElapsed (demo_booted 1) + int (Suc 1) = rRandomizedElectionTimeout (demo_booted 1)"
    by code_simp+
  from campaign_when_due [OF this(1,2,4)] this(3) show ?thesis
    unfolding numeral_2_eq_2 One_nat_def by (simp del: ticks.simps)
qed

definition demo_entries :: "LogEntry list" where
  "demo_entries = [\<lparr>eTerm = 1, eIndex = 1, eType = EntryNoOp, eCommand = []\<rparr>, \<lparr>eTerm = 2, eIndex = 2, eType = EntryNormal, eCommand = [7]\<rparr>]"

definition demo_log_state :: "MemoryStorage raftLog" where
  "demo_log_state = rLog demo_single"

lemma demo_log_ok: "log_ok mem_abs mem_inv demo_log_state"
proof -
  have "map eIndex (msEnts (storage demo_log_state)) = [0, 1]" "committed demo_log_state = 1" "applied demo_log_state = 0"
    "LastIncludedIndex (msSnapshot (storage demo_log_state)) = 0"
    by code_simp+
  with mem_from_zero [of "storage demo_log_state" 1] show ?thesis
    by (simp add: log_ok_def store_ok_def mem_abs_def upt_rec)
qed

text \<open>C5. The in-memory store implements the log. In every state in order, each of its operations does to the
  log it stands for (a base index with its term, and the entries after it) what the abstract operation
  does, with the same result and the same error, and leaves a state in order.\<close>

theorem memory_refines_log:
  assumes "mem_inv s" and "fits es" and "aBase (mem_abs s) \<le> unat (LastIncludedIndex sn)"
    and "unat (LastIncludedIndex sn) + 1 < 2 ^ 64" and "i \<noteq> 0"
  shows "map_outcome id mem_abs (Mem_AppendEntries es s) = a_append es (mem_abs s) \<and> always mem_inv (Mem_AppendEntries es s) \<and>
    map_outcome id mem_abs (Mem_SaveSnapshot sn s) = a_save sn (mem_abs s) \<and> always mem_inv (Mem_SaveSnapshot sn s) \<and>
    map_outcome id mem_abs (Mem_Compact i s) = a_compact (unat i) (mem_abs s) \<and> always mem_inv (Mem_Compact i s) \<and>
    map_outcome id mem_abs (Mem_SetHardState hs s) = a_set_hard hs (mem_abs s) \<and> always mem_inv (Mem_SetHardState hs s) \<and>
    Mem_Term i s = a_term (unat i) (mem_abs s) \<and> Mem_GetEntry i s = a_get (unat i) (mem_abs s) \<and>
    Mem_Entries lo hi s = a_entries (unat lo) (unat hi) (mem_abs s) \<and>
    unat (Mem_FirstIndex s) = aBase (mem_abs s) + 1 \<and> unat (Mem_LastIndex s) = aLast (mem_abs s)"
  using mem_log.append [OF assms(1,2)] mem_log.append_inv [OF assms(1,2)] mem_log.save [OF assms(1,3,4)]
    mem_log.save_inv [OF assms(1,3,4)] mem_log.compact [OF assms(1), of i] mem_log.compact_inv [OF assms(1), of i]
    mem_log.set_hard [OF assms(1), of hs] mem_log.set_hard_inv [OF assms(1), of hs] mem_log.term_at [OF assms(1,5)]
    mem_log.get_entry [OF assms(1), of i] mem_log.entries [OF assms(1), of lo hi]
    mem_log.first_index [OF assms(1)] mem_log.last_index [OF assms(1)]
  by (simp add: memory_storage_def)

theorem memory_refines_log_witness:
  "map_outcome id mem_abs (Mem_AppendEntries demo_entries (storage demo_log_state)) =
   a_append demo_entries (mem_abs (storage demo_log_state))"
proof -
  have i: "map eIndex (msEnts (storage demo_log_state)) = [0, 1]" by code_simp
  have "mem_inv (storage demo_log_state)" "aBase (mem_abs (storage demo_log_state)) = 0"
    using mem_from_zero [of "storage demo_log_state" 1] i by (simp_all add: upt_rec)
  with memory_refines_log [of "storage demo_log_state" demo_entries "zeroSnapshot\<lparr>LastIncludedIndex := 1\<rparr>" 1] show ?thesis
    by (simp add: fits_def demo_entries_def)
qed

text \<open>C4. A follower takes over exactly the leader's entries. When the log matches at the previous index, which
  is not below the commit index, then \<open>maybeAppend\<close> succeeds. Say the log already holds, by their terms,
  the first \<open>k\<close> new entries and no more. If these are all of them, the store is unchanged: nothing is
  lost to a stale request. Otherwise every index up to the one before the conflict reads as it did, from
  the conflict on the store has the leader's entries themselves, command and type included, and nothing
  after them. The commit index is the leader's, as far as the new entries reach.\<close>

theorem follower_append:
  assumes "log_ok mem_abs mem_inv l" and "committed l \<le> p" and "matchTerm memory_storage l p t = Ok True" and "from_prev p es"
    and "k = length (takeWhile (holds (mem_abs (storage l))) es)"
  shows "\<exists>l'. maybeAppend memory_storage p t lc es l = Done (p + of_nat (length es), True) l' \<and>
    (k = length es \<longrightarrow> mem_abs (storage l') = mem_abs (storage l)) \<and>
    (\<forall>n \<le> unat p + k. a_get n (mem_abs (storage l')) = a_get n (mem_abs (storage l))) \<and>
    (\<forall>i < length es. k \<le> i \<longrightarrow> a_get (unat p + 1 + i) (mem_abs (storage l')) = Ok (es ! i) \<and>
       aLast (mem_abs (storage l')) = unat p + length es) \<and>
    (\<forall>i < length es. a_term (unat p + 1 + i) (mem_abs (storage l')) = Ok (eTerm (es ! i))) \<and>
    committed l' = max (committed l) (min lc (p + of_nat (length es))) \<and> log_ok mem_abs mem_inv l'"
proof -
  let ?a = "mem_abs (storage l)" and ?c = "max (committed l) (min lc (p + of_nat (length es)))"
  obtain st' where st': "maybeAppend memory_storage p t lc es l = Done (p + of_nat (length es), True) (l\<lparr>storage := st', committed := ?c\<rparr>)"
    "mem_abs st' = a_overwrite (unat p) es ?a"
    using mem_log.maybeAppend_match [OF assms(1-4), of lc] by auto
  have b: "aBase ?a \<le> unat p" and last: "unat p + length (takeWhile (holds ?a) es) \<le> aLast ?a"
    using mem_log.match_bounds [OF assms(1-3)] mem_log.held_bound [OF assms(4), of "storage l"] by auto
  have "log_ok mem_abs mem_inv (l\<lparr>storage := st', committed := ?c\<rparr>)"
    using mem_log.maybeAppend_ok [OF assms(1,2,4), of t lc] st'(1) by simp
  moreover have "a_term (unat p + 1 + i) (a_overwrite (unat p) es ?a) = Ok (eTerm (es ! i))" if "i < length es" for i
    using a_overwrite_holds [OF assms(4) b last that] from_prev_index [OF assms(4) that] by (simp add: holds_def)
  moreover have "k = length es \<Longrightarrow> a_overwrite (unat p) es ?a = ?a" by (simp add: assms(5) a_overwrite_def)
  ultimately show ?thesis
    using st' a_overwrite_from [OF assms(4) b last] a_overwrite_upto [OF b _ last] from_prev_index [OF assms(4)]
    by (auto simp: assms(5))
qed

theorem follower_append_witness:
  "\<exists>l'. maybeAppend memory_storage 1 1 2 (tl demo_entries) demo_log_state = Done (2, True) l' \<and>
     a_get 2 (mem_abs (storage l')) = Ok (demo_entries ! 1) \<and> committed l' = 2"
proof -
  have c: "committed demo_log_state = 1" "matchTerm memory_storage demo_log_state 1 1 = Ok True"
    "0 = length (takeWhile (holds (mem_abs (storage demo_log_state))) (tl demo_entries))" by code_simp+
  have e: "tl demo_entries = [demo_entries ! 1]" by (simp add: demo_entries_def)
  have le: "committed demo_log_state \<le> 1" using c(1) by simp
  have "from_prev 1 (tl demo_entries)" by (simp add: from_prev_def demo_entries_def)
  from follower_append [OF demo_log_ok le c(2) this c(3), of 2]
  have "\<exists>l'. maybeAppend memory_storage 1 1 2 (tl demo_entries) demo_log_state = Done (1 + of_nat (length (tl demo_entries)), True) l' \<and>
      (\<forall>i < length (tl demo_entries). 0 \<le> i \<longrightarrow> a_get (unat (1 :: Index) + 1 + i) (mem_abs (storage l')) = Ok (tl demo_entries ! i) \<and>
        aLast (mem_abs (storage l')) = unat (1 :: Index) + length (tl demo_entries)) \<and>
      committed l' = max (committed demo_log_state) (min 2 (1 + of_nat (length (tl demo_entries))))"
    by blast
  then show ?thesis by (auto simp: e c(1) numeral_2_eq_2)
qed

text \<open>C3. No append request can make a follower report a safety violation: for any well-formed request, stale,
  duplicated or reaching below a compacted log, the node's log stays in order whatever the outcome,
  and the outcome is never the error that a committed entry would be overwritten.\<close>

theorem append_request_safe:
  assumes "log_ok mem_abs mem_inv (rLog r)" and "from_prev (mPrevLogIndex m) (mEntries m)"
  shows "log_ok mem_abs mem_inv (rLog (state_of (handleAppendRequest memory_storage m r))) \<and>
    (\<forall>r'. handleAppendRequest memory_storage m r \<noteq> Fail ErrSafetyViolation r')"
  using mem_log.append_request_ok [OF assms] by (cases "handleAppendRequest memory_storage m r") auto

theorem append_request_safe_witness:
  "log_ok mem_abs mem_inv (rLog (state_of (handleAppendRequest memory_storage
     (zeroMessage\<lparr>mType := MsgAppendReq, mFrom := 2, mTerm := 2, mEntries := demo_entries\<rparr>) demo_single)))"
  using append_request_safe [of demo_single "zeroMessage\<lparr>mType := MsgAppendReq, mFrom := 2, mTerm := 2, mEntries := demo_entries\<rparr>"]
    demo_log_ok
  by (simp add: demo_log_state_def from_prev_def demo_entries_def)

text \<open>C11. The state machine is handed exactly what is committed and not yet applied, in order and without gaps:
  all of it, or its first \<open>n\<close> entries when batches are limited to \<open>n\<close>.\<close>

theorem entries_to_apply_exact:
  assumes "log_ok mem_abs mem_inv l" and "0 \<le> n" and "n < 2 ^ 63"
  shows "\<exists>es. entriesToApply memory_storage l n = Ok es \<and>
    length es = (let todo = unat (committed l) - unat (applied l) in if n = 0 then todo else min (nat n) todo) \<and>
    (\<forall>k < length es. a_get (unat (applied l) + 1 + k) (mem_abs (storage l)) = Ok (es ! k))"
proof -
  let ?a = "mem_abs (storage l)" and ?t = "unat (committed l) - unat (applied l)"
  let ?k = "if n = 0 then ?t else min (nat n) ?t" and ?d = "unat (applied l) - aBase ?a"
  let ?es = "take ?k (drop ?d (aEnts ?a))"
  have b: "aBase ?a \<le> unat (applied l)" "unat (committed l) \<le> aLast ?a" "unat (applied l) \<le> unat (committed l)"
    using assms(1) by (auto simp: log_ok_def store_ok_def uint64_le_iff)
  then have len: "length ?es = ?k" by (auto simp: aLast_def)
  have "a_get (unat (applied l) + 1 + k) ?a = Ok (?es ! k)" if "k < length ?es" for k
    using that b by (auto simp: a_get_def aLast_def)
  moreover have "entriesToApply memory_storage l n = Ok ?es" by (rule mem_log.entriesToApply_eq [OF assms])
  moreover have "length ?es = (let todo = ?t in if n = 0 then todo else min (nat n) todo)" unfolding len Let_def ..
  ultimately show ?thesis by blast
qed

theorem entries_to_apply_exact_witness:
  "\<exists>e. entriesToApply memory_storage demo_log_state 0 = Ok [e] \<and> a_get 1 (mem_abs (storage demo_log_state)) = Ok e"
proof -
  have "committed demo_log_state = 1" "applied demo_log_state = 0" by code_simp+
  with entries_to_apply_exact [OF demo_log_ok, of 0] show ?thesis
    by (auto simp: Let_def length_Suc_conv)
qed

text \<open>C28. An entry with an absurd length prefix stops a node for good. Let a configuration change claim so many
  voters that their slice cannot be allocated. A follower in any state in order that accepts a request
  with such an entry, not followed by another change, and does not hold it yet, writes it to its log and
  panics while decoding it; and whatever the configuration and the random source it is started with
  again, it panics at every start from the store it is left with.\<close>

theorem poisoned_entry_panics:
  assumes "log_ok mem_abs mem_inv (rLog r)" and "rCommitted r \<le> mPrevLogIndex m"
    and "matchTerm memory_storage (rLog r) (mPrevLogIndex m) (mPrevLogTerm m) = Ok True"
    and "from_prev (mPrevLogIndex m) (mEntries m)" and "mEntries m = xs @ e # ys" and "poisoned e"
    and "\<forall>y \<in> set ys. eType y \<noteq> EntryConfChange"
    and "length (takeWhile (holds (mem_abs (rStore r))) (mEntries m)) \<le> length xs"
  shows "\<exists>r'. handleAppendRequest memory_storage m r = Panic r' \<and>
    (\<forall>cfg rnd. validate cfg (Some (rStore r')) (Some rnd) = Ok () \<longrightarrow>
       NewRawNode memory_storage (Some (rStore r')) (Some rnd) cfg = Crash)"
proof -
  obtain r' where r': "handleAppendRequest memory_storage m r = Panic r'" "mem_inv (rStore r')" "poisoned_log (mem_abs (rStore r'))"
    using mem_log.poisoned_request [OF assms] by blast
  then show ?thesis using mem_log.poisoned_start by blast
qed

definition demo_poison :: Message where
  "demo_poison = zeroMessage\<lparr>mType := MsgAppendReq, mFrom := 2, mTerm := 1,
     mEntries := [\<lparr>eTerm = 1, eIndex = 1, eType = EntryConfChange,
       eCommand = [0, 128, 128, 128, 128, 128, 128, 128, 128, 128, 1]\<rparr>]\<rparr>"

theorem poisoned_entry_panics_witness:
  "\<exists>r'. handleAppendRequest memory_storage demo_poison (mem_boot (static_conf 1 [2, 3] []) 1) = Panic r' \<and>
     NewRawNode memory_storage (Some (rStore r')) (Some (\<lambda>_ _. 0)) (demo_cfg 1) = Crash"
proof -
  let ?r = "mem_boot (static_conf 1 [2, 3] []) 1"
  obtain e where e: "mEntries demo_poison = [] @ e # []" "mPrevLogIndex demo_poison = 0" "mPrevLogTerm demo_poison = 0"
    by (simp add: demo_poison_def zeroMessage_def)
  have p: "poisoned (hd (mEntries demo_poison))" by code_simp
  have l: "rLog ?r = \<lparr>storage = NewMemoryStorage, committed = 0, applied = 0\<rparr>" by code_simp
  have h: "takeWhile (holds (mem_abs NewMemoryStorage)) (mEntries demo_poison) = []" by code_simp
  have "log_ok mem_abs mem_inv (rLog ?r)"
    by (simp add: l log_ok_def store_ok_def mem_inv_new) (simp add: mem_abs_def NewMemoryStorage_def zeroSnapshot_def offset_def zeroEntry_def aLast_def)
  moreover have "matchTerm memory_storage (rLog ?r) 0 0 = Ok True" by code_simp
  moreover have "from_prev 0 (mEntries demo_poison)" by (simp add: from_prev_def demo_poison_def)
  moreover have "validate (demo_cfg 1) (Some st) (Some rnd) = Ok ()" for st :: MemoryStorage and rnd
    by (simp add: validate_def demo_cfg_def None_id_def)
  ultimately show ?thesis
    using poisoned_entry_panics [of ?r demo_poison "[]" e "[]"] e p l h by auto
qed

end
