(* ===== verification/KV_Encoding.thy ===== *)
theory KV_Encoding
  imports Varint "HOL-Library.Finite_Map" "HOL-Library.List_Lexorder"
begin

text \<open>
  The binary formats of the key/value store, \<open>kvstore/encoding.go\<close>, with the command type of
  \<open>kvstore/kvstore.go\<close>: a command as it travels through the log, and a snapshot of the whole map.
  A Go \<open>map\<close> is a finite map; a Go string used as a key is its bytes, and Go compares strings
  byte by byte, which is the lexicographic order on lists of bytes. The size hint of \<open>make(map, n)\<close>
  has no effect on values.
\<close>

section \<open>Commands\<close>

type_synonym Op = byte

definition OpSet :: Op where
  "OpSet = 0"

definition OpDelete :: Op where
  "OpDelete = 1"

record Command =
  cOp :: Op
  cKey :: bytes
  cValue :: bytes
  cClientID :: uint64
  cSequence :: uint64

definition zeroCommand :: Command where
  "zeroCommand = \<lparr>cOp = 0, cKey = [], cValue = [], cClientID = 0, cSequence = 0\<rparr>"

definition maxKeyLen :: int where
  "maxKeyLen = 2 ^ 20"

definition maxValueLen :: int where
  "maxValueLen = 16 * 2 ^ 20"

definition appendBytes :: "bytes \<Rightarrow> bytes \<Rightarrow> bytes" where
  "appendBytes dst b = AppendUvarint dst (of_nat (length b)) @ b"

text \<open>
  \<open>uint64(len(b)) < n\<close> compares naturals: a slice's length is a non-negative \<open>int\<close>, so the conversion
  is exact.
\<close>

definition readBytes :: "bytes \<Rightarrow> string \<Rightarrow> (bytes \<times> bytes) result" where
  "readBytes b what =
     (let (n, read) = Uvarint b
      in if read \<le> 0 then Err (ErrMsg (''truncated length reading '' @ what))
         else (let b = drop (nat read) b
               in if length b < unat n then Err (ErrMsg (what @ '' claims more bytes than remain''))
                  else rbind (slice_to b n) (\<lambda>value. rbind (slice_from b n) (\<lambda>rest. Ok (value, rest)))))"

definition EncodeCommand :: "Command \<Rightarrow> bytes result" where
  "EncodeCommand cmd =
     (if cKey cmd = [] then Err (ErrMsg ''key must not be empty'')
      else if maxKeyLen < int (length (cKey cmd)) then Err (ErrMsg ''key too long'')
      else if maxValueLen < int (length (cValue cmd)) then Err (ErrMsg ''value too long'')
      else (let buf = [cOp cmd];
                buf = AppendUvarint buf (cClientID cmd);
                buf = AppendUvarint buf (cSequence cmd);
                buf = appendBytes buf (cKey cmd)
            in Ok (if cOp cmd = OpSet then appendBytes buf (cValue cmd) else buf)))"

definition DecodeCommand :: "bytes \<Rightarrow> Command result" where
  "DecodeCommand b =
     (case b of
        [] \<Rightarrow> Err (ErrMsg ''empty command'')
      | op # rest \<Rightarrow>
          (let cmd = zeroCommand\<lparr>cOp := op\<rparr>;
               (clientID, n) = Uvarint rest
           in if n \<le> 0 then Err (ErrMsg ''truncated client id'')
              else (let cmd = cmd\<lparr>cClientID := clientID\<rparr>;
                        rest = drop (nat n) rest;
                        (seq, n) = Uvarint rest
                    in if n \<le> 0 then Err (ErrMsg ''truncated sequence number'')
                       else (let cmd = cmd\<lparr>cSequence := seq\<rparr>; rest = drop (nat n) rest
                             in rbind (readBytes rest ''key'') (\<lambda>(key, rest).
                                (let cmd = cmd\<lparr>cKey := key\<rparr>
                                 in if cOp cmd = OpSet
                                    then rbind (readBytes rest ''value'') (\<lambda>(value, _). Ok (cmd\<lparr>cValue := value\<rparr>))
                                    else Ok cmd))))))"

definition SetCommand :: "bytes \<Rightarrow> bytes \<Rightarrow> bytes result" where
  "SetCommand key val = EncodeCommand (zeroCommand\<lparr>cOp := OpSet, cKey := key, cValue := val\<rparr>)"

definition DeleteCommand :: "bytes \<Rightarrow> bytes result" where
  "DeleteCommand key = EncodeCommand (zeroCommand\<lparr>cOp := OpDelete, cKey := key\<rparr>)"

definition SessionSetCommand :: "uint64 \<Rightarrow> uint64 \<Rightarrow> bytes \<Rightarrow> bytes \<Rightarrow> bytes result" where
  "SessionSetCommand clientID seq key val =
     EncodeCommand \<lparr>cOp = OpSet, cKey = key, cValue = val, cClientID = clientID, cSequence = seq\<rparr>"

definition SessionDeleteCommand :: "uint64 \<Rightarrow> uint64 \<Rightarrow> bytes \<Rightarrow> bytes result" where
  "SessionDeleteCommand clientID seq key =
     EncodeCommand (zeroCommand\<lparr>cOp := OpDelete, cKey := key, cClientID := clientID, cSequence := seq\<rparr>)"

section \<open>Snapshots\<close>

type_synonym kvmap = "(bytes, bytes) fmap"

text \<open>\<open>m[k]\<close>: the zero value when the key is absent.\<close>

definition index_map :: "kvmap \<Rightarrow> bytes \<Rightarrow> bytes" where
  "index_map m k = (case fmlookup m k of None \<Rightarrow> [] | Some v \<Rightarrow> v)"

definition encodeMap :: "kvmap \<Rightarrow> bytes" where
  "encodeMap m =
     (let keys = sorted_list_of_fset (fmdom m);
          buf = AppendUvarint [] (of_nat (length keys))
      in fold (\<lambda>k buf. appendBytes (appendBytes buf k) (index_map m k)) keys buf)"

text \<open>The loop of \<open>decodeMap\<close>, with the number of rounds left.\<close>

fun decode_pairs :: "nat \<Rightarrow> bytes \<Rightarrow> kvmap \<Rightarrow> kvmap result" where
  "decode_pairs 0 rest m = Ok m"
| "decode_pairs (Suc k) rest m =
     rbind (readBytes rest ''snapshot key'') (\<lambda>(key, r).
     rbind (readBytes r ''snapshot value'') (\<lambda>(val, r2).
       decode_pairs k r2 (fmupd key val m)))"

definition decodeMap :: "bytes \<Rightarrow> kvmap result" where
  "decodeMap b =
     (let (n, read) = Uvarint b
      in if read \<le> 0 then Err (ErrMsg ''truncated snapshot header'')
         else decode_pairs (unat n) (drop (nat read) b) fmempty)"

section \<open>Length-prefixed bytes\<close>

lemma appendBytes_append: "appendBytes buf b = buf @ appendBytes [] b"
  by (simp add: appendBytes_def AppendUvarint_append [of buf])

lemma readBytes_appendBytes [simp]:
  assumes "length x < 2 ^ 64"
  shows "readBytes (appendBytes [] x @ rest) what = Ok (x, rest)"
  using unat_of_nat_uint64 [OF assms]
  by (simp add: readBytes_def appendBytes_def slice_to_def slice_from_def)

interpretation sized_bytes: prefix_codec "appendBytes []" "\<lambda>b. readBytes b what" "\<lambda>x. length x < 2 ^ 64" for what
  by unfold_locales (rule readBytes_appendBytes)

text \<open>A read never crashes, and what it returns is part of what it was given.\<close>

lemma readBytes_no_crash: "readBytes b what \<noteq> Crash"
  by (auto simp: readBytes_def Let_def slice_to_def slice_from_def split: prod.splits)

lemma readBytes_length:
  assumes "readBytes b what = Ok (v, rest)"
  shows "length v + length rest < length b"
proof -
  obtain n read where u: "Uvarint b = (n, read)" by (cases "Uvarint b")
  then have "nat read \<le> length b" by (rule Uvarint_bound)
  then show ?thesis
    using assms u by (auto simp: readBytes_def Let_def slice_to_def slice_from_def split: if_splits)
qed

section \<open>Commands: lemmas\<close>

definition command_bytes :: "Command \<Rightarrow> bytes" where
  "command_bytes cmd = cOp cmd # AppendUvarint [] (cClientID cmd) @ AppendUvarint [] (cSequence cmd) @
     appendBytes [] (cKey cmd) @ (if cOp cmd = OpSet then appendBytes [] (cValue cmd) else [])"

lemma EncodeCommand_Ok:
  assumes "EncodeCommand cmd = Ok b"
  shows "b = command_bytes cmd" and "cKey cmd \<noteq> []" and "length (cKey cmd) \<le> 2 ^ 20" and "length (cValue cmd) \<le> 2 ^ 24"
proof -
  have split: "AppendUvarint (x # buf) v = x # buf @ AppendUvarint [] v" for x buf v
    using AppendUvarint_append [of "x # buf" v] by simp
  have split': "appendBytes (x # buf) v = x # buf @ appendBytes [] v" for x buf v
    using appendBytes_append [of "x # buf" v] by simp
  show "b = command_bytes cmd" "cKey cmd \<noteq> []" "length (cKey cmd) \<le> 2 ^ 20" "length (cValue cmd) \<le> 2 ^ 24"
    using assms by (auto simp: EncodeCommand_def command_bytes_def Let_def maxKeyLen_def maxValueLen_def
      split split' split: if_splits)
qed

definition logged :: "Command \<Rightarrow> Command" where
  "logged cmd = (if cOp cmd = OpSet then cmd else cmd\<lparr>cValue := []\<rparr>)"

lemma DecodeCommand_bytes:
  assumes "length (cKey cmd) < 2 ^ 64" and "length (cValue cmd) < 2 ^ 64"
  shows "DecodeCommand (command_bytes cmd @ rest) = Ok (logged cmd)"
  using assms by (simp add: DecodeCommand_def command_bytes_def logged_def zeroCommand_def)

lemma DecodeCommand_no_crash: "DecodeCommand b \<noteq> Crash"
  by (auto simp: DecodeCommand_def Let_def rbind_Crash_iff readBytes_no_crash split: list.splits prod.splits if_splits)

section \<open>Snapshots: lemmas\<close>

definition pair_bytes :: "kvmap \<Rightarrow> bytes \<Rightarrow> bytes" where
  "pair_bytes m k = appendBytes [] k @ appendBytes [] (index_map m k)"

lemma fold_appendBytes:
  "fold (\<lambda>k buf. appendBytes (appendBytes buf k) (index_map m k)) ks buf = buf @ concat (map (pair_bytes m) ks)"
proof (induction ks arbitrary: buf)
  case (Cons k ks)
  have "appendBytes (appendBytes buf k) (index_map m k) = buf @ pair_bytes m k"
    by (simp add: pair_bytes_def appendBytes_append [of buf k] appendBytes_append [of "buf @ _"])
  then show ?case using Cons by simp
qed simp

lemma encodeMap_eq:
  "encodeMap m = AppendUvarint [] (of_nat (fcard (fmdom m))) @ concat (map (pair_bytes m) (sorted_list_of_fset (fmdom m)))"
  by (simp add: encodeMap_def Let_def fold_appendBytes fcard.rep_eq sorted_list_of_fset.rep_eq)

definition encodable_map :: "kvmap \<Rightarrow> bool" where
  "encodable_map m \<longleftrightarrow> fcard (fmdom m) < 2 ^ 64 \<and>
     (\<forall>k v. fmlookup m k = Some v \<longrightarrow> length k < 2 ^ 64 \<and> length v < 2 ^ 64)"

lemma decode_pairs_concat:
  assumes "\<forall>k \<in> set ks. length k < 2 ^ 64 \<and> length (index_map m k) < 2 ^ 64"
  shows "decode_pairs (length ks) (concat (map (pair_bytes m) ks) @ rest) acc = Ok (fold (\<lambda>k. fmupd k (index_map m k)) ks acc)"
  using assms by (induction ks arbitrary: acc) (simp_all add: pair_bytes_def)

lemma fold_fmupd_lookup:
  "fmlookup (fold (\<lambda>k. fmupd k (f k)) ks acc) x = (if x \<in> set ks then Some (f x) else fmlookup acc x)"
  by (induction ks arbitrary: acc) auto

lemma decode_encodeMap:
  assumes "encodable_map m"
  shows "decodeMap (encodeMap m @ rest) = Ok m"
proof -
  let ?ks = "sorted_list_of_fset (fmdom m)"
  have len: "length ?ks = fcard (fmdom m)"
    by (simp add: fcard.rep_eq sorted_list_of_fset.rep_eq)
  have "\<forall>k \<in> set ?ks. length k < 2 ^ 64 \<and> length (index_map m k) < 2 ^ 64"
    using assms by (auto simp: encodable_map_def index_map_def fmlookup_dom_iff)
  then have "decode_pairs (fcard (fmdom m)) (concat (map (pair_bytes m) ?ks) @ rest) fmempty =
      Ok (fold (\<lambda>k. fmupd k (index_map m k)) ?ks fmempty)"
    unfolding len [symmetric] by (rule decode_pairs_concat)
  moreover have "fold (\<lambda>k. fmupd k (index_map m k)) ?ks fmempty = m"
    by (rule fmap_ext) (auto simp: fold_fmupd_lookup index_map_def fmlookup_dom_iff split: option.splits
      intro: fmdom_notD)
  moreover have "unat (of_nat (fcard (fmdom m)) :: uint64) = fcard (fmdom m)"
    using assms by (intro unat_of_nat_uint64) (simp add: encodable_map_def)
  ultimately show ?thesis
    by (simp add: decodeMap_def encodeMap_eq)
qed

lemma decode_pairs_no_crash: "decode_pairs n b m \<noteq> Crash"
  by (induction n arbitrary: b m) (auto simp: rbind_Crash_iff readBytes_no_crash split: prod.splits)

lemma decodeMap_no_crash: "decodeMap b \<noteq> Crash"
  by (auto simp: decodeMap_def decode_pairs_no_crash split: prod.splits)

section \<open>Properties\<close>

text \<open>C29. The log carries every command intact: what \<open>DecodeCommand\<close> reads from the bytes
  \<open>EncodeCommand\<close> produced, whatever follows them, is the command itself, where an operation other
  than a set has lost the value it does not use.\<close>

theorem command_round_trip:
  assumes "EncodeCommand cmd = Ok b"
  shows "DecodeCommand (b @ rest) = Ok (if cOp cmd = OpSet then cmd else cmd\<lparr>cValue := []\<rparr>)"
  using DecodeCommand_bytes [of cmd rest] EncodeCommand_Ok [OF assms] by (simp add: logged_def)

definition demo_command :: Command where
  "demo_command = \<lparr>cOp = OpSet, cKey = [107], cValue = [1, 2, 3], cClientID = 300, cSequence = 7\<rparr>"

theorem command_round_trip_witness:
  "EncodeCommand demo_command = Ok [0, 172, 2, 7, 1, 107, 3, 1, 2, 3] \<and>
   DecodeCommand [0, 172, 2, 7, 1, 107, 3, 1, 2, 3, 255] = Ok demo_command"
proof -
  have e: "EncodeCommand demo_command = Ok [0, 172, 2, 7, 1, 107, 3, 1, 2, 3]"
    by code_simp
  with command_round_trip [OF e, of "[255]"] show ?thesis
    by (simp add: demo_command_def)
qed

text \<open>C30. A snapshot holds the whole map and nothing else: decoding an encoded map gives it back, and
  so two maps with the same image are equal.\<close>

theorem snapshot_round_trip:
  assumes "encodable_map m"
  shows "decodeMap (encodeMap m) = Ok m"
  using decode_encodeMap [OF assms, of "[]"] by simp

definition demo_map :: kvmap where
  "demo_map = fmupd [2] [9, 9] (fmupd [1, 1] [] (fmupd [2] [5] fmempty))"

theorem snapshot_round_trip_witness:
  "encodeMap demo_map = [2, 2, 1, 1, 0, 1, 2, 2, 9, 9] \<and> decodeMap [2, 2, 1, 1, 0, 1, 2, 2, 9, 9] = Ok demo_map"
proof -
  have "encodable_map demo_map"
    using card_length [of "[[2], [1, 1], [2] :: bytes]"]
    by (auto simp: encodable_map_def demo_map_def fcard.rep_eq split: if_splits)
  moreover have "encodeMap demo_map = [2, 2, 1, 1, 0, 1, 2, 2, 9, 9]"
    by code_simp
  ultimately show ?thesis
    using snapshot_round_trip [of demo_map] by simp
qed

end
