(* ===== verification/Go_Maps.thy ===== *)
theory Go_Maps
  imports Raft_Prelude "HOL-Library.Finite_Map"
begin

text \<open>
  Iteration over Go maps. A map is a finite map; \<open>range\<close> visits each of its entries once, in an order
  the language leaves open. Code that ranges over a map takes the order as a parameter \<open>iter\<close>, about
  which only that is assumed (locale \<open>map_range\<close>).
\<close>

type_synonym ('k, 'v) iteration = "('k, 'v) fmap \<Rightarrow> ('k \<times> 'v) list"

text \<open>The values of a map, with their multiplicities.\<close>

definition fm_values :: "('k, 'v) fmap \<Rightarrow> 'v multiset" where
  "fm_values m = image_mset (\<lambda>k. the (fmlookup m k)) (mset_set (fset (fmdom m)))"

lemma fm_values_empty [simp]: "fm_values fmempty = {#}"
  by (simp add: fm_values_def)

lemma fm_values_drop: "fmlookup m k = Some v \<Longrightarrow> fm_values m = add_mset v (fm_values (fmdrop k m))"
proof -
  assume "fmlookup m k = Some v"
  moreover have "image_mset (\<lambda>j. the (fmlookup (fmdrop k m) j)) (mset_set (fset (fmdom m) - {k})) =
      image_mset (\<lambda>j. the (fmlookup m j)) (mset_set (fset (fmdom m) - {k}))"
    by (rule image_mset_cong) auto
  ultimately show ?thesis
    using mset_set.remove [of "fset (fmdom m)" k] by (auto simp: fm_values_def fmlookup_dom_iff)
qed

lemma fm_values_upd: "fm_values (fmupd k v m) = add_mset v (fm_values (fmdrop k m))"
  using fm_values_drop [of "fmupd k v m" k v] by (simp add: fmdrop_fmupd_same)

lemma fm_values_drop_le: "fm_values (fmdrop k m) \<subseteq># fm_values m"
proof (cases "fmlookup m k")
  case None
  then have "fmdrop k m = m" by (intro fmap_ext) auto
  then show ?thesis by simp
qed (simp add: fm_values_drop)

locale map_range =
  fixes iter :: "('k, 'v) iteration"
  assumes each_once: "distinct (map fst (iter m))"
    and all_entries: "map_of (iter m) = fmlookup m"
begin

lemma range_set: "(k, v) \<in> set (iter m) \<longleftrightarrow> fmlookup m k = Some v"
  using map_of_eq_Some_iff [OF each_once, of m k v] all_entries by simp

text \<open>
  A loop that removes each entry it visits ends with the empty map, and what it does with the entries
  is done for exactly the entries of the map.
\<close>

lemma range_drop_all: "fold (\<lambda>(k, _). fmdrop k) (iter m) m = fmempty"
proof -
  have "fmlookup (fold (\<lambda>(k, _). fmdrop k) xs m) k = (if k \<in> fst ` set xs then None else fmlookup m k)" for xs :: "('k \<times> 'v) list" and k
    by (induction xs arbitrary: m) (auto simp: fmlookup_drop split: prod.splits)
  moreover have "k \<in> fst ` set (iter m) \<or> fmlookup m k = None" for k
    using range_set [of k _ m] by (cases "fmlookup m k") (force simp: image_iff)+
  ultimately show ?thesis by (intro fmap_ext) auto
qed

lemma range_values: "image_mset snd (mset (iter m)) = fm_values m"
proof -
  have "mset_set (fset (fmdom m)) = mset (map fst (iter m))"
    using each_once [of m] range_set [of _ _ m]
    by (subst mset_set_set [symmetric]) (auto intro!: arg_cong [where f = mset_set] simp: fmlookup_dom_iff image_iff, force+)
  moreover have "image_mset (\<lambda>k. the (fmlookup m k)) (mset (map fst (iter m))) = image_mset snd (mset (iter m))"
    using range_set [of _ _ m] by (auto simp: multiset.map_comp intro!: image_mset_cong)
  ultimately show ?thesis by (simp add: fm_values_def)
qed

end

text \<open>One such order: by key.\<close>

definition by_key :: "('k :: linorder, 'v) iteration" where
  "by_key m = map (\<lambda>k. (k, the (fmlookup m k))) (sorted_list_of_fset (fmdom m))"

lemma map_of_map_keys: "map_of (map (\<lambda>k. (k, f k)) ks) x = (if x \<in> set ks then Some (f x) else None)"
  by (induction ks) auto

interpretation by_key: map_range by_key
proof
  fix m :: "('k :: linorder, 'v) fmap"
  show "distinct (map fst (by_key m))"
    by (simp add: by_key_def comp_def sorted_list_of_fset.rep_eq)
  show "map_of (by_key m) = fmlookup m"
    by (rule ext) (auto simp: by_key_def map_of_map_keys fmlookup_dom_iff intro: fmdom_notD [symmetric])
qed

lemma rev_range: "map_range r \<Longrightarrow> map_range (\<lambda>m. rev (r m))"
  unfolding map_range_def by (metis distinct_rev map_of_eqI map_of_inject_set rev_map set_rev)

end
