(* ===== verification/KV_Store.thy ===== *)
theory KV_Store
  imports KV_Encoding Raft_Types Go_Maps "HOL-Library.Product_Lexorder"
begin

text \<open>
  The replicated state machine, \<open>kvstore/kvstore.go\<close> and \<open>kvstore/session.go\<close>: a map driven by the
  log, with a bounded table of client sessions that recognises retries. The mutex only separates the
  run goroutine from readers, so every method is one atomic step.

  Go iterates over a map in no particular order. \<open>evictSessions\<close> does, so it takes the iteration as a
  parameter \<open>iter\<close>, whose only law is that it visits each entry once (locale \<open>map_range\<close>); that the
  store's behaviour does not depend on it is proved below.
\<close>

section \<open>State\<close>

definition DefaultMaxSessions :: int where
  "DefaultMaxSessions = 4096"

record Result =
  Existed :: bool
  Duplicate :: bool

definition zeroResult :: Result where
  "zeroResult = \<lparr>Existed = False, Duplicate = False\<rparr>"

record session =
  lastSeq :: uint64
  lastIndex_of :: Index
  sResult :: Result

type_synonym sessions = "(uint64, session) fmap"

record Store =
  sData :: kvmap
  sSessions :: sessions
  maxSessions :: int
  sApplied :: Index

definition NewWithSessionLimit :: "int \<Rightarrow> Store" where
  "NewWithSessionLimit n =
     \<lparr>sData = fmempty, sSessions = fmempty, maxSessions = (if n < 1 then 1 else n), sApplied = 0\<rparr>"

definition New :: Store where
  "New = NewWithSessionLimit DefaultMaxSessions"

section \<open>Sessions\<close>

definition checkSession :: "uint64 \<Rightarrow> uint64 \<Rightarrow> Store \<Rightarrow> Result \<times> bool" where
  "checkSession clientID seq s =
     (if clientID = 0 then (zeroResult, False)
      else case fmlookup (sSessions s) clientID of
             None \<Rightarrow> (zeroResult, False)
           | Some prev \<Rightarrow> if lastSeq prev < seq then (zeroResult, False)
                          else ((sResult prev)\<lparr>Duplicate := True\<rparr>, True))"

type_synonym map_iter = "(uint64, session) iteration"

text \<open>
  The candidates sorted by last index, then by client. No two candidates are equal in that order, so
  any sorting algorithm gives this list.
\<close>

definition evictSessions :: "map_iter \<Rightarrow> Store \<Rightarrow> Store" where
  "evictSessions iter s =
     (let n = int (fcard (fmdom (sSessions s)))
      in if n \<le> maxSessions s then s
         else (let candidates = sort (map (\<lambda>(id, sess). (lastIndex_of sess, id)) (iter (sSessions s)))
               in s\<lparr>sSessions := fold (\<lambda>(_, id). fmdrop id) (take (nat (n - maxSessions s)) candidates) (sSessions s)\<rparr>))"

definition recordSession :: "map_iter \<Rightarrow> uint64 \<Rightarrow> uint64 \<Rightarrow> Index \<Rightarrow> Result \<Rightarrow> Store \<Rightarrow> Store" where
  "recordSession iter clientID seq index result s =
     (if clientID = 0 then s
      else evictSessions iter
        (s\<lparr>sSessions := fmupd clientID \<lparr>lastSeq = seq, lastIndex_of = index, sResult = result\<rparr> (sSessions s)\<rparr>))"

definition Sessions :: "Store \<Rightarrow> int" where
  "Sessions s = int (fcard (fmdom (sSessions s)))"

section \<open>Operations\<close>

definition Apply :: "map_iter \<Rightarrow> LogEntry \<Rightarrow> Store \<Rightarrow> (Result, Store) outcome" where
  "Apply iter entry s =
     bind (lift (DecodeCommand (eCommand entry)) s) (\<lambda>cmd s.
       case checkSession (cClientID cmd) (cSequence cmd) s of
         (result, True) \<Rightarrow> Done result (s\<lparr>sApplied := eIndex entry\<rparr>)
       | (_, False) \<Rightarrow>
           let finish = (\<lambda>result s. Done result
                 ((recordSession iter (cClientID cmd) (cSequence cmd) (eIndex entry) result s)\<lparr>sApplied := eIndex entry\<rparr>))
           in if cOp cmd = OpSet then finish zeroResult (s\<lparr>sData := fmupd (cKey cmd) (cValue cmd) (sData s)\<rparr>)
              else if cOp cmd = OpDelete then
                finish (zeroResult\<lparr>Existed := fmlookup (sData s) (cKey cmd) \<noteq> None\<rparr>)
                       (s\<lparr>sData := fmdrop (cKey cmd) (sData s)\<rparr>)
              else Fail (ErrMsg ''unknown operation'') s)"

definition Get :: "bytes \<Rightarrow> Store \<Rightarrow> bytes \<times> bool" where
  "Get key s = (case fmlookup (sData s) key of None \<Rightarrow> ([], False) | Some v \<Rightarrow> (v, True))"

definition AppliedIndex :: "Store \<Rightarrow> Index" where
  "AppliedIndex s = sApplied s"

definition Len :: "Store \<Rightarrow> int" where
  "Len s = int (fcard (fmdom (sData s)))"

definition Keys :: "Store \<Rightarrow> bytes list" where
  "Keys s = sorted_list_of_fset (fmdom (sData s))"

definition Store_Snapshot :: "Store \<Rightarrow> bytes" where
  "Store_Snapshot s = encodeMap (sData s)"

definition Restore :: "bytes \<Rightarrow> Index \<Rightarrow> Store \<Rightarrow> (unit, Store) outcome" where
  "Restore data appliedIndex s =
     bind (lift (decodeMap data) s) (\<lambda>m s. Done () (s\<lparr>sData := m, sApplied := appliedIndex\<rparr>))"

text \<open>The log applied in order, as the driver does it; the answers are in log order.\<close>

fun apply_all :: "map_iter \<Rightarrow> LogEntry list \<Rightarrow> Store \<Rightarrow> (Result list, Store) outcome" where
  "apply_all iter [] s = Done [] s"
| "apply_all iter (e # es) s =
     bind (Apply iter e s) (\<lambda>x s. bind (apply_all iter es s) (\<lambda>xs s. Done (x # xs) s))"

section \<open>Iterating over a map\<close>

text \<open>How recently a client was heard of: the log index of its last write, then its name.\<close>

definition recency :: "sessions \<Rightarrow> uint64 \<Rightarrow> Index \<times> uint64" where
  "recency m i = (lastIndex_of (the (fmlookup m i)), i)"

definition newer :: "sessions \<Rightarrow> uint64 \<Rightarrow> uint64 set" where
  "newer m i = {j \<in> fset (fmdom m). recency m i < recency m j}"

definition evict_spec :: "Store \<Rightarrow> Store" where
  "evict_spec s =
     (let m = sSessions s; n = int (fcard (fmdom m))
      in if n \<le> maxSessions s then s
         else s\<lparr>sSessions := fold (\<lambda>(_, i). fmdrop i)
                 (take (nat (n - maxSessions s)) (sorted_list_of_set (recency m ` fset (fmdom m)))) m\<rparr>)"

locale session_range = map_range iter for iter :: map_iter
begin

text \<open>The eviction order does not depend on the order of iteration.\<close>

lemma candidates_eq:
  "sort (map (\<lambda>(i, x). (lastIndex_of x, i)) (iter m)) = sorted_list_of_set (recency m ` fset (fmdom m))"
proof -
  let ?f = "\<lambda>(i, x). (lastIndex_of x, i)" and ?xs = "iter m"
  have "distinct (map snd (map ?f ?xs))"
    using each_once [of m] by (simp add: comp_def case_prod_beta' cong: map_cong)
  then have "distinct (map ?f ?xs)" by (metis distinct_map)
  moreover have "set (map ?f ?xs) = recency m ` fset (fmdom m)"
    by (force simp: range_set recency_def fmlookup_dom_iff image_iff)
  ultimately show ?thesis
    by (metis distinct_remdups_id sorted_list_of_set_sort_remdups)
qed

lemma evictSessions_eq: "evictSessions iter s = evict_spec s"
  by (simp add: evictSessions_def evict_spec_def candidates_eq Let_def)

end

lemma by_client_range: "session_range by_key"
  by (simp add: session_range_def by_key.map_range_axioms)

interpretation by_client: session_range by_key
  by (rule by_client_range)

lemma rev_client_range: "session_range r \<Longrightarrow> session_range (\<lambda>m. rev (r m))"
  by (simp add: session_range_def rev_range)

section \<open>Eviction\<close>

lemma take_sorted_iff:
  assumes "sorted_wrt (<) (xs :: 'a :: linorder list)" and "x \<in> set xs" and "k \<le> length xs"
  shows "x \<in> set (take k xs) \<longleftrightarrow> length xs - k \<le> card {y \<in> set xs. x < y}"
proof -
  obtain i where i: "i < length xs" "x = xs ! i"
    using assms(2) by (auto simp: in_set_conv_nth)
  have d: "distinct xs" using assms(1) strict_sorted_iff by blast
  have "{y \<in> set xs. x < y} = set (drop (Suc i) xs)"
  proof (intro equalityI subsetI)
    fix y assume "y \<in> {y \<in> set xs. x < y}"
    then obtain j where j: "j < length xs" "y = xs ! j" "xs ! i < xs ! j"
      using i by (auto simp: in_set_conv_nth)
    then have "i < j"
      using assms(1) i by (metis linorder_neqE_nat order_less_asym sorted_wrt_nth_less)
    then show "y \<in> set (drop (Suc i) xs)"
      using j by (auto simp: in_set_conv_nth intro!: exI [of _ "j - Suc i"])
  next
    fix y assume "y \<in> set (drop (Suc i) xs)"
    then show "y \<in> {y \<in> set xs. x < y}"
      using assms(1) i by (auto simp: in_set_conv_nth sorted_wrt_nth_less intro!: exI [of _ "Suc (i + _)"])
  qed
  then have "card {y \<in> set xs. x < y} = length xs - Suc i"
    using d by (simp add: distinct_card)
  moreover have "x \<in> set (take k xs) \<longleftrightarrow> i < k"
    using i d assms(3) by (auto simp: in_set_conv_nth nth_eq_iff_index_eq)
  ultimately show ?thesis using i(1) assms(3) by auto
qed

lemma fold_fmdrop_lookup:
  "fmlookup (fold (\<lambda>(_, i). fmdrop i) xs m) j = (if j \<in> snd ` set xs then None else fmlookup m j)"
  by (induction xs arbitrary: m) auto

lemma recency_inj: "inj (recency m)"
  by (rule injI) (simp add: recency_def)

lemma recency_mem: "i \<in> snd ` (recency m ` A) \<longleftrightarrow> i \<in> A"
  by (auto simp: recency_def image_iff)

lemma card_newer:
  "card {y \<in> recency m ` fset (fmdom m). recency m i < y} = card (newer m i)"
proof -
  have "{y \<in> recency m ` fset (fmdom m). recency m i < y} = recency m ` newer m i"
    by (auto simp: newer_def)
  then show ?thesis by (simp add: card_image inj_on_subset [OF recency_inj])
qed

lemma newer_bound:
  assumes "i |\<in>| fmdom m"
  shows "card (newer m i) < fcard (fmdom m)"
proof -
  have "newer m i \<subset> fset (fmdom m)" using assms by (auto simp: newer_def)
  then show ?thesis by (simp add: fcard.rep_eq psubset_card_mono)
qed

text \<open>A session survives exactly if fewer than the limit have been used more recently.\<close>

lemma evict_lookup:
  assumes "0 \<le> maxSessions s"
  shows "fmlookup (sSessions (evict_spec s)) i =
    (if int (card (newer (sSessions s) i)) < maxSessions s then fmlookup (sSessions s) i else None)"
proof (cases "i |\<in>| fmdom (sSessions s)")
  case False
  then have "fmlookup (sSessions s) i = None" by (simp add: fmlookup_dom_iff)
  then show ?thesis by (simp add: evict_spec_def Let_def fold_fmdrop_lookup)
next
  case True
  let ?m = "sSessions s" and ?n = "fcard (fmdom (sSessions s))"
  let ?L = "sorted_list_of_set (recency ?m ` fset (fmdom ?m))"
  have len: "length ?L = ?n"
    by (simp add: card_image inj_on_subset [OF recency_inj] fcard.rep_eq)
  have "i \<in> snd ` set (take k ?L) \<longleftrightarrow> recency ?m i \<in> set (take k ?L)" for k
  proof
    assume "i \<in> snd ` set (take k ?L)"
    then obtain y where "y \<in> set (take k ?L)" "snd y = i" by auto
    moreover then have "y \<in> recency ?m ` fset (fmdom ?m)" using in_set_takeD by fastforce
    ultimately show "recency ?m i \<in> set (take k ?L)" by (auto simp: recency_def)
  qed (force simp: recency_def)
  moreover have "recency ?m i \<in> set (take k ?L) \<longleftrightarrow> ?n - k \<le> card (newer ?m i)" if "k \<le> ?n" for k
    using take_sorted_iff [of ?L "recency ?m i" k] True that len by (simp add: card_newer)
  ultimately show ?thesis
    using assms newer_bound [OF True]
    by (simp add: evict_spec_def Let_def fold_fmdrop_lookup) linarith
qed

lemma evict_others [simp]:
  "sData (evict_spec s) = sData s" "maxSessions (evict_spec s) = maxSessions s" "sApplied (evict_spec s) = sApplied s"
  by (simp_all add: evict_spec_def Let_def)

lemma evict_bound:
  assumes "0 \<le> maxSessions s"
  shows "Sessions (evict_spec s) \<le> maxSessions s"
proof (cases "Sessions s \<le> maxSessions s")
  case True
  then show ?thesis by (simp add: Sessions_def evict_spec_def)
next
  case False
  let ?m = "sSessions s" and ?k = "nat (Sessions s - maxSessions s)"
  let ?L = "sorted_list_of_set (recency ?m ` fset (fmdom ?m))"
  have "j \<in> snd ` set (drop ?k ?L)" if "j |\<in>| fmdom (sSessions (evict_spec s))" for j
  proof -
    from that have "j \<notin> snd ` set (take ?k ?L)" and j: "j |\<in>| fmdom ?m"
      using False by (auto simp: evict_spec_def Let_def fmlookup_dom_iff fold_fmdrop_lookup Sessions_def split: if_splits)
    moreover have "recency ?m j \<in> set (take ?k ?L @ drop ?k ?L)" using j by simp
    moreover have "snd (recency ?m j) = j" by (simp add: recency_def)
    ultimately show ?thesis by (metis Un_iff image_eqI set_append)
  qed
  then have "fset (fmdom (sSessions (evict_spec s))) \<subseteq> snd ` set (drop ?k ?L)" by auto
  then have "fcard (fmdom (sSessions (evict_spec s))) \<le> card (snd ` set (drop ?k ?L))"
    by (simp add: fcard.rep_eq card_mono)
  also have "\<dots> \<le> length (drop ?k ?L)"
    using card_image_le [of "set (drop ?k ?L)" snd] card_length [of "drop ?k ?L"] by simp
  also have "\<dots> = nat (maxSessions s)"
    using False assms by (simp add: card_image inj_on_subset [OF recency_inj] Sessions_def fcard.rep_eq)
  finally show ?thesis using assms by (simp add: Sessions_def)
qed

section \<open>What one command does\<close>

definition mutate :: "Command \<Rightarrow> kvmap \<Rightarrow> kvmap" where
  "mutate cmd m = (if cOp cmd = OpSet then fmupd (cKey cmd) (cValue cmd) m else fmdrop (cKey cmd) m)"

definition answer :: "Command \<Rightarrow> kvmap \<Rightarrow> Result" where
  "answer cmd m = zeroResult\<lparr>Existed := cOp cmd = OpDelete \<and> fmlookup m (cKey cmd) \<noteq> None\<rparr>"

definition known_op :: "Command \<Rightarrow> bool" where
  "known_op cmd \<longleftrightarrow> cOp cmd = OpSet \<or> cOp cmd = OpDelete"

lemma OpSet_not_OpDelete [simp]: "OpSet \<noteq> OpDelete" "OpDelete \<noteq> OpSet"
  by (simp_all add: OpSet_def OpDelete_def)

lemma Apply_duplicate:
  assumes "DecodeCommand (eCommand e) = Ok cmd" and "checkSession (cClientID cmd) (cSequence cmd) s = (r, True)"
  shows "Apply iter e s = Done r (s\<lparr>sApplied := eIndex e\<rparr>)"
  using assms by (simp add: Apply_def)

lemma Apply_fresh:
  assumes "DecodeCommand (eCommand e) = Ok cmd" and "\<not> snd (checkSession (cClientID cmd) (cSequence cmd) s)" and "known_op cmd"
  shows "Apply iter e s = Done (answer cmd (sData s))
    ((recordSession iter (cClientID cmd) (cSequence cmd) (eIndex e) (answer cmd (sData s))
       (s\<lparr>sData := mutate cmd (sData s)\<rparr>))\<lparr>sApplied := eIndex e\<rparr>)"
  using assms by (auto simp: Apply_def known_op_def mutate_def answer_def zeroResult_def Let_def split: prod.splits bool.splits)

lemma Apply_Done_cases:
  assumes "Apply iter e s = Done r s'"
  obtains (duplicate) cmd where "DecodeCommand (eCommand e) = Ok cmd"
      "checkSession (cClientID cmd) (cSequence cmd) s = (r, True)" "s' = s\<lparr>sApplied := eIndex e\<rparr>"
  | (fresh) cmd where "DecodeCommand (eCommand e) = Ok cmd" "\<not> snd (checkSession (cClientID cmd) (cSequence cmd) s)"
      "known_op cmd" "r = answer cmd (sData s)"
      "s' = (recordSession iter (cClientID cmd) (cSequence cmd) (eIndex e) (answer cmd (sData s))
        (s\<lparr>sData := mutate cmd (sData s)\<rparr>))\<lparr>sApplied := eIndex e\<rparr>"
proof -
  obtain cmd where c: "DecodeCommand (eCommand e) = Ok cmd"
    using assms by (cases "DecodeCommand (eCommand e)") (auto simp: Apply_def)
  show thesis
  proof (cases "snd (checkSession (cClientID cmd) (cSequence cmd) s)")
    case True
    then obtain x where x: "checkSession (cClientID cmd) (cSequence cmd) s = (x, True)"
      by (cases "checkSession (cClientID cmd) (cSequence cmd) s") auto
    show thesis
      using Apply_duplicate [OF c x, of iter] assms x by (intro duplicate [OF c]) auto
  next
    case False
    then have "known_op cmd"
      using assms c by (auto simp: Apply_def known_op_def split: prod.splits bool.splits if_splits)
    then show thesis
      using Apply_fresh [OF c False, of iter] assms by (intro fresh [OF c False]) auto
  qed
qed

lemma checkSession_True:
  "checkSession c q s = (r, True) \<longleftrightarrow>
     c \<noteq> 0 \<and> (\<exists>x. fmlookup (sSessions s) c = Some x \<and> q \<le> lastSeq x \<and> r = (sResult x)\<lparr>Duplicate := True\<rparr>)"
  by (auto simp: checkSession_def split: option.splits)

lemma checkSession_False:
  "\<not> snd (checkSession c q s) \<longleftrightarrow> c = 0 \<or> (\<forall>x. fmlookup (sSessions s) c = Some x \<longrightarrow> lastSeq x < q)"
  by (auto simp: checkSession_def split: option.splits)

text \<open>An entry that cannot be applied leaves the store as it was, and nothing panics.\<close>

lemma Apply_total:
  "(\<exists>r s'. Apply iter e s = Done r s') \<or> (\<exists>err. Apply iter e s = Fail err s)"
proof (cases "DecodeCommand (eCommand e)")
  case (Ok cmd)
  then show ?thesis
    by (cases "checkSession (cClientID cmd) (cSequence cmd) s") (auto simp: Apply_def Let_def split: bool.splits)
qed (auto simp: Apply_def DecodeCommand_no_crash)

section \<open>The session table\<close>

definition store_wf :: "Store \<Rightarrow> bool" where
  "store_wf s \<longleftrightarrow> 1 \<le> maxSessions s \<and> Sessions s \<le> maxSessions s"

abbreviation put_session :: "uint64 \<Rightarrow> uint64 \<Rightarrow> Index \<Rightarrow> Result \<Rightarrow> sessions \<Rightarrow> sessions" where
  "put_session c q i r m \<equiv> fmupd c \<lparr>lastSeq = q, lastIndex_of = i, sResult = r\<rparr> m"

text \<open>The clients with a session among the entries of a log.\<close>

definition clients :: "LogEntry list \<Rightarrow> uint64 set" where
  "clients es = {cClientID cmd | e cmd. e \<in> set es \<and> DecodeCommand (eCommand e) = Ok cmd} - {0}"

text \<open>
  What the log means: each request counts once, at its first occurrence. A request is known by its client
  and its sequence number; a command without a client is a request of its own. \<open>seen\<close> are the requests
  so far.
\<close>

definition request :: "Command \<Rightarrow> uint64 \<times> uint64" where
  "request cmd = (cClientID cmd, cSequence cmd)"

fun first_copies :: "(uint64 \<times> uint64) set \<Rightarrow> Command list \<Rightarrow> Command list" where
  "first_copies seen [] = []"
| "first_copies seen (cmd # cmds) =
     (if cClientID cmd \<noteq> 0 \<and> request cmd \<in> seen then first_copies seen cmds
      else cmd # first_copies (insert (request cmd) seen) cmds)"

text \<open>Each client's requests reach the log, for the first time, in the order of their numbers.\<close>

fun in_order :: "(uint64 \<times> uint64) set \<Rightarrow> Command list \<Rightarrow> bool" where
  "in_order seen [] = True"
| "in_order seen (cmd # cmds) =
     ((cClientID cmd = 0 \<or> request cmd \<in> seen \<or> (\<forall>(c, q) \<in> seen. c = cClientID cmd \<longrightarrow> q < cSequence cmd)) \<and>
      in_order (insert (request cmd) seen) cmds)"

text \<open>What the session table does instead: it keeps the highest sequence number of each client.\<close>

definition is_retry :: "(uint64 \<Rightarrow> uint64 option) \<Rightarrow> Command \<Rightarrow> bool" where
  "is_retry seen cmd \<longleftrightarrow> cClientID cmd \<noteq> 0 \<and> (\<exists>q. seen (cClientID cmd) = Some q \<and> cSequence cmd \<le> q)"

definition note_seq :: "Command \<Rightarrow> (uint64 \<Rightarrow> uint64 option) \<Rightarrow> uint64 \<Rightarrow> uint64 option" where
  "note_seq cmd seen = (if cClientID cmd = 0 then seen else seen(cClientID cmd \<mapsto> cSequence cmd))"

fun not_retries :: "(uint64 \<Rightarrow> uint64 option) \<Rightarrow> Command list \<Rightarrow> Command list" where
  "not_retries seen [] = []"
| "not_retries seen (cmd # cmds) =
     (if is_retry seen cmd then not_retries seen cmds
      else cmd # not_retries (note_seq cmd seen) cmds)"

text \<open>\<open>m\<close> has the highest number of each client among the requests \<open>R\<close>.\<close>

definition highest :: "(uint64 \<Rightarrow> uint64 option) \<Rightarrow> (uint64 \<times> uint64) set \<Rightarrow> bool" where
  "highest m R \<longleftrightarrow> (\<forall>c. c \<noteq> 0 \<longrightarrow>
     (case m c of None \<Rightarrow> \<forall>q. (c, q) \<notin> R | Some k \<Rightarrow> (c, k) \<in> R \<and> (\<forall>q. (c, q) \<in> R \<longrightarrow> q \<le> k)))"

lemma in_order_retry:
  assumes "highest m R" and "in_order R (cmd # cmds)"
  shows "is_retry m cmd \<longleftrightarrow> cClientID cmd \<noteq> 0 \<and> request cmd \<in> R"
proof (cases "m (cClientID cmd)")
  case None
  then show ?thesis using assms(1) by (auto simp: is_retry_def highest_def request_def)
next
  case (Some k)
  have k: "(cClientID cmd, k) \<in> R" "(cClientID cmd, q) \<in> R \<Longrightarrow> q \<le> k" if "cClientID cmd \<noteq> 0" for q
    using assms(1) that Some by (auto simp: highest_def split: option.splits)
  have "cSequence cmd \<le> k" if "cClientID cmd \<noteq> 0" "request cmd \<in> R" using k(2) that by (simp add: request_def)
  moreover have "request cmd \<in> R" if "cClientID cmd \<noteq> 0" "cSequence cmd \<le> k"
    using k(1) that assms(2) by (auto dest!: leD)
  ultimately show ?thesis using Some by (auto simp: is_retry_def)
qed

lemma in_order_not_retries: "highest m R \<Longrightarrow> in_order R cmds \<Longrightarrow> not_retries m cmds = first_copies R cmds"
proof (induction cmds arbitrary: m R)
  case (Cons cmd cmds)
  note retry = in_order_retry [OF Cons.prems]
  show ?case
  proof (cases "is_retry m cmd")
    case True
    with retry have "insert (request cmd) R = R" by auto
    with True retry Cons show ?thesis by simp
  next
    case False
    have "highest (note_seq cmd m) (insert (request cmd) R)"
      using Cons.prems False by (fastforce simp: highest_def note_seq_def request_def is_retry_def not_le split: option.splits if_splits)
    with False retry Cons show ?thesis by auto
  qed
qed simp

text \<open>
  Following one client's session through the log. \<open>tracked c A idx P s\<close>: the client is remembered, with
  a session that satisfies \<open>P\<close> and was used at \<open>idx\<close> or later, and only clients of \<open>A\<close> have been
  heard of since.
\<close>

definition tracked :: "uint64 \<Rightarrow> uint64 set \<Rightarrow> Index \<Rightarrow> (session \<Rightarrow> bool) \<Rightarrow> Store \<Rightarrow> bool" where
  "tracked c A idx P s \<longleftrightarrow>
     (\<exists>x. fmlookup (sSessions s) c = Some x \<and> P x \<and> idx \<le> lastIndex_of x) \<and>
     (\<forall>j y. fmlookup (sSessions s) j = Some y \<longrightarrow> idx \<le> lastIndex_of y \<longrightarrow> j = c \<or> j \<in> A)"

context session_range
begin

lemma record_max [simp]: "maxSessions (recordSession iter c q i r s) = maxSessions s"
  and record_data [simp]: "sData (recordSession iter c q i r s) = sData s"
  by (simp_all add: recordSession_def evictSessions_eq)

lemma record_lookup:
  assumes "c \<noteq> 0" and "0 \<le> maxSessions s"
  shows "fmlookup (sSessions (recordSession iter c q i r s)) j =
    (if int (card (newer (put_session c q i r (sSessions s)) j)) < maxSessions s
     then fmlookup (put_session c q i r (sSessions s)) j else None)"
  using assms by (simp add: recordSession_def evictSessions_eq evict_lookup del: fmupd_lookup)

lemma record_bound:
  assumes "0 \<le> maxSessions s" and "Sessions s \<le> maxSessions s"
  shows "Sessions (recordSession iter c q i r s) \<le> maxSessions s"
  using assms evict_bound [of "s\<lparr>sSessions := put_session c q i r (sSessions s)\<rparr>"]
  by (simp add: recordSession_def evictSessions_eq)

lemma Apply_wf:
  assumes "store_wf s" and "Apply iter e s = Done r s'"
  shows "store_wf s' \<and> maxSessions s' = maxSessions s \<and> sApplied s' = eIndex e"
  using assms(2)
proof (cases rule: Apply_Done_cases)
  case (duplicate cmd)
  then show ?thesis using assms(1) by (simp add: store_wf_def Sessions_def)
next
  case (fresh cmd)
  let ?s = "s\<lparr>sData := mutate cmd (sData s)\<rparr>"
  have "Sessions (recordSession iter (cClientID cmd) (cSequence cmd) (eIndex e) r ?s) \<le> maxSessions s"
    using assms(1) record_bound [of ?s] by (simp add: store_wf_def Sessions_def)
  then show ?thesis
    using assms(1) fresh by (simp add: store_wf_def Sessions_def)
qed

lemma newer_tracked:
  assumes "fmlookup m c = Some x" and "idx \<le> lastIndex_of x"
    and "\<And>j y. fmlookup m j = Some y \<Longrightarrow> idx \<le> lastIndex_of y \<Longrightarrow> j = c \<or> j \<in> A"
  shows "newer m c \<subseteq> A - {c}"
proof
  fix j assume j: "j \<in> newer m c"
  then obtain y where y: "fmlookup m j = Some y" by (auto simp: newer_def fmlookup_dom_iff)
  with j assms(1) have "j \<noteq> c" "lastIndex_of x \<le> lastIndex_of y"
    by (auto simp: newer_def recency_def)
  with assms(2,3) y show "j \<in> A - {c}" by fastforce
qed

lemma record_tracked:
  assumes "d \<noteq> 0" and m: "m = put_session d q i r (sSessions s)"
    and c: "fmlookup m c = Some x" "P x" "idx \<le> lastIndex_of x"
    and A: "\<And>j y. fmlookup m j = Some y \<Longrightarrow> idx \<le> lastIndex_of y \<Longrightarrow> j = c \<or> j \<in> A"
    and few: "finite A" "int (card (A - {c})) < maxSessions s"
  shows "tracked c A idx P (recordSession iter d q i r s)"
proof -
  have "card (newer m c) \<le> card (A - {c})"
    using newer_tracked [OF c(1,3) A] few(1) by (intro card_mono) auto
  then have "fmlookup (sSessions (recordSession iter d q i r s)) c = Some x"
    using few c(1) assms(1) by (simp add: record_lookup m del: fmupd_lookup)
  moreover have "fmlookup m j = Some y" if "fmlookup (sSessions (recordSession iter d q i r s)) j = Some y" for j y
    using that few assms(1) by (simp add: record_lookup m del: fmupd_lookup split: if_splits)
  ultimately show ?thesis
    using c A by (auto simp: tracked_def)
qed

lemma Apply_tracked:
  assumes t: "tracked c A idx P s" and few: "finite A" "int (card (A - {c})) < maxSessions s"
    and a: "Apply iter e s = Done r s'" "idx \<le> eIndex e"
    and client: "\<And>cmd. DecodeCommand (eCommand e) = Ok cmd \<Longrightarrow> cClientID cmd = 0 \<or> cClientID cmd \<in> A"
    and own: "\<And>cmd x y. DecodeCommand (eCommand e) = Ok cmd \<Longrightarrow> cClientID cmd = c \<Longrightarrow> P x \<Longrightarrow>
      lastSeq x < cSequence cmd \<Longrightarrow> lastSeq y = cSequence cmd \<Longrightarrow> P y"
  shows "tracked c A idx P s' \<and> maxSessions s' = maxSessions s"
  using a(1)
proof (cases rule: Apply_Done_cases)
  case (duplicate cmd)
  then show ?thesis using t by (simp add: tracked_def)
next
  case (fresh cmd)
  let ?s = "s\<lparr>sData := mutate cmd (sData s)\<rparr>"
  let ?m = "put_session (cClientID cmd) (cSequence cmd) (eIndex e) r (sSessions ?s)"
  obtain x where x: "fmlookup (sSessions s) c = Some x" "P x" "idx \<le> lastIndex_of x"
    and A: "\<And>j y. fmlookup (sSessions s) j = Some y \<Longrightarrow> idx \<le> lastIndex_of y \<Longrightarrow> j = c \<or> j \<in> A"
    using t by (auto simp: tracked_def)
  show ?thesis
  proof (cases "cClientID cmd = 0")
    case True
    then show ?thesis using t fresh(4,5) by (simp add: tracked_def recordSession_def)
  next
    case False
    then have in_A: "cClientID cmd \<in> A" using client [OF fresh(1)] by simp
    have new: "P y" if "c = cClientID cmd" "lastSeq y = cSequence cmd" for y
      using fresh(2) x(1,2) False that own [OF fresh(1), of x y] by (auto simp: checkSession_False)
    obtain z where "fmlookup ?m c = Some z" "P z" "idx \<le> lastIndex_of z"
      using x a(2) new by (cases "c = cClientID cmd") auto
    then have "tracked c A idx P (recordSession iter (cClientID cmd) (cSequence cmd) (eIndex e) r ?s)"
      using few in_A A by (intro record_tracked [OF False refl]) (auto split: if_splits)
    then show ?thesis using fresh(4,5) by (simp add: tracked_def)
  qed
qed

lemma apply_all_tracked:
  assumes "apply_all iter es s = Done rs s'" and "tracked c A idx P s" and "finite A" and "int (card (A - {c})) < maxSessions s"
    and "clients es \<subseteq> A" and "\<And>e. e \<in> set es \<Longrightarrow> idx \<le> eIndex e"
    and "\<And>e cmd x y. e \<in> set es \<Longrightarrow> DecodeCommand (eCommand e) = Ok cmd \<Longrightarrow> cClientID cmd = c \<Longrightarrow> P x \<Longrightarrow>
      lastSeq x < cSequence cmd \<Longrightarrow> lastSeq y = cSequence cmd \<Longrightarrow> P y"
  shows "tracked c A idx P s'"
  using assms
proof (induction es arbitrary: s rs)
  case (Cons e es)
  obtain r s1 rs1 where a: "Apply iter e s = Done r s1" and b: "apply_all iter es s1 = Done rs1 s'"
    using Cons.prems(1) by (auto simp: bind_Done_iff)
  have "tracked c A idx P s1 \<and> maxSessions s1 = maxSessions s"
  proof (rule Apply_tracked [OF Cons.prems(2-4) a])
    show "idx \<le> eIndex e" using Cons.prems(6) by simp
    show "cClientID cmd = 0 \<or> cClientID cmd \<in> A" if "DecodeCommand (eCommand e) = Ok cmd" for cmd
      using that Cons.prems(5) by (auto simp: clients_def)
    show "P y" if "DecodeCommand (eCommand e) = Ok cmd" "cClientID cmd = c" "P x" "lastSeq x < cSequence cmd"
      "lastSeq y = cSequence cmd" for cmd x y
      using Cons.prems(7) [of e cmd x y] that by simp
  qed
  then have "tracked c A idx P s1" "int (card (A - {c})) < maxSessions s1" using Cons.prems(4) by simp_all
  then show ?case
  proof (rule Cons.IH [OF b _ Cons.prems(3)])
    show "clients es \<subseteq> A" using Cons.prems(5) by (auto simp: clients_def)
    show "P y" if "e \<in> set es" "DecodeCommand (eCommand e) = Ok cmd" "cClientID cmd = c" "P x" "lastSeq x < cSequence cmd"
      "lastSeq y = cSequence cmd" for e cmd x y
      using Cons.prems(7) [of e cmd x y] that by simp
  qed (use Cons.prems(6) in auto)
qed simp

lemma record_roomy:
  assumes "fset (fmdom (sSessions s)) \<subseteq> B" and "finite B" and "c \<in> B \<or> c = 0" and "int (card B) \<le> maxSessions s"
  shows "recordSession iter c q i r s = (if c = 0 then s else s\<lparr>sSessions := put_session c q i r (sSessions s)\<rparr>)"
proof (cases "c = 0")
  case False
  let ?m = "put_session c q i r (sSessions s)"
  have "fcard (fmdom ?m) \<le> card B"
    using assms(1-3) False by (auto simp: fcard.rep_eq intro!: card_mono)
  with assms(4) have "int (fcard (fmdom ?m)) \<le> maxSessions s" by linarith
  then show ?thesis
    using False by (simp add: recordSession_def evictSessions_eq evict_spec_def)
qed (simp add: recordSession_def)

lemma apply_all_not_retries:
  assumes "map (\<lambda>e. DecodeCommand (eCommand e)) es = map Ok cmds" and "\<And>c. c \<in> set cmds \<Longrightarrow> known_op c"
    and "fset (fmdom (sSessions s)) \<subseteq> B" and "finite B" and "cClientID ` set cmds \<subseteq> insert 0 B" and "int (card B) \<le> maxSessions s"
  shows "\<exists>rs s'. apply_all iter es s = Done rs s' \<and>
    sData s' = fold mutate (not_retries (\<lambda>c. map_option lastSeq (fmlookup (sSessions s) c)) cmds) (sData s)"
  using assms
proof (induction es arbitrary: s cmds)
  case (Cons e es)
  obtain cmd cs where cs: "cmds = cmd # cs" "DecodeCommand (eCommand e) = Ok cmd"
    using Cons.prems(1) by auto
  note prems = Cons.prems [unfolded cs(1)]
  show ?case
  proof (cases "snd (checkSession (cClientID cmd) (cSequence cmd) s)")
    case True
    then obtain r where r: "checkSession (cClientID cmd) (cSequence cmd) s = (r, True)"
      by (cases "checkSession (cClientID cmd) (cSequence cmd) s") auto
    then have "is_retry (\<lambda>c. map_option lastSeq (fmlookup (sSessions s) c)) cmd"
      by (auto simp: checkSession_True is_retry_def)
    then show ?thesis
      using Cons.IH [of cs "s\<lparr>sApplied := eIndex e\<rparr>"] prems Apply_duplicate [OF cs(2) r, of iter] cs(1) by auto
  next
    case False
    let ?x = "\<lparr>lastSeq = cSequence cmd, lastIndex_of = eIndex e, sResult = answer cmd (sData s)\<rparr>"
    let ?s = "s\<lparr>sData := mutate cmd (sData s), sApplied := eIndex e,
      sSessions := if cClientID cmd = 0 then sSessions s else fmupd (cClientID cmd) ?x (sSessions s)\<rparr>"
    have "\<not> is_retry (\<lambda>c. map_option lastSeq (fmlookup (sSessions s) c)) cmd"
      using False by (auto simp: checkSession_False is_retry_def)
    moreover have "Apply iter e s = Done (answer cmd (sData s)) ?s"
      using Apply_fresh [OF cs(2) False, of iter] prems record_roomy [of "s\<lparr>sData := mutate cmd (sData s)\<rparr>" B]
      by (auto simp: image_subset_iff)
    moreover have "(\<lambda>c. map_option lastSeq (fmlookup (sSessions ?s) c)) =
        note_seq cmd (\<lambda>c. map_option lastSeq (fmlookup (sSessions s) c))"
      by (auto simp: note_seq_def)
    ultimately show ?thesis
      using Cons.IH [of cs ?s] prems cs(1) by (auto simp: image_subset_iff)
  qed
qed simp

end

lemma clients_finite [simp]: "finite (clients es)"
proof -
  have "clients es \<subseteq> (\<lambda>e. case DecodeCommand (eCommand e) of Ok cmd \<Rightarrow> cClientID cmd | _ \<Rightarrow> 0) ` set es"
    by (force simp: clients_def)
  then show ?thesis by (rule finite_subset) simp
qed

section \<open>Properties\<close>

text \<open>C20. Retries are applied once. If the log holds commands of no more clients than the session table
  has room for, and the requests of each client reach it for the first time in the order of their
  sequence numbers, then applying it, with every retry it contains at whatever place, and in whatever
  order the session table is iterated, succeeds and leaves exactly the map that the first copy of each
  request alone would leave.\<close>

theorem retries_applied_once:
  assumes "session_range iter" and "map (\<lambda>e. DecodeCommand (eCommand e)) es = map Ok cmds"
    and "\<forall>c \<in> set cmds. cOp c = OpSet \<or> cOp c = OpDelete"
    and "int (card (cClientID ` set cmds - {0})) \<le> maxSessions (NewWithSessionLimit n)"
    and "in_order {} cmds"
  shows "\<exists>rs s. apply_all iter es (NewWithSessionLimit n) = Done rs s \<and> sData s = fold mutate (first_copies {} cmds) fmempty"
proof -
  let ?B = "cClientID ` set cmds - {0}" and ?s = "NewWithSessionLimit n"
  have empty: "sSessions ?s = fmempty" "sData ?s = fmempty" by (simp_all add: NewWithSessionLimit_def)
  have "\<exists>rs s. apply_all iter es ?s = Done rs s \<and>
      sData s = fold mutate (not_retries (\<lambda>c. map_option lastSeq (fmlookup (sSessions ?s) c)) cmds) (sData ?s)"
    by (rule session_range.apply_all_not_retries [OF assms(1,2), where B = ?B])
      (use assms(3,4) in \<open>auto simp: empty known_op_def\<close>)
  then show ?thesis using in_order_not_retries [OF _ assms(5), of "\<lambda>_. None"] by (simp add: empty highest_def)
qed

definition demo_set :: "uint64 \<Rightarrow> uint64 \<Rightarrow> byte \<Rightarrow> Command" where
  "demo_set c q v = \<lparr>cOp = OpSet, cKey = [107], cValue = [v], cClientID = c, cSequence = q\<rparr>"

definition demo_entry :: "Index \<Rightarrow> Command \<Rightarrow> LogEntry" where
  "demo_entry i cmd = \<lparr>eTerm = 1, eIndex = i, eType = EntryNormal, eCommand = command_bytes cmd\<rparr>"

definition demo_log :: "LogEntry list" where
  "demo_log = [demo_entry 1 (demo_set 7 1 10), demo_entry 2 (demo_set 8 1 20), demo_entry 3 (demo_set 7 1 10)]"

theorem retries_applied_once_witness:
  "\<exists>rs s. apply_all (\<lambda>m. rev (by_key m)) demo_log (NewWithSessionLimit 2) = Done rs s \<and>
     sData s = fmupd [107] [20] fmempty"
proof -
  let ?cmds = "[demo_set 7 1 10, demo_set 8 1 20, demo_set 7 1 10]"
  have "\<exists>rs s. apply_all (\<lambda>m. rev (by_key m)) demo_log (NewWithSessionLimit 2) = Done rs s \<and>
      sData s = fold mutate (first_copies {} ?cmds) fmempty"
  proof (rule retries_applied_once)
    show "session_range (\<lambda>m. rev (by_key m))" by (rule rev_client_range [OF by_client_range])
    show "map (\<lambda>e. DecodeCommand (eCommand e)) demo_log = map Ok ?cmds" by code_simp
    show "\<forall>c \<in> set ?cmds. cOp c = OpSet \<or> cOp c = OpDelete" by (simp add: demo_set_def)
    have "cClientID ` set ?cmds - {0} = {7, 8}" by (auto simp: demo_set_def)
    then show "int (card (cClientID ` set ?cmds - {0})) \<le> maxSessions (NewWithSessionLimit 2)"
      by (simp add: NewWithSessionLimit_def)
    show "in_order {} ?cmds" by (simp add: demo_set_def request_def)
  qed
  moreover have "fold mutate (first_copies {} ?cmds) fmempty = fmupd [107] [20] fmempty"
    by (simp add: request_def mutate_def demo_set_def fmap_ext)
  ultimately show ?thesis by simp
qed

text \<open>C21. With the table under pressure, a client's last request stays recognised for as long as fewer
  other clients than the table's limit have written since: after any stretch of log with that
  property, a retry of the request, or of an earlier one of the same client, leaves the data and the
  sessions alone, and answers with the stored result marked as a duplicate; when the client wrote
  nothing in between, with exactly the result of the original.\<close>

theorem retry_recognised:
  assumes "session_range iter" and "store_wf s" and "\<forall>j x. fmlookup (sSessions s) j = Some x \<longrightarrow> lastIndex_of x < eIndex e"
    and "apply_all iter (e # es) s = Done (r # rs) s'" and "\<not> Duplicate r"
    and "DecodeCommand (eCommand e) = Ok cmd" and "cClientID cmd \<noteq> 0"
    and "\<forall>x \<in> set es. eIndex e \<le> eIndex x"
    and "int (card (clients es - {cClientID cmd})) < maxSessions s"
    and "DecodeCommand (eCommand e') = Ok cmd'" and "cClientID cmd' = cClientID cmd" and "cSequence cmd' \<le> cSequence cmd"
  shows "\<exists>r'. Apply iter e' s' = Done (r'\<lparr>Duplicate := True\<rparr>) (s'\<lparr>sApplied := eIndex e'\<rparr>) \<and>
    (cClientID cmd \<notin> clients es \<longrightarrow> r' = r)"
proof -
  let ?c = "cClientID cmd" and ?A = "insert (cClientID cmd) (clients es)"
  let ?P = "\<lambda>x. cSequence cmd \<le> lastSeq x \<and> (?c \<notin> clients es \<longrightarrow> sResult x = r)"
  obtain s1 where a: "Apply iter e s = Done r s1" and b: "apply_all iter es s1 = Done rs s'"
    using assms(4) by (auto simp: bind_Done_iff)
  have max: "0 \<le> maxSessions s" "maxSessions s1 = maxSessions s"
    using assms(2) session_range.Apply_wf [OF assms(1,2) a] by (auto simp: store_wf_def)
  have A: "?A - {?c} = clients es - {?c}" by auto
  have "tracked ?c ?A (eIndex e) ?P s1"
    using a
  proof (cases rule: Apply_Done_cases)
    case (duplicate cmd0)
    then show ?thesis using assms(5) by (auto simp: checkSession_True)
  next
    case (fresh cmd0)
    then have [simp]: "cmd0 = cmd" using assms(6) by simp
    have "tracked ?c ?A (eIndex e) ?P (recordSession iter ?c (cSequence cmd) (eIndex e) r (s\<lparr>sData := mutate cmd (sData s)\<rparr>))"
      by (rule session_range.record_tracked [OF assms(1,7) refl, where x = "\<lparr>lastSeq = cSequence cmd, lastIndex_of = eIndex e, sResult = r\<rparr>"])
        (use assms(3,9) A in \<open>auto split: if_splits dest!: leD\<close>)
    then show ?thesis using fresh by (simp add: tracked_def)
  qed
  then have "tracked ?c ?A (eIndex e) ?P s'"
  proof (rule session_range.apply_all_tracked [OF assms(1) b])
    show "?P y" if "x0 \<in> set es" "DecodeCommand (eCommand x0) = Ok cmd0" "cClientID cmd0 = ?c" "?P x"
      "lastSeq x < cSequence cmd0" "lastSeq y = cSequence cmd0" for x0 cmd0 x y
      using that assms(7) by (auto simp: clients_def)
  qed (use assms(8,9) A max in auto)
  then obtain x where x: "fmlookup (sSessions s') ?c = Some x" "?P x" by (auto simp: tracked_def)
  then have "checkSession (cClientID cmd') (cSequence cmd') s' = ((sResult x)\<lparr>Duplicate := True\<rparr>, True)"
    using assms(7,11,12) by (auto simp: checkSession_True)
  from Apply_duplicate [OF assms(10) this] x(2) show ?thesis by blast
qed

theorem retry_recognised_witness:
  "\<exists>r rs s. apply_all by_key (take 2 demo_log) (NewWithSessionLimit 2) = Done (r # rs) s \<and>
     Apply by_key (demo_log ! 2) s = Done (r\<lparr>Duplicate := True\<rparr>) (s\<lparr>sApplied := 3\<rparr>)"
proof -
  let ?e = "demo_entry 1 (demo_set 7 1 10)" and ?es = "[demo_entry 2 (demo_set 8 1 20)]" and ?s = "NewWithSessionLimit 2"
  define s' where "s' = state_of (apply_all by_key (?e # ?es) ?s)"
  have a: "apply_all by_key (?e # ?es) ?s = Done (zeroResult # [zeroResult]) s'"
    unfolding s'_def by code_simp
  have d: "DecodeCommand (eCommand (demo_entry i (demo_set c q v))) = Ok (demo_set c q v)" for i c q v
    using DecodeCommand_bytes [of "demo_set c q v" "[]"] by (simp add: demo_entry_def demo_set_def logged_def)
  have c: "clients ?es = {8}"
    using d [of 2 8 1 20] by (auto simp: clients_def) (simp_all add: demo_set_def)
  have "\<exists>r'. Apply by_key (demo_entry 3 (demo_set 7 1 10)) s' =
        Done (r'\<lparr>Duplicate := True\<rparr>) (s'\<lparr>sApplied := eIndex (demo_entry 3 (demo_set 7 1 10))\<rparr>) \<and>
      (cClientID (demo_set 7 1 10) \<notin> clients ?es \<longrightarrow> r' = zeroResult)"
    by (rule retry_recognised [OF by_client_range _ _ a _ d _ _ _ d])
      (simp_all add: c, simp_all add: demo_set_def demo_entry_def store_wf_def Sessions_def NewWithSessionLimit_def zeroResult_def fcard.rep_eq)
  then have "Apply by_key (demo_entry 3 (demo_set 7 1 10)) s' = Done (zeroResult\<lparr>Duplicate := True\<rparr>) (s'\<lparr>sApplied := 3\<rparr>)"
    by (auto simp: c) (simp_all add: demo_set_def demo_entry_def)
  with a show ?thesis
    by (simp add: demo_log_def)
qed

text \<open>C22. Which sessions are forgotten is a function of the log alone: after recording a write, a client is
  remembered exactly if it was remembered or is the writer, and fewer clients than the limit have a
  more recent last write, ties broken by client.\<close>

theorem eviction_exact:
  assumes "session_range iter" and "1 \<le> maxSessions s" and "c \<noteq> 0"
  shows "fmlookup (sSessions (recordSession iter c q i r s)) j =
    (let m = fmupd c \<lparr>lastSeq = q, lastIndex_of = i, sResult = r\<rparr> (sSessions s)
     in if int (card (newer m j)) < maxSessions s then fmlookup m j else None)"
  using session_range.record_lookup [OF assms(1,3), of s q i r j] assms(2) by (simp only: Let_def)

theorem eviction_exact_witness:
  "let s = state_of (apply_all by_key demo_log (NewWithSessionLimit 1))
   in fmlookup (sSessions s) 7 \<noteq> None \<and> fmlookup (sSessions (recordSession by_key 9 1 4 zeroResult s)) 7 = None"
proof -
  let ?s = "state_of (apply_all by_key demo_log (NewWithSessionLimit 1))"
  let ?m = "fmupd 9 \<lparr>lastSeq = 1, lastIndex_of = 4, sResult = zeroResult\<rparr> (sSessions ?s)"
  have s: "maxSessions ?s = 1" "fmlookup (sSessions ?s) 7 \<noteq> None" "recency ?m 7 < recency ?m 9"
    by code_simp+
  have "9 \<in> newer ?m 7" using s(3) by (simp add: newer_def)
  moreover have "finite (newer ?m 7)" by (simp add: newer_def)
  ultimately have "\<not> int (card (newer ?m 7)) < 1"
    by (metis card_gt_0_iff empty_iff int_one_le_iff_zero_less not_less of_nat_0_less_iff)
  then show ?thesis
    using eviction_exact [OF by_client_range, of ?s 9 1 4 zeroResult 7] s by (simp add: Let_def)
qed

text \<open>C23. Replicas stay equal: the order in which each of them iterates over its session table makes no
  difference to the store it reaches, to its answers, or to whether an entry is refused; and an entry
  that is refused leaves the store unchanged.\<close>

theorem replicas_agree:
  assumes "session_range iter" and "session_range iter'"
  shows "apply_all iter es s = apply_all iter' es s \<and> (\<forall>err s'. Apply iter e s = Fail err s' \<longrightarrow> s' = s)"
proof -
  have r: "recordSession iter = recordSession iter'"
    by (intro ext) (simp add: recordSession_def session_range.evictSessions_eq [OF assms(1)] session_range.evictSessions_eq [OF assms(2)])
  have "Apply iter = Apply iter'"
    by (intro ext) (simp only: Apply_def r)
  then have "apply_all iter es s = apply_all iter' es s" by (induction es arbitrary: s) simp_all
  moreover have "s' = s" if "Apply iter e s = Fail err s'" for err s'
    using that Apply_total [of iter e s] by auto
  ultimately show ?thesis by blast
qed

theorem replicas_agree_witness:
  "apply_all (\<lambda>m. rev (by_key m)) demo_log (NewWithSessionLimit 1) = apply_all by_key demo_log (NewWithSessionLimit 1)"
  using replicas_agree [OF rev_client_range [OF by_client_range] by_client_range] by simp

text \<open>The stores there are, with the index last given to them.\<close>

inductive reached :: "map_iter \<Rightarrow> Store \<Rightarrow> Index \<Rightarrow> bool" for iter where
  created: "reached iter (NewWithSessionLimit n) 0"
| applied: "reached iter s i \<Longrightarrow> Apply iter e s = Done r s' \<Longrightarrow> reached iter s' (eIndex e)"
| restored: "reached iter s i \<Longrightarrow> Restore data j s = Done () s' \<Longrightarrow> reached iter s' j"

text \<open>C24. The session table is never larger than its limit: every store reached from a new one by
  applying entries and restoring snapshots, in any order, has a limit of at least one and no more
  sessions than that, and its applied index is the last one given.\<close>

theorem sessions_bounded:
  assumes "reached iter s i" and "session_range iter"
  shows "1 \<le> maxSessions s \<and> Sessions s \<le> maxSessions s \<and> AppliedIndex s = i"
proof -
  have "store_wf s \<and> AppliedIndex s = i"
    using assms(1)
  proof induction
    case (created n)
    then show ?case by (simp add: store_wf_def Sessions_def NewWithSessionLimit_def AppliedIndex_def fcard.rep_eq)
  next
    case (applied s i e r s')
    then show ?case using session_range.Apply_wf [OF assms(2)] by (auto simp: AppliedIndex_def)
  next
    case (restored s i data j s')
    then show ?case by (auto simp: Restore_def bind_Done_iff store_wf_def Sessions_def AppliedIndex_def dest!: lift_Done)
  qed
  then show ?thesis by (simp add: store_wf_def)
qed

theorem sessions_bounded_witness:
  "\<exists>s. reached by_key s 3 \<and> maxSessions s = 1 \<and> Sessions s \<le> 1"
proof -
  let ?s = "\<lambda>k. state_of (apply_all by_key (take k demo_log) (NewWithSessionLimit 1))"
  have "Apply by_key (demo_log ! 0) (?s 0) = Done zeroResult (?s 1)"
    "Apply by_key (demo_log ! 1) (?s 1) = Done zeroResult (?s 2)"
    "Apply by_key (demo_log ! 2) (?s 2) = Done zeroResult (?s 3)"
    "eIndex (demo_log ! 2) = 3" "maxSessions (?s 3) = 1" "?s 0 = NewWithSessionLimit 1"
    by code_simp+
  then have "reached by_key (?s 3) 3" and "maxSessions (?s 3) = 1"
    by (metis reached.intros(1,2))+
  then show ?thesis using sessions_bounded [OF _ by_client_range] by metis
qed

text \<open>C25. A snapshot forgets the sessions. Whatever store a replica has reached, let another one that has not
  heard of one of its clients restore its snapshot: both have the same map and the same applied index.
  Then the next entry of the log is a retry of a write of that client. The first replica recognises it
  and leaves its map alone; the restored one answers it as new and applies it, so that the two maps
  differ whenever the key has been given another value, or deleted, since.\<close>

theorem restored_replica_diverges:
  assumes "session_range iter" and "encodable_map (sData s)" and "fmlookup (sSessions s) c = Some x" and "c \<noteq> 0"
    and "fmlookup (sSessions t) c = None" and "DecodeCommand (eCommand e) = Ok cmd" and "cOp cmd = OpSet"
    and "cClientID cmd = c" and "cSequence cmd \<le> lastSeq x"
  shows "\<exists>t1 r s' r' t2. Restore (Store_Snapshot s) (AppliedIndex s) t = Done () t1 \<and>
    sData t1 = sData s \<and> AppliedIndex t1 = AppliedIndex s \<and>
    Apply iter e s = Done r s' \<and> Duplicate r \<and> sData s' = sData s \<and>
    Apply iter e t1 = Done r' t2 \<and> \<not> Duplicate r' \<and> Get (cKey cmd) t2 = (cValue cmd, True) \<and>
    (fmlookup (sData s) (cKey cmd) \<noteq> Some (cValue cmd) \<longrightarrow> sData t2 \<noteq> sData s')"
proof -
  let ?t1 = "t\<lparr>sData := sData s, sApplied := AppliedIndex s\<rparr>"
  have r: "Restore (Store_Snapshot s) (AppliedIndex s) t = Done () ?t1"
    using decode_encodeMap [OF assms(2), of "[]"] by (simp add: Restore_def Store_Snapshot_def)
  have "checkSession (cClientID cmd) (cSequence cmd) s = ((sResult x)\<lparr>Duplicate := True\<rparr>, True)"
    using assms(3,4,8,9) by (auto simp: checkSession_True)
  note known = Apply_duplicate [OF assms(6) this, of iter]
  have "\<not> snd (checkSession (cClientID cmd) (cSequence cmd) ?t1)" "known_op cmd"
    using assms(5,7,8) by (auto simp: checkSession_False known_op_def)
  note new = Apply_fresh [OF assms(6) this, of iter]
  have "fmlookup (mutate cmd (sData s)) (cKey cmd) = Some (cValue cmd)" using assms(7) by (simp add: mutate_def)
  then show ?thesis
    using r known new session_range.record_data [OF assms(1)] by (auto simp: AppliedIndex_def Get_def answer_def zeroResult_def)
qed

theorem restored_replica_diverges_witness:
  "let full = state_of (apply_all by_key (take 2 demo_log) New);
       restored = state_of (Restore (Store_Snapshot full) 2 New)
   in sData (state_of (Apply by_key (demo_log ! 2) restored)) \<noteq> sData (state_of (Apply by_key (demo_log ! 2) full))"
proof -
  let ?s = "state_of (apply_all by_key (take 2 demo_log) New)" and ?e = "demo_log ! 2" and ?cmd = "demo_set 7 1 10"
  have f: "map_option lastSeq (fmlookup (sSessions ?s) 7) = Some 1" "AppliedIndex ?s = 2"
    "DecodeCommand (eCommand ?e) = Ok ?cmd" "fmlookup (sSessions New) 7 = None" by code_simp+
  have d: "sData ?s = fmupd [107] [20] (fmupd [107] [10] fmempty)" by code_simp
  obtain x where x: "fmlookup (sSessions ?s) 7 = Some x" "lastSeq x = 1" using f(1) by auto
  have nz: "7 \<noteq> (0 :: uint64)" by simp
  have enc: "encodable_map (sData ?s)" by (simp add: d encodable_map_def fcard.rep_eq)
  have h: "cOp ?cmd = OpSet" "cClientID ?cmd = 7" "cSequence ?cmd \<le> lastSeq x" "fmlookup (sData ?s) (cKey ?cmd) \<noteq> Some (cValue ?cmd)"
    using x(2) by (simp_all add: demo_set_def d)
  from restored_replica_diverges [OF by_client_range enc x(1) nz f(4,3) h(1-3)] show ?thesis
  proof (elim exE conjE)
    fix t1 r s' r' t2
    assume "Restore (Store_Snapshot ?s) (AppliedIndex ?s) New = Done () t1" "Apply by_key ?e ?s = Done r s'"
      "Apply by_key ?e t1 = Done r' t2" "fmlookup (sData ?s) (cKey ?cmd) \<noteq> Some (cValue ?cmd) \<longrightarrow> sData t2 \<noteq> sData s'"
    with f(2) h(4) show ?thesis by (simp add: Let_def)
  qed
qed

end
