(* ===== verification/Raft_Driver.thy ===== *)
theory Raft_Driver
  imports Raft_Safety KV_Store
begin

text \<open>
  The driver, \<open>node/node.go\<close>, \<open>node/read.go\<close> and \<open>node/membership.go\<close>: one goroutine that feeds the core,
  sends its messages, applies what is committed and answers the clients. Each iteration of \<open>run\<close> is one
  step on the node; what a client does with the answers is modelled separately, at the end.

  A request is known by a number standing for the pointer the client holds. Its reply channel has room
  for one value, so a second answer to the same request would block the loop for ever: the answers
  given are therefore kept, in order, as part of the state, as are the messages handed to the
  transport. The maps of waiting requests are iterated in an order that Go does not fix, given by the
  parameter \<open>iter\<close>.
\<close>

section \<open>The application\<close>

text \<open>\<open>Snapshotter\<close> is an optional interface: the type assertion fails for a machine that has none.\<close>

record 'm Snapshotter =
  snSnapshot :: "'m \<Rightarrow> bytes result"
  snRestore :: "bytes \<Rightarrow> Index \<Rightarrow> 'm \<Rightarrow> (unit, 'm) outcome"

record ('m, 'a) StateMachine =
  smApply :: "LogEntry \<Rightarrow> 'm \<Rightarrow> ('a, 'm) outcome"
  smSnapshotter :: "'m Snapshotter option"

section \<open>State\<close>

record proposal =
  pHandle :: nat
  pCmd :: bytes

text \<open>\<open>response\<close> is an \<open>any\<close>, nil for an entry that is not handed to the application.\<close>

record 'a proposeResult =
  prIndex :: Index
  prResponse :: "'a option"
  prErr :: "goerr option"

definition propose_error :: "goerr \<Rightarrow> 'a proposeResult" where
  "propose_error e = \<lparr>prIndex = 0, prResponse = None, prErr = Some e\<rparr>"

record awaiting =
  awTerm :: Term
  awP :: proposal

record readResult =
  rdIndex :: Index
  rdErr :: "goerr option"

record Status =
  stID :: NodeID
  stState :: State
  stTerm :: Term
  stLead :: NodeID
  stCommitIndex :: Index
  stAppliedIndex :: Index
  stLastIndex :: Index
  stConfig :: Configuration
  stMatch :: "(NodeID, Index) fmap"

text \<open>
  Everything \<open>run\<close> owns, and what it has done to the outside: the messages sent, and the replies to
  proposals, reads, membership changes and status requests.
\<close>

record ('s, 'm, 'a) Node =
  nRn :: "'s RawNode"
  nMachine :: 'm
  nPending :: "(Index, awaiting) fmap"
  nPendingReads :: "(uint64, nat) fmap"
  nReadSeq :: uint64
  nLastState :: State
  nLastTerm :: Term
  nSent :: "Message list"
  nAnswers :: "(nat \<times> 'a proposeResult) list"
  nReadAnswers :: "(nat \<times> readResult) list"
  nConfAnswers :: "(nat \<times> readResult) list"
  nStatuses :: "(nat \<times> Status) list"

text \<open>The order in which Go visits the two maps of waiting requests.\<close>

record map_order =
  by_index :: "(Index, awaiting) iteration"
  by_read :: "(uint64, nat) iteration"

text \<open>A method of the core, and one of the application, run inside the node.\<close>

definition on_core :: "('s, 'm, 'a) Node \<Rightarrow> ('b, 's RawNode) outcome \<Rightarrow> ('b, ('s, 'm, 'a) Node) outcome" where
  "on_core n = embed (\<lambda>r. n\<lparr>nRn := r\<rparr>)"

definition on_machine :: "('s, 'm, 'a) Node \<Rightarrow> ('b, 'm) outcome \<Rightarrow> ('b, ('s, 'm, 'a) Node) outcome" where
  "on_machine n = embed (\<lambda>m. n\<lparr>nMachine := m\<rparr>)"

section \<open>Answers\<close>

text \<open>\<open>p.done <- res\<close>.\<close>

definition reply :: "nat \<Rightarrow> 'a proposeResult \<Rightarrow> ('s, 'm, 'a) Node \<Rightarrow> ('s, 'm, 'a) Node" where
  "reply h res n = n\<lparr>nAnswers := nAnswers n @ [(h, res)]\<rparr>"

definition reply_read :: "nat \<Rightarrow> readResult \<Rightarrow> ('s, 'm, 'a) Node \<Rightarrow> ('s, 'm, 'a) Node" where
  "reply_read h res n = n\<lparr>nReadAnswers := nReadAnswers n @ [(h, res)]\<rparr>"

definition failPending :: "map_order \<Rightarrow> goerr \<Rightarrow> ('s, 'm, 'a) Node \<Rightarrow> ('s, 'm, 'a) Node" where
  "failPending iter err n =
     fold (\<lambda>(idx, w) n. reply (pHandle (awP w)) (propose_error err) (n\<lparr>nPending := fmdrop idx (nPending n)\<rparr>))
       (by_index iter (nPending n)) n"

definition failReads :: "map_order \<Rightarrow> goerr \<Rightarrow> ('s, 'm, 'a) Node \<Rightarrow> ('s, 'm, 'a) Node" where
  "failReads iter err n =
     fold (\<lambda>(i, req) n. reply_read req \<lparr>rdIndex = 0, rdErr = Some err\<rparr> (n\<lparr>nPendingReads := fmdrop i (nPendingReads n)\<rparr>))
       (by_read iter (nPendingReads n)) n"

definition fatal :: "map_order \<Rightarrow> goerr \<Rightarrow> ('s, 'm, 'a) Node \<Rightarrow> ('s, 'm, 'a) Node" where
  "fatal iter err n = failReads iter err (failPending iter err n)"

definition resolve :: "LogEntry \<Rightarrow> 'a option \<Rightarrow> ('s, 'm, 'a) Node \<Rightarrow> ('s, 'm, 'a) Node" where
  "resolve e response n =
     (case fmlookup (nPending n) (eIndex e) of
        None \<Rightarrow> n
      | Some w \<Rightarrow>
          (let n = n\<lparr>nPending := fmdrop (eIndex e) (nPending n)\<rparr>
           in if awTerm w \<noteq> eTerm e then reply (pHandle (awP w)) (propose_error ErrProposalDropped) n
              else reply (pHandle (awP w)) \<lparr>prIndex = eIndex e, prResponse = response, prErr = None\<rparr> n))"

fun resolve_reads :: "ReadState list \<Rightarrow> ('s, 'm, 'a) Node \<Rightarrow> ('s, 'm, 'a) Node" where
  "resolve_reads [] n = n"
| "resolve_reads (st # sts) n =
     resolve_reads sts
       (case fmlookup (nPendingReads n) (rsID st) of
          None \<Rightarrow> n
        | Some req \<Rightarrow> reply_read req \<lparr>rdIndex = rsIndex st, rdErr = None\<rparr>
            (n\<lparr>nPendingReads := fmdrop (rsID st) (nPendingReads n)\<rparr>))"

definition resolveReads :: "('s, 'm, 'a) Node \<Rightarrow> ('s, 'm, 'a) Node" where
  "resolveReads n = (case ReadStates (nRn n) of (sts, r) \<Rightarrow> resolve_reads sts (n\<lparr>nRn := r\<rparr>))"

section \<open>Requests\<close>

definition handlePropose :: "'s Storage \<Rightarrow> proposal \<Rightarrow> ('s, 'm, 'a) Node \<Rightarrow> (unit, ('s, 'm, 'a) Node) outcome" where
  "handlePropose S p n =
     (case on_core n (Propose S (pCmd p) (nRn n)) of
        Panic n \<Rightarrow> Panic n
      | Fail err n \<Rightarrow> Done () (reply (pHandle p) (propose_error err) n)
      | Done index n \<Rightarrow> Done () (n\<lparr>nPending := fmupd index \<lparr>awTerm = rTerm (nRn n), awP = p\<rparr> (nPending n)\<rparr>))"

definition handleRead :: "'s Storage \<Rightarrow> nat \<Rightarrow> ('s, 'm, 'a) Node \<Rightarrow> (unit, ('s, 'm, 'a) Node) outcome" where
  "handleRead S req n =
     (let n = n\<lparr>nReadSeq := nReadSeq n + 1\<rparr>
      in case on_core n (ReadIndex S (nReadSeq n) (nRn n)) of
           Panic n \<Rightarrow> Panic n
         | Fail err n \<Rightarrow> Done () (reply_read req \<lparr>rdIndex = 0, rdErr = Some err\<rparr> n)
         | Done _ n \<Rightarrow> Done () (n\<lparr>nPendingReads := fmupd (nReadSeq n) req (nPendingReads n)\<rparr>))"

definition handleConfChange :: "'s Storage \<Rightarrow> nat \<Rightarrow> Configuration \<Rightarrow> ('s, 'm, 'a) Node \<Rightarrow> (unit, ('s, 'm, 'a) Node) outcome" where
  "handleConfChange S req target n =
     (case on_core n (ProposeConfChange S target (nRn n)) of
        Panic n \<Rightarrow> Panic n
      | Fail err n \<Rightarrow> Done () (n\<lparr>nConfAnswers := nConfAnswers n @ [(req, \<lparr>rdIndex = 0, rdErr = Some err\<rparr>)]\<rparr>)
      | Done index n \<Rightarrow> Done () (n\<lparr>nConfAnswers := nConfAnswers n @ [(req, \<lparr>rdIndex = index, rdErr = None\<rparr>)]\<rparr>))"

definition statusLocked :: "'s Storage \<Rightarrow> ('s, 'm, 'a) Node \<Rightarrow> Status" where
  "statusLocked S n =
     (let r = nRn n
      in \<lparr>stID = rId r, stState = rState r, stTerm = rTerm r, stLead = rLead r, stCommitIndex = rCommitted r,
          stAppliedIndex = applied (rLog r), stLastIndex = lastIndex S (rLog r), stConfig = rConf r,
          stMatch = (if rState r = Leader
                     then fold (\<lambda>i m. case RawNode_Progress r i of (pr, ok) \<Rightarrow> if ok then fmupd i (Match pr) m else m)
                            (Members (rConf r)) fmempty
                     else fmempty)\<rparr>)"

definition IsLeader :: "Status \<Rightarrow> bool" where
  "IsLeader s = (stState s = Leader)"

section \<open>Flushing\<close>

text \<open>The body of the inner loop of \<open>applyCommitted\<close>.\<close>

definition apply_entry :: "('m, 'a) StateMachine \<Rightarrow> LogEntry \<Rightarrow> ('s, 'm, 'a) Node \<Rightarrow> (unit, ('s, 'm, 'a) Node) outcome" where
  "apply_entry M e n =
     bind (if eType e = EntryNormal then bind (on_machine n (smApply M e (nMachine n))) (\<lambda>a n. Done (Some a) n)
           else Done None n)
       (\<lambda>response n. Done () (resolve e response n))"

text \<open>
  The outer loop, with a bound on its iterations. Each one moves the applied index of a store that
  keeps its contract, so the bound taken below is never reached (\<open>applyCommitted_all\<close>).
\<close>

fun apply_batches :: "nat \<Rightarrow> 's Storage \<Rightarrow> ('m, 'a) StateMachine \<Rightarrow> ('s, 'm, 'a) Node \<Rightarrow> (unit, ('s, 'm, 'a) Node) outcome" where
  "apply_batches 0 S M n = (if HasCommittedEntries (nRn n) then Panic n else Done () n)"
| "apply_batches (Suc k) S M n =
     (if \<not> HasCommittedEntries (nRn n) then Done () n
      else bind (lift (CommittedEntries S (nRn n)) n) (\<lambda>es n.
        if es = [] then Done () n
        else bind (for_each (apply_entry M) es n) (\<lambda>_ n.
             bind (on_core n (ApplyTo (eIndex (last es)) (nRn n))) (\<lambda>_ n.
             apply_batches k S M n))))"

definition applyCommitted :: "'s Storage \<Rightarrow> ('m, 'a) StateMachine \<Rightarrow> ('s, 'm, 'a) Node \<Rightarrow> (unit, ('s, 'm, 'a) Node) outcome" where
  "applyCommitted S M n = apply_batches (unat (rCommitted (nRn n))) S M n"

definition restoreSnapshot :: "map_order \<Rightarrow> ('m, 'a) StateMachine \<Rightarrow> ('s, 'm, 'a) Node \<Rightarrow> (unit, ('s, 'm, 'a) Node) outcome" where
  "restoreSnapshot iter M n =
     (case SnapshotToApply (nRn n) of
        (None, r) \<Rightarrow> Done () (n\<lparr>nRn := r\<rparr>)
      | (Some snap, r) \<Rightarrow>
          (let n = n\<lparr>nRn := r\<rparr>
           in case smSnapshotter M of
                None \<Rightarrow> Fail (ErrMsg ''the state machine cannot restore from a snapshot'') n
              | Some sn \<Rightarrow>
                  bind (on_machine n (snRestore sn (snapData snap) (LastIncludedIndex snap) (nMachine n))) (\<lambda>_ n.
                    Done () (failPending iter ErrProposalDropped n))))"

definition maybeSnapshot :: "'s Storage \<Rightarrow> ('m, 'a) StateMachine \<Rightarrow> ('s, 'm, 'a) Node \<Rightarrow> (unit, ('s, 'm, 'a) Node) outcome" where
  "maybeSnapshot S M n =
     (if \<not> ShouldSnapshot S (nRn n) then Done () n
      else case smSnapshotter M of
             None \<Rightarrow> Done () n
           | Some sn \<Rightarrow>
               bind (lift (snSnapshot sn (nMachine n)) n) (\<lambda>data n.
                 case on_core n (CreateSnapshot S data (nRn n)) of
                   Panic n \<Rightarrow> Panic n
                 | Fail err n \<Rightarrow> if err = ErrNothingToSnapshot \<or> err = ErrSnapshotOutOfDate then Done () n else Fail err n
                 | Done _ n \<Rightarrow> Done () n))"

text \<open>The last part of \<open>flush\<close>: a leader that has stepped down cannot answer its clients any more.\<close>

definition note_state :: "map_order \<Rightarrow> ('s, 'm, 'a) Node \<Rightarrow> ('s, 'm, 'a) Node" where
  "note_state iter n =
     (let state = rState (nRn n); t = rTerm (nRn n)
      in if state \<noteq> nLastState n \<or> t \<noteq> nLastTerm n
         then (let n = (if nLastState n = Leader \<and> state \<noteq> Leader
                        then failReads iter ErrNotLeader (failPending iter ErrProposalDropped n) else n)
               in n\<lparr>nLastState := state, nLastTerm := t\<rparr>)
         else n)"

definition send_all :: "('s, 'm, 'a) Node \<Rightarrow> ('s, 'm, 'a) Node" where
  "send_all n = (case Messages (nRn n) of (ms, r) \<Rightarrow> n\<lparr>nRn := r, nSent := nSent n @ ms\<rparr>)"

definition node_flush :: "map_order \<Rightarrow> 's Storage \<Rightarrow> ('m, 'a) StateMachine \<Rightarrow> ('s, 'm, 'a) Node \<Rightarrow> (unit, ('s, 'm, 'a) Node) outcome" where
  "node_flush iter S M n =
     bind (restoreSnapshot iter M (resolveReads (send_all n))) (\<lambda>_ n.
     bind (applyCommitted S M n) (\<lambda>_ n.
     bind (maybeSnapshot S M n) (\<lambda>_ n.
     Done () (note_state iter n))))"

section \<open>The loop\<close>

datatype input =
    OnStop
  | OnTick
  | OnMessage Message
  | OnClosed
  | OnPropose proposal
  | OnRead nat
  | OnConfChange nat Configuration
  | OnStatus nat

text \<open>
  One iteration of \<open>run\<close>: \<open>Done True\<close> if the loop goes on, \<open>Done False\<close> if it has returned. Failures are
  turned into answers for everyone who is waiting, so \<open>run\<close> itself never fails; it may panic.
\<close>

definition shut_down :: "map_order \<Rightarrow> ('s, 'm, 'a) Node \<Rightarrow> (bool, ('s, 'm, 'a) Node) outcome" where
  "shut_down iter n = Done False (failReads iter ErrStopped (failPending iter ErrStopped n))"

definition or_fatal ::
  "map_order \<Rightarrow> (unit, ('s, 'm, 'a) Node) outcome \<Rightarrow> (('s, 'm, 'a) Node \<Rightarrow> (bool, ('s, 'm, 'a) Node) outcome) \<Rightarrow>
     (bool, ('s, 'm, 'a) Node) outcome" where
  "or_fatal iter m next = (case m of Done _ n \<Rightarrow> next n | Fail e n \<Rightarrow> Done False (fatal iter e n) | Panic n \<Rightarrow> Panic n)"

definition then_flush ::
  "map_order \<Rightarrow> 's Storage \<Rightarrow> ('m, 'a) StateMachine \<Rightarrow> ('s, 'm, 'a) Node \<Rightarrow> (bool, ('s, 'm, 'a) Node) outcome" where
  "then_flush iter S M n = or_fatal iter (node_flush iter S M n) (Done True)"

text \<open>A message the core ignores is no error to the driver.\<close>

definition tolerate_ignored :: "(unit, 't) outcome \<Rightarrow> (unit, 't) outcome" where
  "tolerate_ignored m = (case m of Fail e n \<Rightarrow> if e = ErrIgnoredMessage then Done () n else Fail e n | _ \<Rightarrow> m)"

text \<open>The branches of the \<open>select\<close> that go on to the flush.\<close>

fun take_input :: "'s Storage \<Rightarrow> input \<Rightarrow> ('s, 'm, 'a) Node \<Rightarrow> (unit, ('s, 'm, 'a) Node) outcome" where
  "take_input S OnTick n = on_core n (Tick S (nRn n))"
| "take_input S (OnMessage m) n = tolerate_ignored (on_core n (Step S m (nRn n)))"
| "take_input S (OnPropose p) n = handlePropose S p n"
| "take_input S (OnRead h) n = handleRead S h n"
| "take_input S (OnConfChange h target) n = handleConfChange S h target n"
| "take_input S (OnStatus h) n = Done () (n\<lparr>nStatuses := nStatuses n @ [(h, statusLocked S n)]\<rparr>)"
| "take_input S OnStop n = Done () n"
| "take_input S OnClosed n = Done () n"

definition run_step ::
  "map_order \<Rightarrow> 's Storage \<Rightarrow> ('m, 'a) StateMachine \<Rightarrow> input \<Rightarrow> ('s, 'm, 'a) Node \<Rightarrow> (bool, ('s, 'm, 'a) Node) outcome" where
  "run_step iter S M i n =
     (if i = OnStop \<or> i = OnClosed then shut_down iter n
      else or_fatal iter (take_input S i n) (then_flush iter S M))"

text \<open>The loop over the inputs that arrive, until it returns or the process panics.\<close>

fun run ::
  "map_order \<Rightarrow> 's Storage \<Rightarrow> ('m, 'a) StateMachine \<Rightarrow> input list \<Rightarrow> ('s, 'm, 'a) Node \<Rightarrow> (bool, ('s, 'm, 'a) Node) outcome" where
  "run iter S M [] n = Done True n"
| "run iter S M (i # is) n = bind (run_step iter S M i n) (\<lambda>go n. if go then run iter S M is n else Done False n)"

section \<open>Start\<close>

text \<open>
  The driver's configuration. Interfaces that may be nil are arguments of \<open>Start\<close>; peers are given by
  their identifiers, durations in nanoseconds.
\<close>

record DriverConfig =
  dcID :: NodeID
  dcPeers :: "NodeID list"
  dcBootstrap :: "NodeID list"
  dcTickInterval :: int
  dcElectionTick :: int
  dcHeartbeatTick :: int
  dcPreVote :: bool
  dcMaxEntriesPerMessage :: int
  dcMaxApplyEntries :: int
  dcProposeBuffer :: int
  dcSnapshotThreshold :: uint64
  dcSnapshotCatchUpEntries :: uint64

text \<open>
  \<open>seeded\<close> is the source \<open>newSeededRand\<close> makes, seeded from the wall clock. The clock and the logger have
  defaults too; they do not influence the node's state.
\<close>

definition withDefaults ::
  "'s option \<Rightarrow> bool \<Rightarrow> 'x option \<Rightarrow> Rand option \<Rightarrow> Rand \<Rightarrow> DriverConfig \<Rightarrow> (DriverConfig \<times> Rand) result" where
  "withDefaults store transport machine rnd seeded c =
     (if dcID c = None_id then Err (ErrMsg ''node: ID must not be zero'')
      else if store = None then Err (ErrMsg ''node: Storage is required'')
      else if \<not> transport then Err (ErrMsg ''node: Transport is required'')
      else if machine = None then Err (ErrMsg ''node: StateMachine is required'')
      else Ok (c\<lparr>dcTickInterval := (if dcTickInterval c = 0 then 100000000 else dcTickInterval c),
                 dcElectionTick := (if dcElectionTick c = 0 then 10 else dcElectionTick c),
                 dcHeartbeatTick := (if dcHeartbeatTick c = 0 then 2 else dcHeartbeatTick c),
                 dcProposeBuffer := (if dcProposeBuffer c = 0 then 256 else dcProposeBuffer c)\<rparr>,
               case rnd of Some f \<Rightarrow> f | None \<Rightarrow> seeded))"

definition start_voters :: "DriverConfig \<Rightarrow> NodeID list" where
  "start_voters c =
     (if dcBootstrap c = []
      then dcPeers c @ (if dcID c \<in> set (dcPeers c) then [] else [dcID c])
      else dcBootstrap c)"

definition core_config :: "DriverConfig \<Rightarrow> Config" where
  "core_config c =
     \<lparr>cfgID = dcID c, ElectionTick = dcElectionTick c, HeartbeatTick = dcHeartbeatTick c, cfgPreVote = dcPreVote c,
      Bootstrap = NewConfiguration (start_voters c) [], MaxApplyEntries = dcMaxApplyEntries c,
      MaxEntriesPerMessage = dcMaxEntriesPerMessage c, SnapshotThreshold = dcSnapshotThreshold c,
      SnapshotCatchUpEntries = dcSnapshotCatchUpEntries c, SnapshotRetryHeartbeats = 0\<rparr>"

definition restoreFromDisk ::
  "'s Storage \<Rightarrow> 's \<Rightarrow> ('m, 'a) StateMachine \<Rightarrow> ('s, 'm, 'a) Node \<Rightarrow> (unit, ('s, 'm, 'a) Node) outcome" where
  "restoreFromDisk S st M n =
     bind (lift (InitialState S st) n) (\<lambda>(_, snap) n.
       if Snapshot_IsEmpty snap then Done () n
       else case smSnapshotter M of
              None \<Rightarrow> Fail (ErrMsg ''node: the state machine cannot restore from the stored snapshot'') n
            | Some sn \<Rightarrow> on_machine n (snRestore sn (snapData snap) (LastIncludedIndex snap) (nMachine n)))"

definition fresh_node :: "'s RawNode \<Rightarrow> 'm \<Rightarrow> ('s, 'm, 'a) Node" where
  "fresh_node rn m =
     \<lparr>nRn = rn, nMachine = m, nPending = fmempty, nPendingReads = fmempty, nReadSeq = 0, nLastState = rState rn,
      nLastTerm = rTerm rn, nSent = [], nAnswers = [], nReadAnswers = [], nConfAnswers = [], nStatuses = []\<rparr>"

definition Start ::
  "'s Storage \<Rightarrow> 's option \<Rightarrow> bool \<Rightarrow> (('m, 'a) StateMachine \<times> 'm) option \<Rightarrow> Rand option \<Rightarrow> Rand \<Rightarrow> DriverConfig \<Rightarrow>
     ('s, 'm, 'a) Node result" where
  "Start S store transport machine rnd seeded cfg =
     rbind (withDefaults store transport machine rnd seeded cfg) (\<lambda>(c, f).
     rbind (NewRawNode S store (Some f) (core_config c)) (\<lambda>rn.
       (case the machine of (M, m) \<Rightarrow>
          (case restoreFromDisk S (the store) M (fresh_node rn m) of
             Done _ n \<Rightarrow> Ok n | Fail e _ \<Rightarrow> Err e | Panic _ \<Rightarrow> Crash))))"

section \<open>What clients wait for\<close>

text \<open>
  \<open>AwaitApplied\<close>, \<open>awaitSettled\<close> and \<open>AwaitConfiguration\<close> poll the node's status until it satisfies them.
  One round is the answer to \<open>Status\<close> and what ends the wait after it; a wait that has used up the rounds
  given is still waiting, \<open>None\<close>.
\<close>

datatype wake = CtxDone goerr | LoopDone | Timer

fun await :: "(Status \<Rightarrow> 'r result option) \<Rightarrow> (Status result \<times> wake) list \<Rightarrow> 'r result option" where
  "await check [] = None"
| "await check ((Err e, w) # rounds) = Some (Err e)"
| "await check ((Crash, w) # rounds) = Some Crash"
| "await check ((Ok st, w) # rounds) =
     (case check st of
        Some r \<Rightarrow> Some r
      | None \<Rightarrow> (case w of CtxDone e \<Rightarrow> Some (Err e) | LoopDone \<Rightarrow> Some (Err ErrStopped) | Timer \<Rightarrow> await check rounds))"

definition AwaitApplied :: "Index \<Rightarrow> (Status result \<times> wake) list \<Rightarrow> unit result option" where
  "AwaitApplied index = await (\<lambda>st. if stAppliedIndex st \<ge> index then Some (Ok ()) else None)"

definition awaitSettled :: "Configuration \<Rightarrow> (Status result \<times> wake) list \<Rightarrow> (Configuration \<times> goerr option) result option" where
  "awaitSettled target = await (\<lambda>st.
     if \<not> IsJoint (stConfig st)
     then Some (Ok (stConfig st,
            if \<not> Configuration_Equal (stConfig st) target
            then Some (ErrMsg ''node: the cluster settled on another configuration'') else None))
     else None)"

text \<open>\<open>res\<close> is what the run loop answers; a change that is refused before it is proposed never reaches it.\<close>

definition ChangeMembership ::
  "NodeID list \<Rightarrow> readResult \<Rightarrow> (Status result \<times> wake) list \<Rightarrow> (Configuration \<times> goerr option) result option" where
  "ChangeMembership voters res rounds =
     (let target = NewConfiguration voters []
      in case Validate target of
           Err e \<Rightarrow> Some (Err e)
         | Crash \<Rightarrow> Some Crash
         | Ok _ \<Rightarrow> (case rdErr res of Some e \<Rightarrow> Some (Err e) | None \<Rightarrow> awaitSettled target rounds))"

definition AwaitConfiguration :: "Configuration \<Rightarrow> (Status result \<times> wake) list \<Rightarrow> unit result option" where
  "AwaitConfiguration want = await (\<lambda>st. if Configuration_Equal (stConfig st) want then Some (Ok ()) else None)"

text \<open>The barrier's answer, the wait for it, and the read itself.\<close>

definition LinearizableRead :: "readResult \<Rightarrow> (Status result \<times> wake) list \<Rightarrow> 'v result \<Rightarrow> 'v result option" where
  "LinearizableRead barrier rounds rd =
     (case rdErr barrier of
        Some e \<Rightarrow> Some (Err e)
      | None \<Rightarrow> (case AwaitApplied (rdIndex barrier) rounds of
                   None \<Rightarrow> None
                 | Some (Err e) \<Rightarrow> Some (Err e)
                 | Some Crash \<Rightarrow> Some Crash
                 | Some (Ok _) \<Rightarrow> Some rd))"

section \<open>What every step keeps\<close>

text \<open>
  A predicate on the node that survives whatever the core does, the removal of a waiting request
  together with the answer to it, and the bookkeeping of the loop, survives every iteration that brings
  no new request.
\<close>

lemma reply_sel [simp]:
  "nRn (reply h res n) = nRn n" "nPending (reply h res n) = nPending n" "nPendingReads (reply h res n) = nPendingReads n"
  "nMachine (reply h res n) = nMachine n" "nAnswers (reply h res n) = nAnswers n @ [(h, res)]"
  "nReadAnswers (reply h res n) = nReadAnswers n" "nLastState (reply h res n) = nLastState n"
  by (simp_all add: reply_def)

lemma reply_read_sel [simp]:
  "nRn (reply_read h rd n) = nRn n" "nPending (reply_read h rd n) = nPending n"
  "nPendingReads (reply_read h rd n) = nPendingReads n" "nMachine (reply_read h rd n) = nMachine n"
  "nAnswers (reply_read h rd n) = nAnswers n" "nReadAnswers (reply_read h rd n) = nReadAnswers n @ [(h, rd)]"
  "nLastState (reply_read h rd n) = nLastState n"
  by (simp_all add: reply_read_def)

locale driver_loop =
  fixes iter :: map_order and S :: "'s Storage" and M :: "('m, 'a) StateMachine" and K :: "('s, 'm, 'a) Node \<Rightarrow> bool"
  assumes index_range: "map_range (by_index iter)"
    and read_range: "map_range (by_read iter)"
    and core: "K n \<Longrightarrow> node_runs S {} (nRn n) r \<Longrightarrow> K (n\<lparr>nRn := r\<rparr>)"
    and machine: "K n \<Longrightarrow> K (n\<lparr>nMachine := x\<rparr>)"
    and sent: "K n \<Longrightarrow> K (n\<lparr>nSent := ms\<rparr>)"
    and noted: "K n \<Longrightarrow> K (n\<lparr>nLastState := st, nLastTerm := t\<rparr>)"
    and answer: "K n \<Longrightarrow> fmlookup (nPending n) i = Some w \<Longrightarrow>
      K (reply (pHandle (awP w)) res (n\<lparr>nPending := fmdrop i (nPending n)\<rparr>))"
    and fail_read: "K n \<Longrightarrow> fmlookup (nPendingReads n) k = Some h \<Longrightarrow>
      K (reply_read h \<lparr>rdIndex = 0, rdErr = Some e\<rparr> (n\<lparr>nPendingReads := fmdrop k (nPendingReads n)\<rparr>))"
    and confirmed_reads: "K n \<Longrightarrow> K (resolveReads n)"
begin

lemma fail_fold:
  assumes "K n" and "distinct (map fst xs)" and "\<forall>(i, w) \<in> set xs. fmlookup (nPending n) i = Some w"
  shows "K (fold (\<lambda>(i, w) n. reply (pHandle (awP w)) res (n\<lparr>nPending := fmdrop i (nPending n)\<rparr>)) xs n)"
  using assms
proof (induction xs arbitrary: n)
  case (Cons x xs)
  obtain i w where x: "x = (i, w)" by (cases x)
  show ?case
    unfolding x fold_Cons comp_def prod.case
    by (rule Cons.IH) (use Cons.prems in \<open>auto simp: x answer fmlookup_drop rev_image_eqI\<close>)
qed simp

lemma fail_reads_fold:
  assumes "K n" and "distinct (map fst xs)" and "\<forall>(i, h) \<in> set xs. fmlookup (nPendingReads n) i = Some h"
  shows "K (fold (\<lambda>(i, h) n. reply_read h \<lparr>rdIndex = 0, rdErr = Some e\<rparr> (n\<lparr>nPendingReads := fmdrop i (nPendingReads n)\<rparr>)) xs n)"
  using assms
proof (induction xs arbitrary: n)
  case (Cons x xs)
  obtain i h where x: "x = (i, h)" by (cases x)
  show ?case
    unfolding x fold_Cons comp_def prod.case
    by (rule Cons.IH) (use Cons.prems in \<open>auto simp: x fail_read fmlookup_drop rev_image_eqI\<close>)
qed simp

lemma failPending_frame: "K n \<Longrightarrow> K (failPending iter e n)"
  unfolding failPending_def
  by (rule fail_fold) (use map_range.each_once [OF index_range] map_range.range_set [OF index_range] in auto)

lemma failReads_frame: "K n \<Longrightarrow> K (failReads iter e n)"
  unfolding failReads_def
  by (rule fail_reads_fold) (use map_range.each_once [OF read_range] map_range.range_set [OF read_range] in auto)

lemma on_core_frame: "K n \<Longrightarrow> node_runs S {} (nRn n) (state_of m) \<Longrightarrow> always K (on_core n m)"
  using core by (cases m) (auto simp: on_core_def)

lemma on_machine_frame: "K n \<Longrightarrow> always K (on_machine n m)"
  using machine by (cases m) (auto simp: on_machine_def)

lemma resolve_frame: "K n \<Longrightarrow> K (resolve e a n)"
  by (auto simp: resolve_def Let_def answer split: option.splits)

lemma apply_entry_frame: "K n \<Longrightarrow> always K (apply_entry M e n)"
  unfolding apply_entry_def
  by (rule post_seq [where J = K]) (auto intro!: post_seq [OF on_machine_frame] resolve_frame)

lemma apply_batches_frame: "K n \<Longrightarrow> always K (apply_batches k S M n)"
proof (induction k arbitrary: n)
  case (Suc k)
  have "node_runs S {} r (state_of (ApplyTo i r))" for i and r :: "'s RawNode"
    using node_runs.event [OF node_runs.start, of "EvApply i"] by simp
  then have tail: "always K (bind (on_core n (ApplyTo i (nRn n))) (\<lambda>_ n. apply_batches k S M n))" if "K n" for i n
    by (intro post_seq [OF on_core_frame [OF that]] Suc.IH)
  have "always K (bind (for_each (apply_entry M) es n) (\<lambda>_ n. bind (on_core n (ApplyTo i (nRn n))) (\<lambda>_ n. apply_batches k S M n)))"
    if "K n" for es i n
    by (rule post_seq [OF for_each_inv [where I = K]]) (auto intro: apply_entry_frame tail that)
  then show ?case
    using Suc.prems by (auto intro!: post_seq [OF always_lift])
qed simp

lemma restoreSnapshot_frame: "K n \<Longrightarrow> always K (restoreSnapshot iter M n)"
proof -
  assume "K n"
  obtain sn r where sn: "SnapshotToApply (nRn n) = (sn, r)" by fastforce
  then have "node_runs S {} (nRn n) r" by (rule node_runs.snapshot [OF node_runs.start])
  with \<open>K n\<close> have "K (n\<lparr>nRn := r\<rparr>)" by (rule core)
  then show ?thesis
    using sn by (auto simp: restoreSnapshot_def Let_def split: option.splits intro!: post_seq [OF on_machine_frame] failPending_frame)
qed

lemma maybeSnapshot_frame: "K n \<Longrightarrow> always K (maybeSnapshot S M n)"
proof -
  have "node_runs S {} r (state_of (CreateSnapshot S d r))" for d and r :: "'s RawNode"
    using node_runs.event [OF node_runs.start [of S "{}" r], of "EvSnapshot d"] by (cases "CreateSnapshot S d r") (auto simp: void_def)
  then have c: "always K (on_core n (CreateSnapshot S d (nRn n)))" if "K n" for n d
    by (rule on_core_frame [OF that])
  have "always K (case on_core n (CreateSnapshot S d (nRn n)) of Panic n \<Rightarrow> Panic n
      | Fail err n \<Rightarrow> if err = ErrNothingToSnapshot \<or> err = ErrSnapshotOutOfDate then Done () n else Fail err n
      | Done _ n \<Rightarrow> Done () n)" if "K n" for n d
    using c [OF that, of d] by (cases "on_core n (CreateSnapshot S d (nRn n))") auto
  then show "K n \<Longrightarrow> ?thesis"
    by (auto simp: maybeSnapshot_def split: option.splits intro!: post_seq [OF always_lift])
qed

lemma note_state_frame: "K n \<Longrightarrow> K (note_state iter n)"
  by (auto simp: note_state_def Let_def intro!: noted failReads_frame failPending_frame)

lemma send_all_frame: "K n \<Longrightarrow> K (send_all n)"
proof -
  assume "K n"
  obtain ms r where m: "Messages (nRn n) = (ms, r)" by fastforce
  then have "K (n\<lparr>nRn := r\<rparr>)" by (intro core [OF \<open>K n\<close>] node_runs.drain [OF node_runs.start])
  then have "K (n\<lparr>nRn := r, nSent := nSent n @ ms\<rparr>)" by (rule sent)
  then show ?thesis by (simp add: send_all_def m)
qed

lemma flush_frame: "K n \<Longrightarrow> always K (node_flush iter S M n)"
proof -
  have a: "always K (bind (maybeSnapshot S M n) (\<lambda>_ n. Done () (note_state iter n)))" if "K n" for n
    by (rule post_seq [OF maybeSnapshot_frame [OF that]]) (simp add: note_state_frame)
  have "always K (bind (applyCommitted S M n) (\<lambda>_ n. bind (maybeSnapshot S M n) (\<lambda>_ n. Done () (note_state iter n))))"
    if "K n" for n
    unfolding applyCommitted_def by (rule post_seq [OF apply_batches_frame [OF that] a])
  then show "K n \<Longrightarrow> ?thesis"
    unfolding node_flush_def by (intro post_seq [OF restoreSnapshot_frame] confirmed_reads send_all_frame)
qed

lemma or_fatal_frame: "always K m \<Longrightarrow> (\<And>n. K n \<Longrightarrow> always K (f n)) \<Longrightarrow> always K (or_fatal iter m f)"
  by (cases m) (auto simp: or_fatal_def fatal_def intro!: failReads_frame failPending_frame)

lemma run_step_frame: "always K (take_input S i n) \<Longrightarrow> always K (run_step iter S M i n)"
  unfolding run_step_def then_flush_def
  by (auto simp: shut_down_def intro!: or_fatal_frame flush_frame failReads_frame failPending_frame)

lemma tick_frame: "K n \<Longrightarrow> always K (on_core n (Tick S (nRn n)))"
  using on_core_frame [of n "Tick S (nRn n)"] node_runs.event [OF node_runs.start [of S "{}" "nRn n"], of EvTick] by simp

lemma message_frame: "K n \<Longrightarrow> always K (tolerate_ignored (on_core n (Step S m (nRn n))))"
proof -
  assume "K n"
  then have "always K (on_core n (Step S m (nRn n)))"
    using node_runs.event [OF node_runs.start [of S "{}" "nRn n"], of "EvStep m"] by (intro on_core_frame) simp_all
  then show ?thesis by (cases "on_core n (Step S m (nRn n))") (auto simp: tolerate_ignored_def)
qed

lemma conf_change_frame: "K n \<Longrightarrow> always K (on_core n (ProposeConfChange S c (nRn n)))"
  by (intro on_core_frame node_runs.conf_change node_runs.start)

end

text \<open>
  If the predicate does not look at the answers to membership changes and status requests either, only
  proposals and reads touch it.
\<close>

locale driver_frame = driver_loop +
  assumes statuses: "K n \<Longrightarrow> K (n\<lparr>nStatuses := sts\<rparr>)"
    and conf_answers: "K n \<Longrightarrow> K (n\<lparr>nConfAnswers := cas\<rparr>)"
begin

lemmas iteration_frame = run_step_frame

lemma quiet_frame:
  assumes "K n" and "\<forall>p. i \<noteq> OnPropose p" and "\<forall>h. i \<noteq> OnRead h"
  shows "always K (take_input S i n)"
proof (cases i)
  case (OnConfChange h c)
  then show ?thesis
    using conf_change_frame [OF assms(1), of c]
    by (cases "on_core n (ProposeConfChange S c (nRn n))") (auto simp: handleConfChange_def conf_answers)
qed (use assms statuses tick_frame message_frame in auto)

end

section \<open>Every request is answered once\<close>

text \<open>The requests among the inputs, by the number of the client's pointer.\<close>

definition proposals :: "input list \<Rightarrow> nat list" where
  "proposals is = concat (map (\<lambda>i. case i of OnPropose p \<Rightarrow> [pHandle p] | _ \<Rightarrow> []) is)"

definition read_requests :: "input list \<Rightarrow> nat list" where
  "read_requests is = concat (map (\<lambda>i. case i of OnRead h \<Rightarrow> [h] | _ \<Rightarrow> []) is)"

definition conf_requests :: "input list \<Rightarrow> nat list" where
  "conf_requests is = concat (map (\<lambda>i. case i of OnConfChange h _ \<Rightarrow> [h] | _ \<Rightarrow> []) is)"

definition status_requests :: "input list \<Rightarrow> nat list" where
  "status_requests is = concat (map (\<lambda>i. case i of OnStatus h \<Rightarrow> [h] | _ \<Rightarrow> []) is)"

lemmas requests_def = proposals_def read_requests_def conf_requests_def status_requests_def

lemma requests_Cons:
  "proposals (i # is) = proposals [i] @ proposals is" "read_requests (i # is) = read_requests [i] @ read_requests is"
  "conf_requests (i # is) = conf_requests [i] @ conf_requests is" "status_requests (i # is) = status_requests [i] @ status_requests is"
  by (simp_all add: requests_def)

text \<open>The inputs the loop takes before it returns.\<close>

fun taken :: "map_order \<Rightarrow> 's Storage \<Rightarrow> ('m, 'a) StateMachine \<Rightarrow> input list \<Rightarrow> ('s, 'm, 'a) Node \<Rightarrow> input list" where
  "taken iter S M [] n = []"
| "taken iter S M (i # is) n = i # (case run_step iter S M i n of Done True n \<Rightarrow> taken iter S M is n | _ \<Rightarrow> [])"

lemma taken_all: "run iter S M is n = Done True n' \<Longrightarrow> taken iter S M is n = is"
  by (induction "is" arbitrary: n) (auto simp: bind_Done_iff split: if_splits)

text \<open>
  The map of waiting proposals is keyed by the index the core gives a proposal. A proposal accepted at
  an index where another one waits takes its place there; these are the ones that lose theirs.
\<close>

definition displaced_by :: "'s Storage \<Rightarrow> input \<Rightarrow> ('s, 'm, 'a) Node \<Rightarrow> nat list" where
  "displaced_by S i n =
     (case i of
        OnPropose p \<Rightarrow>
          (case Propose S (pCmd p) (nRn n) of
             Done idx _ \<Rightarrow> (case fmlookup (nPending n) idx of Some w \<Rightarrow> [pHandle (awP w)] | None \<Rightarrow> [])
           | _ \<Rightarrow> [])
      | _ \<Rightarrow> [])"

fun displaced :: "map_order \<Rightarrow> 's Storage \<Rightarrow> ('m, 'a) StateMachine \<Rightarrow> input list \<Rightarrow> ('s, 'm, 'a) Node \<Rightarrow> nat list" where
  "displaced iter S M [] n = []"
| "displaced iter S M (i # is) n =
     displaced_by S i n @ (case run_step iter S M i n of Done True n \<Rightarrow> displaced iter S M is n | _ \<Rightarrow> [])"

text \<open>Where the proposals \<open>ps\<close> and the reads \<open>rs\<close> taken so far are: answered, waiting, or displaced.\<close>

definition accounted :: "nat multiset \<Rightarrow> nat list \<Rightarrow> nat list \<Rightarrow> ('s, 'm, 'a) Node \<Rightarrow> bool" where
  "accounted D ps rs n \<longleftrightarrow>
     mset (map fst (nAnswers n)) + image_mset (\<lambda>w. pHandle (awP w)) (fm_values (nPending n)) + D = mset ps \<and>
     mset (map fst (nReadAnswers n)) + fm_values (nPendingReads n) = mset rs \<and>
     (\<forall>k h. fmlookup (nPendingReads n) k = Some h \<longrightarrow> k \<le> nReadSeq n)"

lemma accounted_answer:
  "accounted D ps rs n \<Longrightarrow> fmlookup (nPending n) i = Some w \<Longrightarrow>
   accounted D ps rs (reply (pHandle (awP w)) res (n\<lparr>nPending := fmdrop i (nPending n)\<rparr>))"
  by (simp add: accounted_def fm_values_drop reply_def)

lemma accounted_read:
  "accounted D ps rs n \<Longrightarrow> fmlookup (nPendingReads n) k = Some h \<Longrightarrow>
   accounted D ps rs (reply_read h rd (n\<lparr>nPendingReads := fmdrop k (nPendingReads n)\<rparr>))"
  by (simp add: accounted_def fm_values_drop reply_read_def)

lemma accounted_resolve_reads: "accounted D ps rs n \<Longrightarrow> accounted D ps rs (resolve_reads sts n)"
  by (induction sts arbitrary: n) (auto simp: accounted_read split: option.splits)

lemma accounted_core [simp]:
  "accounted D ps rs (n\<lparr>nRn := r\<rparr>) = accounted D ps rs n" "accounted D ps rs (n\<lparr>nMachine := x\<rparr>) = accounted D ps rs n"
  "accounted D ps rs (n\<lparr>nSent := ms\<rparr>) = accounted D ps rs n" "accounted D ps rs (n\<lparr>nStatuses := sts\<rparr>) = accounted D ps rs n"
  "accounted D ps rs (n\<lparr>nConfAnswers := cas\<rparr>) = accounted D ps rs n"
  "accounted D ps rs (n\<lparr>nLastState := st, nLastTerm := t\<rparr>) = accounted D ps rs n"
  by (simp_all add: accounted_def)

text \<open>The orders in which the maps of waiting requests are visited.\<close>

definition fair_order :: "map_order \<Rightarrow> bool" where
  "fair_order iter \<longleftrightarrow> map_range (by_index iter) \<and> map_range (by_read iter)"

lemma accounted_frame: "fair_order iter \<Longrightarrow> driver_frame iter S (accounted D ps rs)"
  by (intro driver_frame.intro driver_loop.intro driver_frame_axioms.intro)
    (auto simp: fair_order_def accounted_answer accounted_read resolveReads_def accounted_resolve_reads split: prod.splits)

definition key_order :: map_order where
  "key_order = \<lparr>by_index = by_key, by_read = by_key\<rparr>"

lemma key_order_fair: "fair_order key_order"
  by (simp add: fair_order_def key_order_def by_key.map_range_axioms)

interpretation accounting: driver_frame key_order S M "accounted D ps rs" for S M D ps rs
  by (rule accounted_frame [OF key_order_fair])

text \<open>What the loop keeps when it does not panic.\<close>

abbreviation survives :: "('s \<Rightarrow> bool) \<Rightarrow> ('x, 's) outcome \<Rightarrow> bool" where
  "survives K \<equiv> post (\<lambda>_. K) (\<lambda>_. K) (\<lambda>_. True)"

lemma accounted_propose:
  assumes "accounted D ps rs n"
  shows "survives (accounted (D + mset (displaced_by S (OnPropose p) n)) (ps @ [pHandle p]) rs) (handlePropose S p n)"
proof -
  have "accounted (D + mset (case fmlookup (nPending n) i of Some w \<Rightarrow> [pHandle (awP w)] | None \<Rightarrow> [])) (ps @ [pHandle p]) rs
      (n\<lparr>nRn := r, nPending := fmupd i \<lparr>awTerm = t, awP = p\<rparr> (nPending n)\<rparr>)" for r i t
  proof (cases "fmlookup (nPending n) i")
    case None
    then have "fmdrop i (nPending n) = nPending n" by (intro fmap_ext) auto
    with None assms show ?thesis by (simp add: accounted_def fm_values_upd)
  next
    case (Some w)
    with assms show ?thesis using fm_values_drop [OF Some] by (simp add: accounted_def fm_values_upd add.assoc)
  qed
  moreover have "accounted D (ps @ [pHandle p]) rs (reply (pHandle p) res (n\<lparr>nRn := r\<rparr>))" for r res
    using assms by (simp add: accounted_def reply_def)
  ultimately show ?thesis
    by (cases "Propose S (pCmd p) (nRn n)") (simp_all add: handlePropose_def on_core_def displaced_by_def)
qed

lemma accounted_request_read:
  assumes "accounted D ps rs n" and "unat (nReadSeq n) + 1 < 2 ^ 64"
  shows "survives (accounted D ps (rs @ [h])) (handleRead S h n)"
proof -
  let ?q = "nReadSeq n + 1"
  have less: "nReadSeq n < ?q" using assms(2) by (simp add: uint64_less_iff unat_Suc_uint64)
  then have "fmlookup (nPendingReads n) ?q = None"
    using assms(1) by (cases "fmlookup (nPendingReads n) ?q") (auto simp: accounted_def dest!: leD)
  then have "fmdrop ?q (nPendingReads n) = nPendingReads n" by (intro fmap_ext) auto
  moreover have "k \<le> ?q" if "fmlookup (nPendingReads n) k = Some x" for k x
    using assms(1) that less by (auto simp: accounted_def intro: order_trans less_imp_le)
  ultimately have "accounted D ps (rs @ [h]) (n\<lparr>nReadSeq := ?q, nRn := r, nPendingReads := fmupd ?q h (nPendingReads n)\<rparr>)"
    "accounted D ps (rs @ [h]) (reply_read h rd (n\<lparr>nReadSeq := ?q, nRn := r\<rparr>))" for r rd
    using assms(1) by (auto simp: accounted_def fm_values_upd reply_read_def)
  then show ?thesis
    by (cases "ReadIndex S ?q (nRn n)") (simp_all add: handleRead_def Let_def on_core_def)
qed

lemma accounted_input:
  assumes "fair_order iter" and "accounted D ps rs n" and "unat (nReadSeq n) + 1 < 2 ^ 64"
  shows "survives (accounted (D + mset (displaced_by S i n)) (ps @ proposals [i]) (rs @ read_requests [i])) (take_input S i n)"
proof (cases "(\<exists>p. i = OnPropose p) \<or> (\<exists>h. i = OnRead h)")
  case True
  then show ?thesis
    using accounted_propose [OF assms(2)] accounted_request_read [OF assms(2,3)] by (auto simp: requests_def displaced_by_def)
next
  case False
  then have "survives (accounted D ps rs) (take_input S i n)"
    using driver_frame.quiet_frame [OF accounted_frame [OF assms(1)] assms(2), of i S] by (auto elim: post_mono)
  with False show ?thesis by (cases i) (simp_all add: requests_def displaced_by_def)
qed

text \<open>When the loop has returned, nobody waits any more.\<close>

lemma failPending_sel:
  fixes n :: "('s, 'm, 'a) Node"
  assumes "fair_order iter"
  shows "nPending (failPending iter e n) = fmempty" "nPendingReads (failPending iter e n) = nPendingReads n"
proof -
  let ?f = "\<lambda>(i :: Index, w :: awaiting) (n :: ('s, 'm, 'a) Node). reply (pHandle (awP w)) (propose_error e) (n\<lparr>nPending := fmdrop i (nPending n)\<rparr>)"
  have "nPending (fold ?f xs n) = fold (\<lambda>(i, _). fmdrop i) xs (nPending n) \<and> nPendingReads (fold ?f xs n) = nPendingReads n" for xs
    by (induction xs arbitrary: n) (auto split: prod.splits)
  then show "nPending (failPending iter e n) = fmempty" "nPendingReads (failPending iter e n) = nPendingReads n"
    using map_range.range_drop_all [of "by_index iter" "nPending n"] assms by (simp_all add: failPending_def fair_order_def)
qed

lemma failReads_sel:
  fixes n :: "('s, 'm, 'a) Node"
  assumes "fair_order iter"
  shows "nPendingReads (failReads iter e n) = fmempty" "nPending (failReads iter e n) = nPending n"
proof -
  let ?f = "\<lambda>(i, h) (n :: ('s, 'm, 'a) Node). reply_read h \<lparr>rdIndex = 0, rdErr = Some e\<rparr> (n\<lparr>nPendingReads := fmdrop i (nPendingReads n)\<rparr>)"
  have "nPendingReads (fold ?f xs n) = fold (\<lambda>(i, _). fmdrop i) xs (nPendingReads n) \<and> nPending (fold ?f xs n) = nPending n" for xs
    by (induction xs arbitrary: n) (auto split: prod.splits)
  then show "nPendingReads (failReads iter e n) = fmempty" "nPending (failReads iter e n) = nPending n"
    using map_range.range_drop_all [of "by_read iter" "nPendingReads n"] assms by (simp_all add: failReads_def fair_order_def)
qed

lemma run_step_returned:
  assumes "fair_order iter" and "run_step iter S M i n = Done False n'"
  shows "nPending n' = fmempty \<and> nPendingReads n' = fmempty"
  using assms(2)
  by (auto simp: run_step_def shut_down_def or_fatal_def then_flush_def fatal_def failPending_sel [OF assms(1)]
      failReads_sel [OF assms(1)] split: if_splits outcome.splits)

lemma run_returned:
  assumes "fair_order iter" and "run iter S M is n = Done False n'"
  shows "nPending n' = fmempty \<and> nPendingReads n' = fmempty"
  using assms(2)
proof (induction "is" arbitrary: n)
  case (Cons i "is")
  then show ?case
    by (auto simp: bind_Done_iff split: if_splits dest: run_step_returned [OF assms(1)])
qed simp

text \<open>A node that has started is fresh, except that its machine may have been restored.\<close>

lemma Start_Ok:
  assumes "Start S st tr mc rnd sd cfg = Ok n"
  obtains rn m f c where "NewRawNode S st (Some f) c = Ok rn" "n = fresh_node rn m"
proof -
  obtain M m0 where mc: "the mc = (M, m0)" by fastforce
  then obtain rn f c where r: "NewRawNode S st (Some f) c = Ok rn"
    "(case restoreFromDisk S (the st) M (fresh_node rn m0) of Done _ n \<Rightarrow> Ok n | Fail e _ \<Rightarrow> Err e | Panic _ \<Rightarrow> Crash) = Ok n"
    using assms by (auto simp: Start_def rbind_Ok_iff)
  have "always (\<lambda>n. \<exists>m. n = fresh_node rn m) (restoreFromDisk S (the st) M (fresh_node rn m0))"
    unfolding restoreFromDisk_def
    by (rule post_seq [OF always_lift [where I = "\<lambda>n. \<exists>m. n = fresh_node rn m"]])
      (auto simp: on_machine_def post_embed_iff fresh_node_def split: option.splits)
  with r(2) obtain m where "n = fresh_node rn m"
    by (cases "restoreFromDisk S (the st) M (fresh_node rn m0)") auto
  with r(1) show thesis by (rule that)
qed

lemma Start_accounted: "Start S st tr mc rnd sd cfg = Ok n \<Longrightarrow> accounted {#} [] [] n"
  by (elim Start_Ok) (simp add: accounted_def fresh_node_def)

section \<open>What a read is told\<close>

text \<open>Reads get their identifiers in sequence, so as long as the counter does not wrap they are not reused.\<close>

definition reads_numbered :: "nat \<Rightarrow> ('s, 'm, 'a) Node \<Rightarrow> bool" where
  "reads_numbered k n \<longleftrightarrow> unat (nReadSeq n) = k \<and> reads_upto (nReadSeq n) (nRn n)"

lemma resolve_reads_sel [simp]:
  "nRn (resolve_reads sts n) = nRn n" "nReadSeq (resolve_reads sts n) = nReadSeq n"
  by (induction sts arbitrary: n) (auto simp: reply_read_def split: option.splits)

lemma node_runs_more: "node_runs S A r r' \<Longrightarrow> A \<subseteq> B \<Longrightarrow> node_runs S B r r'"
  by (induction rule: node_runs.induct) (auto intro: node_runs.intros)

lemma numbered_core: "reads_numbered k n \<Longrightarrow> node_runs S {} (nRn n) r \<Longrightarrow> reads_numbered k (n\<lparr>nRn := r\<rparr>)"
  using read_ids.runs_frame [of S "nReadSeq n" "nRn n" r] node_runs_more [of S "{}" "nRn n" r]
  by (simp add: reads_numbered_def)

lemma numbered_frame: "fair_order iter \<Longrightarrow> driver_frame iter S (reads_numbered k)"
  by (intro driver_frame.intro driver_loop.intro driver_frame_axioms.intro numbered_core)
    (auto simp: fair_order_def reads_numbered_def reads_upto_def resolveReads_def ReadStates_def reply_def reply_read_def)

interpretation numbering: driver_frame key_order S M "reads_numbered k" for S M k
  by (rule numbered_frame [OF key_order_fair])

lemma numbered_read:
  assumes "reads_numbered k n" and "k + 1 < 2 ^ 64"
  shows "always (reads_numbered (k + 1)) (handleRead S h n)"
proof -
  let ?q = "nReadSeq n + 1"
  have q: "unat ?q = k + 1" "nReadSeq n \<le> ?q"
    using assms by (auto simp: reads_numbered_def unat_Suc_uint64 uint64_le_iff)
  then have "reads_upto ?q (nRn n)" using assms(1) by (auto simp: reads_numbered_def reads_upto_def intro: order_trans)
  then have "always (reads_upto ?q) (ReadIndex S ?q (nRn n))" by (rule read_ids.ReadIndex_frame) simp
  with q show ?thesis
    by (cases "ReadIndex S ?q (nRn n)") (auto simp: handleRead_def Let_def on_core_def reads_numbered_def reply_read_def)
qed

lemma numbered_propose: "reads_numbered k n \<Longrightarrow> always (reads_numbered k) (handlePropose S p n)"
proof -
  assume k: "reads_numbered k n"
  have "node_runs S {} (nRn n) (state_of (Propose S (pCmd p) (nRn n)))"
    using node_runs.event [OF node_runs.start [of S "{}" "nRn n"], of "EvPropose (pCmd p)"]
    by (cases "Propose S (pCmd p) (nRn n)") (auto simp: void_def)
  with k show ?thesis
    using numbered_core [OF k] by (cases "Propose S (pCmd p) (nRn n)") (auto simp: handlePropose_def on_core_def reads_numbered_def reply_def)
qed

text \<open>At most \<open>k\<close> reads have been numbered.\<close>

definition reads_at_most :: "nat \<Rightarrow> ('s, 'm, 'a) Node \<Rightarrow> bool" where
  "reads_at_most k n \<longleftrightarrow> (\<exists>j \<le> k. reads_numbered j n)"

lemma at_most_mono: "reads_at_most k n \<Longrightarrow> k \<le> l \<Longrightarrow> reads_at_most l n"
  unfolding reads_at_most_def by (meson order_trans)

lemma numbered_at_most: "always (reads_numbered j) m \<Longrightarrow> j \<le> k \<Longrightarrow> always (reads_at_most k) m"
  by (cases m) (auto simp: reads_at_most_def)

lemma at_most_step:
  assumes "fair_order iter" and "reads_at_most k n" and "k + 1 < 2 ^ 64"
  shows "always (reads_at_most (k + 1)) (run_step iter S M i n)"
proof -
  obtain j where j: "j \<le> k" "reads_numbered j n" using assms(2) unfolding reads_at_most_def by blast
  have step: "always (reads_numbered l) (take_input S i n) \<Longrightarrow> l \<le> k + 1 \<Longrightarrow> ?thesis" for l
    by (rule numbered_at_most [OF driver_frame.iteration_frame [OF numbered_frame [OF assms(1)]]])
  consider (read) h where "i = OnRead h" | (propose) p where "i = OnPropose p" | (quiet) "\<forall>p. i \<noteq> OnPropose p" "\<forall>h. i \<noteq> OnRead h"
    by blast
  then show ?thesis
  proof cases
    case read
    then show ?thesis using numbered_read [OF j(2)] j(1) assms(3) by (intro step [of "j + 1"]) simp_all
  next
    case propose
    then show ?thesis using numbered_propose [OF j(2)] j(1) by (intro step [of j]) simp_all
  next
    case quiet
    then show ?thesis
      using driver_frame.quiet_frame [OF numbered_frame [OF assms(1)] j(2)] j(1) by (intro step [of j]) simp_all
  qed
qed

lemma at_most_run:
  assumes "fair_order iter" and "reads_at_most k n" and "k + length is < 2 ^ 64"
  shows "always (reads_at_most (k + length is)) (run iter S M is n)"
  using assms(2,3)
proof (induction "is" arbitrary: k n)
  case (Cons i "is")
  have s: "always (reads_at_most (k + 1)) (run_step iter S M i n)"
    using Cons.prems by (intro at_most_step [OF assms(1)]) simp_all
  show ?case
  proof (cases "run_step iter S M i n")
    case (Done go n')
    then have n': "reads_at_most (k + 1) n'" using s by simp
    then have "always (reads_at_most (k + 1 + length is)) (run iter S M is n')"
      using Cons.prems(2) by (intro Cons.IH) simp_all
    with Done at_most_mono [OF n', of "k + length (i # is)"] show ?thesis by simp
  qed (use s at_most_mono [of "k + 1" _ "k + length (i # is)"] in simp_all)
qed simp

lemma NewRawNode_store: "NewRawNode S st rnd cfg = Ok r \<Longrightarrow> \<exists>s f. st = Some s \<and> rnd = Some f"
  by (auto simp: NewRawNode_def validate_def rbind_Ok_iff split: if_splits)

lemma Start_numbered: "Start S st tr mc rnd sd cfg = Ok n \<Longrightarrow> reads_numbered 0 n"
proof (elim Start_Ok)
  fix rn m f c
  assume a: "NewRawNode S st (Some f) c = Ok rn" and n: "n = fresh_node rn m"
  then obtain s where "NewRawNode S (Some s) (Some f) c = Ok rn" using NewRawNode_store by blast
  then obtain r1 where "rn = becomeFollower (rTerm r1) None_id r1" by (elim NewRawNode_Ok) blast
  then show ?thesis by (simp add: n reads_numbered_def reads_upto_def fresh_node_def)
qed

text \<open>So every iteration accounts for the request it takes, and the loop for all of them.\<close>

lemma accounted_step:
  assumes "fair_order iter" and "accounted D ps rs n" and "reads_at_most k n" and "k + 1 < 2 ^ 64"
    and "run_step iter S M i n = Done go n'"
  shows "accounted (D + mset (displaced_by S i n)) (ps @ proposals [i]) (rs @ read_requests [i]) n'"
proof -
  let ?K = "accounted (D + mset (displaced_by S i n)) (ps @ proposals [i]) (rs @ read_requests [i])"
  have "unat (nReadSeq n) + 1 < 2 ^ 64" using assms(3,4) by (auto simp: reads_at_most_def reads_numbered_def)
  then have "survives ?K (take_input S i n)" by (rule accounted_input [OF assms(1,2)])
  moreover have "\<not> (\<exists>n1. take_input S i n = Panic n1)"
    using assms(5) by (cases i) (auto simp: run_step_def or_fatal_def)
  ultimately have "always ?K (take_input S i n)" by (cases "take_input S i n") auto
  then have "always ?K (run_step iter S M i n)" by (rule driver_frame.iteration_frame [OF accounted_frame [OF assms(1)]])
  with assms(5) show ?thesis by simp
qed

lemma accounted_run:
  assumes "fair_order iter" and "accounted D ps rs n" and "reads_at_most k n" and "k + length is < 2 ^ 64"
    and "run iter S M is n = Done go n'"
  shows "accounted (D + mset (displaced iter S M is n)) (ps @ proposals (taken iter S M is n))
     (rs @ read_requests (taken iter S M is n)) n'"
  using assms(2-5)
proof (induction "is" arbitrary: D ps rs k n)
  case (Cons i "is")
  obtain g n1 where g: "run_step iter S M i n = Done g n1" "(if g then run iter S M is n1 else Done False n1) = Done go n'"
    using Cons.prems(4) by (auto simp: bind_Done_iff)
  have a: "accounted (D + mset (displaced_by S i n)) (ps @ proposals [i]) (rs @ read_requests [i]) n1"
    using Cons.prems(3) by (intro accounted_step [OF assms(1) Cons.prems(1,2) _ g(1)]) simp
  have k: "reads_at_most (k + 1) n1" using at_most_step [OF assms(1) Cons.prems(2), of S M i] Cons.prems(3) g(1) by simp
  show ?case
  proof (cases g)
    case True
    then show ?thesis
      using Cons.IH [OF a k] g Cons.prems(3) requests_Cons [of i "taken iter S M is n1"] by (simp add: add.assoc)
  qed (use a g in \<open>simp add: requests_def\<close>)
qed (simp add: requests_def)

text \<open>Membership changes and status requests are answered on the spot, in the order they are taken.\<close>

definition told :: "nat list \<Rightarrow> nat list \<Rightarrow> ('s, 'm, 'a) Node \<Rightarrow> bool" where
  "told cs sts n \<longleftrightarrow> map fst (nConfAnswers n) = cs \<and> map fst (nStatuses n) = sts"

lemma told_reply [simp]: "told cs sts (reply h res n) = told cs sts n" "told cs sts (reply_read h rd n) = told cs sts n"
  by (simp_all add: told_def reply_def reply_read_def)

lemma told_update [simp]:
  "told cs sts (n\<lparr>nRn := r\<rparr>) = told cs sts n" "told cs sts (n\<lparr>nMachine := x\<rparr>) = told cs sts n"
  "told cs sts (n\<lparr>nSent := ms\<rparr>) = told cs sts n" "told cs sts (n\<lparr>nPending := pd\<rparr>) = told cs sts n"
  "told cs sts (n\<lparr>nPendingReads := pr\<rparr>) = told cs sts n" "told cs sts (n\<lparr>nReadSeq := q\<rparr>) = told cs sts n"
  "told cs sts (n\<lparr>nLastState := st, nLastTerm := t\<rparr>) = told cs sts n"
  by (simp_all add: told_def)

lemma told_resolve [simp]: "told cs sts (resolve_reads rs n) = told cs sts n"
  by (induction rs arbitrary: n) (auto split: option.splits)

lemma told_loop: "fair_order iter \<Longrightarrow> driver_loop iter S (told cs sts)"
  by (intro driver_loop.intro) (auto simp: fair_order_def resolveReads_def split: prod.splits)

interpretation telling: driver_loop key_order S M "told cs sts" for S M cs sts
  by (rule told_loop [OF key_order_fair])

lemma told_input:
  assumes "fair_order iter" and "told cs sts n" and "\<forall>n1. take_input S i n \<noteq> Panic n1"
  shows "always (told (cs @ conf_requests [i]) (sts @ status_requests [i])) (take_input S i n)"
proof (cases i)
  case (OnPropose p)
  then show ?thesis
    using assms(2) by (cases "Propose S (pCmd p) (nRn n)") (auto simp: handlePropose_def on_core_def requests_def)
next
  case (OnRead h)
  then show ?thesis
    using assms(2) by (cases "ReadIndex S (nReadSeq n + 1) (nRn n)") (auto simp: handleRead_def Let_def on_core_def requests_def)
next
  case (OnConfChange h c)
  then show ?thesis
    using assms(2,3) by (cases "ProposeConfChange S c (nRn n)") (auto simp: handleConfChange_def on_core_def requests_def told_def)
qed (use assms driver_loop.tick_frame [OF told_loop [OF assms(1)] assms(2), of S] driver_loop.message_frame [OF told_loop [OF assms(1)] assms(2), of S]
    in \<open>simp_all add: requests_def\<close>, simp add: told_def)

lemma told_run:
  assumes "fair_order iter" and "told cs sts n" and "run iter S M is n = Done go n'"
  shows "told (cs @ conf_requests (taken iter S M is n)) (sts @ status_requests (taken iter S M is n)) n'"
  using assms(2,3)
proof (induction "is" arbitrary: cs sts n)
  case (Cons i "is")
  obtain g n1 where g: "run_step iter S M i n = Done g n1" "(if g then run iter S M is n1 else Done False n1) = Done go n'"
    using Cons.prems(2) by (auto simp: bind_Done_iff)
  then have "\<forall>n1. take_input S i n \<noteq> Panic n1" by (cases i) (auto simp: run_step_def or_fatal_def)
  then have "always (told (cs @ conf_requests [i]) (sts @ status_requests [i])) (run_step iter S M i n)"
    by (intro driver_loop.run_step_frame [OF told_loop [OF assms(1)]] told_input [OF assms(1) Cons.prems(1)])
  then have a: "told (cs @ conf_requests [i]) (sts @ status_requests [i]) n1" using g(1) by simp
  show ?case
  proof (cases g)
    case True
    then show ?thesis using Cons.IH [OF a] g requests_Cons [of i "taken iter S M is n1"] by simp
  qed (use a g in \<open>simp add: requests_def\<close>)
qed (simp add: requests_def)

lemma Start_told: "Start S st tr mc rnd sd cfg = Ok n \<Longrightarrow> told [] [] n"
  by (elim Start_Ok) (simp add: told_def fresh_node_def)

text \<open>
  The read with handle \<open>h\<close> has identifier \<open>k\<close> and was asked for when the commit index was \<open>c\<close>: nobody
  else answers it, and if it is answered it is told at least \<open>c\<close>.
\<close>

definition barrier :: "uint64 \<Rightarrow> nat \<Rightarrow> Index \<Rightarrow> ('s, 'm, 'a) Node \<Rightarrow> bool" where
  "barrier k h c n \<longleftrightarrow> reads_above k c (nRn n) \<and> (\<forall>j. fmlookup (nPendingReads n) j = Some h \<longrightarrow> j = k) \<and>
     (\<forall>rd. (h, rd) \<in> set (nReadAnswers n) \<and> rdErr rd = None \<longrightarrow> c \<le> rdIndex rd)"

lemma barrier_core: "barrier k h c n \<Longrightarrow> node_runs S A (nRn n) r \<Longrightarrow> barrier k h c (n\<lparr>nRn := r\<rparr>)"
  using reads.runs_frame [of S A "nRn n" r k c] by (simp add: barrier_def)

lemma barrier_resolve:
  assumes "barrier k h c n" and "\<forall>st \<in> set sts. rsID st = k \<longrightarrow> c \<le> rsIndex st"
  shows "barrier k h c (resolve_reads sts n)"
  using assms
proof (induction sts arbitrary: n)
  case (Cons st sts)
  have "barrier k h c (reply_read j \<lparr>rdIndex = rsIndex st, rdErr = None\<rparr> (n\<lparr>nPendingReads := fmdrop (rsID st) (nPendingReads n)\<rparr>))"
    if "fmlookup (nPendingReads n) (rsID st) = Some j" for j
    using Cons.prems that by (auto simp: barrier_def)
  then show ?case
    using Cons.prems by (auto intro!: Cons.IH split: option.split)
qed simp

lemma barrier_resolveReads: "barrier k h c n \<Longrightarrow> barrier k h c (resolveReads n)"
proof -
  assume b: "barrier k h c n"
  then have "barrier k h c (n\<lparr>nRn := (nRn n)\<lparr>rReadStates := []\<rparr>\<rparr>)"
    by (auto simp: barrier_def reads_above_def)
  then have "barrier k h c (resolve_reads (rReadStates (nRn n)) (n\<lparr>nRn := (nRn n)\<lparr>rReadStates := []\<rparr>\<rparr>))"
    by (rule barrier_resolve) (use b in \<open>simp add: barrier_def reads_above_def\<close>)
  then show ?thesis by (simp add: resolveReads_def ReadStates_def)
qed

lemma barrier_update [simp]:
  "barrier k h c (n\<lparr>nMachine := x\<rparr>) = barrier k h c n" "barrier k h c (n\<lparr>nSent := ms\<rparr>) = barrier k h c n"
  "barrier k h c (n\<lparr>nStatuses := sts\<rparr>) = barrier k h c n" "barrier k h c (n\<lparr>nConfAnswers := cas\<rparr>) = barrier k h c n"
  "barrier k h c (n\<lparr>nLastState := st, nLastTerm := t\<rparr>) = barrier k h c n"
  "barrier k h c (reply p res n) = barrier k h c n" "barrier k h c (n\<lparr>nPending := w\<rparr>) = barrier k h c n"
  by (simp_all add: barrier_def)

lemma barrier_fail:
  "barrier k h c n \<Longrightarrow> barrier k h c (reply_read j \<lparr>rdIndex = 0, rdErr = Some e\<rparr> (n\<lparr>nPendingReads := fmdrop i (nPendingReads n)\<rparr>))"
  by (auto simp: barrier_def)

lemma barrier_frame: "fair_order iter \<Longrightarrow> driver_frame iter S (barrier k h c)"
  by (intro driver_frame.intro driver_loop.intro driver_frame_axioms.intro) (simp add: fair_order_def | simp only: barrier_update | intro barrier_resolveReads barrier_fail | erule (1) barrier_core)+

interpretation read_barrier: driver_frame key_order S M "barrier k h c" for S M k h c
  by (rule barrier_frame [OF key_order_fair])

lemma barrier_start:
  assumes "reads_numbered q n" and "q + 1 < 2 ^ 64" and "\<forall>j. fmlookup (nPendingReads n) j \<noteq> Some h"
    and "h \<notin> fst ` set (nReadAnswers n)"
  shows "always (barrier (nReadSeq n + 1) h (rCommitted (nRn n))) (handleRead S h n)"
proof -
  let ?k = "nReadSeq n + 1" and ?c = "rCommitted (nRn n)"
  have "nReadSeq n < ?k"
    using assms(1,2) by (auto simp: reads_numbered_def uint64_less_iff unat_Suc_uint64)
  then have "reads_above ?k ?c (nRn n)"
    using assms(1) by (fastforce simp: reads_numbered_def reads_upto_def reads_above_def)
  then have r: "always (reads_above ?k ?c) (ReadIndex S ?k (nRn n))"
    by (rule reads.ReadIndex_frame [where A = UNIV]) simp
  have a: "(h, rd) \<notin> set (nReadAnswers n)" for rd using assms(4) by force
  show ?thesis
    using r a assms(3)
    by (cases "ReadIndex S ?k (nRn n)") (auto simp: handleRead_def Let_def on_core_def barrier_def)
qed

lemma barrier_input:
  assumes "fair_order iter" and b: "barrier k h c n" and "i \<noteq> OnRead h"
  shows "always (barrier k h c) (take_input S i n)"
proof (cases "(\<exists>p. i = OnPropose p) \<or> (\<exists>j. i = OnRead j)")
  case True
  have "always (barrier k h c) (handlePropose S p n)" for p
  proof -
    have "node_runs S {} (nRn n) (state_of (Propose S (pCmd p) (nRn n)))"
      using node_runs.event [OF node_runs.start [of S "{}" "nRn n"], of "EvPropose (pCmd p)"]
      by (cases "Propose S (pCmd p) (nRn n)") (auto simp: void_def)
    from barrier_core [OF b this] show ?thesis
      by (cases "Propose S (pCmd p) (nRn n)") (simp_all add: handlePropose_def on_core_def)
  qed
  moreover have "always (barrier k h c) (handleRead S j n)" if "j \<noteq> h" for j
  proof -
    let ?q = "nReadSeq n + 1"
    have "node_runs S UNIV (nRn n) (state_of (ReadIndex S ?q (nRn n)))"
      using node_runs.event [OF node_runs.start [of S UNIV "nRn n"], of "EvRead ?q"] by simp
    from barrier_core [OF b this] show ?thesis
      using that by (cases "ReadIndex S ?q (nRn n)") (auto simp: handleRead_def Let_def on_core_def barrier_def)
  qed
  ultimately show ?thesis using True assms(3) by (elim disjE exE; simp)
next
  case False
  then show ?thesis
    by (intro driver_frame.quiet_frame [OF barrier_frame [OF assms(1)] b]) auto
qed

lemma barrier_run:
  assumes "fair_order iter" and "barrier k h c n" and "h \<notin> set (read_requests is)"
  shows "always (barrier k h c) (run iter S M is n)"
  using assms(2,3)
proof (induction "is" arbitrary: n)
  case (Cons i "is")
  then have "i \<noteq> OnRead h" and is': "h \<notin> set (read_requests is)"
    by (auto simp: read_requests_def split: input.splits)
  then have "always (barrier k h c) (run_step iter S M i n)"
    using driver_frame.iteration_frame [OF barrier_frame [OF assms(1)] barrier_input [OF assms(1) Cons.prems(1)]] by blast
  then show ?case
    using Cons.IH is' by (cases "run_step iter S M i n") auto
qed simp

lemma AwaitApplied_Ok:
  "AwaitApplied i rounds = Some (Ok ()) \<Longrightarrow> \<exists>st w. (Ok st, w) \<in> set rounds \<and> i \<le> stAppliedIndex st"
  unfolding AwaitApplied_def
  by (induction "\<lambda>st :: Status. if i \<le> stAppliedIndex st then Some (Ok ()) else None" rounds rule: await.induct)
    (auto split: if_splits wake.splits)

section \<open>Applying what is committed\<close>

lemma for_each_append: "for_each f (xs @ ys) s = bind (for_each f xs s) (\<lambda>_ s. for_each f ys s)"
  by (induction xs arbitrary: s) (auto simp: bind_assoc intro!: bind_cong)

text \<open>Applying entries does not look at the core, and leaves it alone.\<close>

abbreviation with_core :: "'s RawNode \<Rightarrow> ('s, 'm, 'a) Node \<Rightarrow> ('s, 'm, 'a) Node" where
  "with_core r n \<equiv> n\<lparr>nRn := r\<rparr>"

lemma apply_entry_core: "apply_entry M e (with_core r n) = embed (with_core r) (apply_entry M e n)"
  by (cases "smApply M e (nMachine n)")
    (auto simp: apply_entry_def on_machine_def resolve_def Let_def reply_def split: option.splits)

lemma apply_entries_core: "for_each (apply_entry M) es (with_core r n) = embed (with_core r) (for_each (apply_entry M) es n)"
proof (induction es arbitrary: n)
  case (Cons e es)
  then show ?case by (cases "apply_entry M e n") (simp_all add: apply_entry_core)
qed simp

lemma apply_entry_keeps_core: "always (\<lambda>n'. nRn n' = nRn n) (apply_entry M e n)"
  by (cases "smApply M e (nMachine n)")
    (auto simp: apply_entry_def on_machine_def resolve_def Let_def split: option.splits)

lemma apply_entries_keep_core:
  fixes n :: "('s, 'm, 'a) Node"
  shows "always (\<lambda>n'. nRn n' = nRn n) (for_each (apply_entry M) es n)"
proof (rule for_each_inv)
  fix e and n' :: "('s, 'm, 'a) Node"
  assume "nRn n' = nRn n"
  then show "always (\<lambda>n'. nRn n' = nRn n) (apply_entry M e n')"
    using apply_entry_keeps_core [of n' M e] by simp
qed simp

definition set_applied :: "Index \<Rightarrow> 's RawNode \<Rightarrow> 's RawNode" where
  "set_applied i r = r\<lparr>rLog := (rLog r)\<lparr>applied := i\<rparr>\<rparr>"

lemma set_applied_sel [simp]:
  "set_applied j (set_applied i r) = set_applied j r" "rCommitted (set_applied i r) = rCommitted r"
  "applied (rLog (set_applied i r)) = i" "rStore (set_applied i r) = rStore r" "rCfg (set_applied i r) = rCfg r"
  "set_applied (applied (rLog r)) r = r"
  by (simp_all add: set_applied_def)

lemma ApplyTo_forward: "applied (rLog r) < i \<Longrightarrow> i \<le> rCommitted r \<Longrightarrow> ApplyTo i r = Done () (set_applied i r)"
  by (auto simp: ApplyTo_def appliedTo_def on_log_def set_applied_def)

text \<open>The committed entries not yet applied.\<close>

definition unapplied :: "astore \<Rightarrow> 's RawNode \<Rightarrow> LogEntry list" where
  "unapplied a r =
     take (unat (rCommitted r) - unat (applied (rLog r))) (drop (unat (applied (rLog r)) - aBase a) (aEnts a))"

context log_storage
begin

lemma batch_step:
  assumes "log_ok abs inv (rLog r)" and "0 \<le> MaxApplyEntries (rCfg r)" and "MaxApplyEntries (rCfg r) < 2 ^ 63"
    and "applied (rLog r) < rCommitted r"
  obtains es i where "CommittedEntries S r = Ok es" "es \<noteq> []" "i = eIndex (last es)" "ApplyTo i r = Done () (set_applied i r)"
    "unapplied (abs (rStore r)) r = es @ unapplied (abs (rStore r)) (set_applied i r)"
    "applied (rLog r) < i" "i \<le> rCommitted r" "log_ok abs inv (rLog (set_applied i r))"
proof -
  let ?a = "abs (rStore r)" and ?p = "unat (applied (rLog r))" and ?c = "unat (rCommitted r)" and ?m = "MaxApplyEntries (rCfg r)"
  let ?d = "drop (?p - aBase ?a) (aEnts ?a)"
  define b where "b = (if ?m = 0 then ?c - ?p else min (nat ?m) (?c - ?p))"
  let ?es = "take b ?d"
  have w: "awf ?a" and base: "aBase ?a \<le> ?p" "?p < ?c" "?c \<le> aLast ?a"
    using assms(1,4) abs_wf [of "rStore r"] by (auto simp: log_ok_def store_ok_def uint64_le_iff uint64_less_iff)
  have b: "0 < b" "b \<le> ?c - ?p" "?c - ?p \<le> length ?d" using assms(2) base by (auto simp: aLast_def b_def)
  have len: "length ?es = b" using b by simp
  have "?es \<noteq> []" using b len by force
  then have "last ?es = aEnts ?a ! (?p - aBase ?a + (b - 1))"
    using b len base by (subst last_conv_nth) (auto simp: aLast_def)
  then have li: "unat (eIndex (last ?es)) = ?p + b"
    using w b base by (auto simp: awf_def aLast_def)
  let ?i = "eIndex (last ?es)"
  have "unapplied ?a r = ?es @ unapplied ?a (set_applied ?i r)"
  proof -
    have "drop (?p + b - aBase ?a) (aEnts ?a) = drop b ?d" using base by (simp add: add.commute)
    moreover have "take (?c - ?p) ?d = take b ?d @ take (?c - (?p + b)) (drop b ?d)"
      using b take_add [of b "?c - (?p + b)" ?d] by simp
    ultimately show ?thesis by (simp add: unapplied_def li)
  qed
  moreover have "CommittedEntries S r = Ok ?es"
    using entriesToApply_eq [OF assms(1-3)] by (simp add: CommittedEntries_def b_def)
  moreover have i: "applied (rLog r) < ?i" "?i \<le> rCommitted r" using li b by (auto simp: uint64_less_iff uint64_le_iff)
  moreover have "ApplyTo ?i r = Done () (set_applied ?i r)" by (rule ApplyTo_forward [OF i])
  moreover have "log_ok abs inv (rLog (set_applied k r))" if "applied (rLog r) < k" "k \<le> rCommitted r" for k
    using assms(1) that by (auto simp: log_ok_def set_applied_def)
  note this [OF i]
  ultimately show thesis using \<open>?es \<noteq> []\<close> that [of ?es ?i] by blast
qed

end

lemma apply_batches_idle:
  assumes "applied (rLog (nRn n)) = rCommitted (nRn n)"
  shows "apply_batches k S M n = Done () n" "unapplied a (nRn n) = []" "with_core (set_applied (rCommitted (nRn n)) (nRn n)) n = n"
proof -
  show "apply_batches k S M n = Done () n"
    using assms by (cases k) (simp_all add: HasCommittedEntries_def hasEntriesToApply_def)
  show "unapplied a (nRn n) = []" using assms by (simp add: unapplied_def)
  have "set_applied (rCommitted (nRn n)) (nRn n) = nRn n" by (metis assms set_applied_sel(6))
  then show "with_core (set_applied (rCommitted (nRn n)) (nRn n)) n = n" by simp
qed

context log_storage
begin

lemma apply_batches_all:
  assumes "log_ok abs inv (rLog (nRn n))" and "0 \<le> MaxApplyEntries (rCfg (nRn n))"
    and "MaxApplyEntries (rCfg (nRn n)) < 2 ^ 63" and "unat (rCommitted (nRn n)) - unat (applied (rLog (nRn n))) \<le> k"
  shows "\<exists>i. applied (rLog (nRn n)) \<le> i \<and> i \<le> rCommitted (nRn n) \<and>
    apply_batches k S M n = embed (with_core (set_applied i (nRn n))) (for_each (apply_entry M) (unapplied (abs (rStore (nRn n))) (nRn n)) n) \<and>
    ((\<exists>n'. apply_batches k S M n = Done () n') \<longrightarrow> i = rCommitted (nRn n))"
  using assms
proof (induction k arbitrary: n)
  case 0
  then have "applied (rLog (nRn n)) = rCommitted (nRn n)"
    by (auto simp: log_ok_def uint64_le_iff uint64_eq_iff)
  note idle = apply_batches_idle [OF this]
  show ?case
    by (rule exI [of _ "rCommitted (nRn n)"]) (use 0 in \<open>simp only: idle for_each.simps embed.simps log_ok_def, simp\<close>)
next
  case (Suc k)
  let ?r = "nRn n" and ?a = "abs (rStore (nRn n))"
  show ?case
  proof (cases "applied (rLog ?r) < rCommitted ?r")
    case False
    then have "applied (rLog ?r) = rCommitted ?r" using Suc.prems(1) by (auto simp: log_ok_def)
    note idle = apply_batches_idle [OF this]
    show ?thesis
      by (rule exI [of _ "rCommitted ?r"]) (use Suc.prems(1) in \<open>simp only: idle for_each.simps embed.simps log_ok_def, simp\<close>)
  next
    case True
    obtain es i where b: "CommittedEntries S ?r = Ok es" "es \<noteq> []" "i = eIndex (last es)" "ApplyTo i ?r = Done () (set_applied i ?r)"
      "unapplied ?a ?r = es @ unapplied ?a (set_applied i ?r)" "applied (rLog ?r) < i" "i \<le> rCommitted ?r"
      "log_ok abs inv (rLog (set_applied i ?r))"
      using batch_step [OF Suc.prems(1-3) True] by blast
    have has: "HasCommittedEntries ?r" using True by (simp add: HasCommittedEntries_def hasEntriesToApply_def)
    have core: "nRn (state_of (for_each (apply_entry M) es n)) = ?r"
      using apply_entries_keep_core [of n M es] by (simp add: always_state_of)
    show ?thesis
    proof (cases "for_each (apply_entry M) es n")
      case (Done u n1)
      let ?n = "with_core (set_applied i ?r) n1" and ?rest = "unapplied ?a (set_applied i ?r)"
      have step: "apply_batches (Suc k) S M n = apply_batches k S M ?n"
        using has b(1,2) b(4) core Done by (simp add: on_core_def b(3) [symmetric])
      have whole: "for_each (apply_entry M) (unapplied ?a ?r) n = for_each (apply_entry M) ?rest n1"
        unfolding b(5) for_each_append Done by simp
      have "unat (rCommitted ?r) - unat i \<le> k" using b(6) Suc.prems(4) by (auto simp: uint64_less_iff)
      then have "\<exists>j. i \<le> j \<and> j \<le> rCommitted ?r \<and>
        apply_batches k S M ?n = embed (with_core (set_applied j ?r)) (for_each (apply_entry M) ?rest ?n) \<and>
        ((\<exists>n'. apply_batches k S M ?n = Done () n') \<longrightarrow> j = rCommitted ?r)"
        using Suc.IH [of ?n] b(8) Suc.prems(2,3) by simp
      then obtain j where j: "i \<le> j" "j \<le> rCommitted ?r"
        "apply_batches k S M ?n = embed (with_core (set_applied j ?r)) (for_each (apply_entry M) ?rest ?n)"
        "(\<exists>n'. apply_batches k S M ?n = Done () n') \<longrightarrow> j = rCommitted ?r"
        by blast
      have "embed (with_core (set_applied j ?r)) (for_each (apply_entry M) ?rest ?n) =
          embed (with_core (set_applied j ?r)) (for_each (apply_entry M) ?rest n1)"
        unfolding apply_entries_core by (cases "for_each (apply_entry M) ?rest n1") simp_all
      with j(3) have "apply_batches k S M ?n = embed (with_core (set_applied j ?r)) (for_each (apply_entry M) ?rest n1)" by simp
      moreover have "applied (rLog ?r) \<le> j" using b(6) j(1) by (rule less_imp_le [OF less_le_trans])
      ultimately show ?thesis
        unfolding step whole using j(2,4) by blast
    next
      case (Fail e n1)
      have "with_core (set_applied (applied (rLog ?r)) ?r) n1 = n1" using core Fail by simp
      moreover have "apply_batches (Suc k) S M n = Fail e n1" using has b(1,2) Fail by simp
      moreover have "for_each (apply_entry M) (unapplied ?a ?r) n = Fail e n1" unfolding b(5) for_each_append Fail by simp
      ultimately show ?thesis using True by (intro exI [of _ "applied (rLog ?r)"]) (simp del: set_applied_sel)
    next
      case (Panic n1)
      have "with_core (set_applied (applied (rLog ?r)) ?r) n1 = n1" using core Panic by simp
      moreover have "apply_batches (Suc k) S M n = Panic n1" using has b(1,2) Panic by simp
      moreover have "for_each (apply_entry M) (unapplied ?a ?r) n = Panic n1" unfolding b(5) for_each_append Panic by simp
      ultimately show ?thesis using True by (intro exI [of _ "applied (rLog ?r)"]) (simp del: set_applied_sel)
    qed
  qed
qed

end

section \<open>The key-value store as the application\<close>

definition kv_machine :: "map_iter \<Rightarrow> (Store, Result) StateMachine" where
  "kv_machine iter =
     \<lparr>smApply = Apply iter, smSnapshotter = Some \<lparr>snSnapshot = (\<lambda>s. Ok (Store_Snapshot s)), snRestore = Restore\<rparr>\<rparr>"

definition normal :: "LogEntry \<Rightarrow> bool" where
  "normal e \<longleftrightarrow> eType e = EntryNormal"

lemma kv_entries:
  assumes "apply_all iter (filter normal es) (nMachine n) = Done rs s"
  shows "\<exists>n'. for_each (apply_entry (kv_machine iter)) es n = Done () n' \<and> nMachine n' = s"
  using assms
proof (induction es arbitrary: n rs)
  case (Cons e es)
  have keep: "nMachine (resolve e a n) = nMachine n" for a and n :: "('b, Store, Result) Node"
    by (auto simp: resolve_def Let_def split: option.splits)
  show ?case
  proof (cases "normal e")
    case True
    then obtain a rs' s1 where a: "Apply iter e (nMachine n) = Done a s1" "apply_all iter (filter normal es) s1 = Done rs' s"
      using Cons.prems by (auto simp: bind_Done_iff)
    let ?n = "resolve e (Some a) (n\<lparr>nMachine := s1\<rparr>)"
    have "apply_entry (kv_machine iter) e n = Done () ?n"
      using True a(1) by (simp add: apply_entry_def on_machine_def kv_machine_def normal_def)
    moreover have "apply_all iter (filter normal es) (nMachine ?n) = Done rs' s" by (simp add: keep a(2))
    ultimately show ?thesis using Cons.IH by simp
  next
    case False
    then have "apply_entry (kv_machine iter) e n = Done () (resolve e None n)"
      by (simp add: apply_entry_def normal_def)
    moreover have "apply_all iter (filter normal es) (nMachine (resolve e None n)) = Done rs s"
      using Cons.prems False by (simp add: keep)
    ultimately show ?thesis using Cons.IH by simp
  qed
qed simp

text \<open>A request waiting for one of the entries is answered, with success if the entry is its own.\<close>

lemma apply_entry_answers:
  assumes "apply_entry M e n = Done () n'"
  shows "set (nAnswers n) \<subseteq> set (nAnswers n')" "\<And>i. i \<noteq> eIndex e \<Longrightarrow> fmlookup (nPending n') i = fmlookup (nPending n) i"
    "fmlookup (nPending n) (eIndex e) = Some w \<Longrightarrow>
      \<exists>res. (pHandle (awP w), res) \<in> set (nAnswers n') \<and>
        (if awTerm w = eTerm e then prErr res = None \<and> prIndex res = eIndex e else prErr res = Some ErrProposalDropped)"
  using assms
  by (cases "smApply M e (nMachine n)";
      force simp: apply_entry_def on_machine_def resolve_def Let_def propose_error_def split: option.splits if_splits)+

lemma apply_entries_answers:
  assumes "for_each (apply_entry M) es n = Done () n'" and "distinct (map eIndex es)" and "e \<in> set es"
    and "fmlookup (nPending n) (eIndex e) = Some w"
  shows "\<exists>res. (pHandle (awP w), res) \<in> set (nAnswers n') \<and>
    (if awTerm w = eTerm e then prErr res = None \<and> prIndex res = eIndex e else prErr res = Some ErrProposalDropped)"
  using assms
proof (induction es arbitrary: n)
  case (Cons x xs)
  obtain n1 where n1: "apply_entry M x n = Done () n1" "for_each (apply_entry M) xs n1 = Done () n'"
    using Cons.prems(1) by (auto simp: bind_Done_iff)
  have mono: "set (nAnswers n1) \<subseteq> set (nAnswers n')"
    using n1(2)
  proof (induction xs arbitrary: n1)
    case (Cons y ys)
    then show ?case using apply_entry_answers(1) by (fastforce simp: bind_Done_iff)
  qed simp
  show ?case
  proof (cases "x = e")
    case True
    then show ?thesis using apply_entry_answers(3) [OF n1(1)] Cons.prems(4) mono by blast
  next
    case False
    then have e: "e \<in> set xs" using Cons.prems(3) by simp
    then have "eIndex e \<in> eIndex ` set xs" by simp
    moreover have "eIndex x \<notin> eIndex ` set xs" using Cons.prems(2) by simp
    ultimately have "eIndex e \<noteq> eIndex x" by metis
    with e show ?thesis
      using Cons.IH [OF n1(2)] Cons.prems(2,4) apply_entry_answers(2) [OF n1(1)] by simp
  qed
qed simp

section \<open>Properties\<close>

text \<open>C31. Every request the loop takes is answered exactly once. In every run of a started node that does not
  panic, each proposal taken has been answered once or is still waiting, unless the core has meanwhile
  accepted another proposal at its index and so displaced it; each read taken has been answered once or
  is still waiting; membership changes and status requests have been answered in the order they were
  taken. When the loop has returned, by a stop or because something failed, nothing is left waiting: every
  proposal and every read has its answer. Fewer than \<open>2 ^ 64\<close> inputs are assumed, so the identifiers of
  reads do not wrap.\<close>

theorem answered_once:
  assumes "fair_order iter" and "Start S st tr mc rnd sd cfg = Ok n" and "length is < 2 ^ 64"
    and "run iter S M is n = Done go n'"
  shows "let ins = taken iter S M is n
    in mset (map fst (nAnswers n')) + image_mset (\<lambda>w. pHandle (awP w)) (fm_values (nPending n')) +
         mset (displaced iter S M is n) = mset (proposals ins) \<and>
       mset (map fst (nReadAnswers n')) + fm_values (nPendingReads n') = mset (read_requests ins) \<and>
       map fst (nConfAnswers n') = conf_requests ins \<and> map fst (nStatuses n') = status_requests ins \<and>
       (\<not> go \<longrightarrow> nPending n' = fmempty \<and> nPendingReads n' = fmempty) \<and> (go \<longrightarrow> ins = is)"
proof -
  have "reads_at_most 0 n" using Start_numbered [OF assms(2)] by (auto simp: reads_at_most_def)
  then have "accounted (mset (displaced iter S M is n)) (proposals (taken iter S M is n)) (read_requests (taken iter S M is n)) n'"
    using accounted_run [OF assms(1) Start_accounted [OF assms(2)] _ _ assms(4), of 0] assms(3) by simp
  moreover have "told (conf_requests (taken iter S M is n)) (status_requests (taken iter S M is n)) n'"
    using told_run [OF assms(1) Start_told [OF assms(2)] assms(4)] by simp
  moreover have "\<not> go \<Longrightarrow> nPending n' = fmempty \<and> nPendingReads n' = fmempty"
    using run_returned [OF assms(1), of S M "is" n n'] assms(4) by simp
  moreover have "go \<Longrightarrow> taken iter S M is n = is" using taken_all assms(4) by simp
  ultimately show ?thesis unfolding accounted_def told_def Let_def by simp
qed

text \<open>
  A cluster of one: three ticks and it leads. A client sets a key, reads behind a barrier, and the node
  is stopped.
\<close>

definition demo_driver_cfg :: DriverConfig where
  "demo_driver_cfg =
     \<lparr>dcID = 1, dcPeers = [], dcBootstrap = [], dcTickInterval = 0, dcElectionTick = 2, dcHeartbeatTick = 1,
      dcPreVote = False, dcMaxEntriesPerMessage = 0, dcMaxApplyEntries = 1, dcProposeBuffer = 0,
      dcSnapshotThreshold = 0, dcSnapshotCatchUpEntries = 0\<rparr>"

definition demo_start :: "(MemoryStorage, Store, Result) Node result" where
  "demo_start = Start memory_storage (Some NewMemoryStorage) True (Some (kv_machine by_key, New)) (Some (\<lambda>_ _. 0)) (\<lambda>_ _. 0) demo_driver_cfg"

definition is_Ok :: "'x result \<Rightarrow> bool" where
  "is_Ok r = (case r of Ok _ \<Rightarrow> True | _ \<Rightarrow> False)"

definition demo_node :: "(MemoryStorage, Store, Result) Node" where
  "demo_node = ok_or undefined demo_start"

definition demo_run :: "input list \<Rightarrow> (bool, (MemoryStorage, Store, Result) Node) outcome" where
  "demo_run is = run key_order memory_storage (kv_machine by_key) is demo_node"

definition demo_inputs :: "input list" where
  "demo_inputs = [OnTick, OnTick, OnPropose \<lparr>pHandle = 1, pCmd = eCommand (demo_entry 0 (demo_set 7 1 10))\<rparr>, OnRead 5, OnStatus 9, OnStop]"

lemma demo_started: "demo_start = Ok demo_node"
proof -
  have "is_Ok demo_start" by code_simp
  then obtain n where n: "demo_start = Ok n" by (auto simp: is_Ok_def split: result.splits)
  have "ok_or undefined demo_start = n" unfolding n by (rule ok_or.simps(1))
  with n show ?thesis unfolding demo_node_def by metis
qed

lemma demo_finished:
  "demo_run demo_inputs = Done False (state_of (demo_run demo_inputs))"
  "nAnswers (state_of (demo_run demo_inputs)) = [(1, \<lparr>prIndex = 2, prResponse = Some zeroResult, prErr = None\<rparr>)]"
  "nReadAnswers (state_of (demo_run demo_inputs)) = [(5, \<lparr>rdIndex = 2, rdErr = None\<rparr>)]"
proof -
  have "case demo_run demo_inputs of Done go n \<Rightarrow> \<not> go | _ \<Rightarrow> False" by code_simp
  then show "demo_run demo_inputs = Done False (state_of (demo_run demo_inputs))"
    by (cases "demo_run demo_inputs") auto
qed code_simp+

theorem answered_once_witness:
  "\<exists>n'. demo_run demo_inputs = Done False n' \<and> map fst (nAnswers n') = [1] \<and> map fst (nReadAnswers n') = [5] \<and>
     map fst (nStatuses n') = [9] \<and> nPending n' = fmempty"
proof -
  let ?n = "state_of (demo_run demo_inputs)"
  have "length demo_inputs < 2 ^ 64" by (simp add: demo_inputs_def)
  from answered_once [OF key_order_fair demo_started [unfolded demo_start_def] this demo_finished(1) [unfolded demo_run_def], folded demo_run_def]
  have "nPending ?n = fmempty" "map fst (nStatuses ?n) = status_requests (taken key_order memory_storage (kv_machine by_key) demo_inputs demo_node)"
    by (simp_all add: Let_def)
  moreover have "status_requests (taken key_order memory_storage (kv_machine by_key) demo_inputs demo_node) = [9]" by code_simp
  ultimately show ?thesis using demo_finished by (intro exI [of _ ?n]) simp
qed

text \<open>C32. A read behind a barrier sees every write that was committed when it was asked for. In every run of a
  started node, a read that is answered is given an index at least as high as the commit index at the
  moment the request was taken, whatever happens in between, and \<open>LinearizableRead\<close> returns a value only
  after it has seen the node report that index as applied. Fewer than \<open>2 ^ 64\<close> requests are assumed.\<close>

theorem read_sees_committed:
  assumes "fair_order iter" and "Start S st tr mc rnd sd cfg = Ok n" and "run iter S M is n = Done True n0"
    and "length is + 1 < 2 ^ 64" and "distinct (read_requests (is @ OnRead h # js))"
    and "(h, rd) \<in> set (nReadAnswers (state_of (run iter S M (OnRead h # js) n0)))"
    and "LinearizableRead rd rounds v = Some (Ok x)"
  shows "v = Ok x \<and> rCommitted (nRn n0) \<le> rdIndex rd \<and>
    (\<exists>status w. (Ok status, w) \<in> set rounds \<and> rCommitted (nRn n0) \<le> stAppliedIndex status)"
proof -
  have "reads_at_most (length is) n0"
    using at_most_run [OF assms(1), of 0 n "is" S M] Start_numbered [OF assms(2)] assms(3,4) by (auto simp: reads_at_most_def)
  then obtain q where q: "q \<le> length is" "reads_numbered q n0" unfolding reads_at_most_def by blast
  have "reads_at_most 0 n" using Start_numbered [OF assms(2)] by (auto simp: reads_at_most_def)
  then have acc: "mset (map fst (nReadAnswers n0)) + fm_values (nPendingReads n0) = mset (read_requests is)"
    using accounted_run [OF assms(1) Start_accounted [OF assms(2)] _ _ assms(3), of 0] assms(4) taken_all [OF assms(3)]
    by (simp add: accounted_def)
  have h: "h \<notin> set (read_requests is)" "h \<notin> set (read_requests js)"
    using assms(5) by (auto simp: read_requests_def)
  have "set_mset (fm_values (nPendingReads n0)) \<subseteq> set (read_requests is)" "fst ` set (nReadAnswers n0) \<subseteq> set (read_requests is)"
    using arg_cong [OF acc, of set_mset] by auto
  then have fresh: "\<forall>j. fmlookup (nPendingReads n0) j \<noteq> Some h" "h \<notin> fst ` set (nReadAnswers n0)"
    using h(1) fm_values_drop by fastforce+
  have "always (barrier (nReadSeq n0 + 1) h (rCommitted (nRn n0))) (take_input S (OnRead h) n0)"
    using barrier_start [OF q(2) _ fresh] q(1) assms(4) by simp
  then have b: "always (barrier (nReadSeq n0 + 1) h (rCommitted (nRn n0))) (run_step iter S M (OnRead h) n0)"
    by (rule driver_frame.iteration_frame [OF barrier_frame [OF assms(1)]])
  then have "always (barrier (nReadSeq n0 + 1) h (rCommitted (nRn n0))) (run iter S M (OnRead h # js) n0)"
    using barrier_run [OF assms(1) _ h(2)] by (cases "run_step iter S M (OnRead h) n0") auto
  then have told: "rdErr rd = None \<Longrightarrow> rCommitted (nRn n0) \<le> rdIndex rd"
    using assms(6) by (auto simp: always_state_of barrier_def)
  have "rdErr rd = None" "AwaitApplied (rdIndex rd) rounds = Some (Ok ())" "v = Ok x"
    using assms(7) by (auto simp: LinearizableRead_def split: option.splits result.splits)
  with told AwaitApplied_Ok show ?thesis by (meson order_trans)
qed

theorem read_sees_committed_witness:
  "\<exists>n0. demo_run (take 3 demo_inputs) = Done True n0 \<and> rCommitted (nRn n0) = 2 \<and>
     LinearizableRead \<lparr>rdIndex = 2, rdErr = None\<rparr> [(Ok (statusLocked memory_storage n0), Timer)] (Ok (Get [107] (nMachine n0))) = Some (Ok ([10], True)) \<and>
     rCommitted (nRn n0) \<le> 2"
proof -
  let ?S = memory_storage and ?M = "kv_machine by_key"
  define n0 where "n0 = state_of (demo_run (take 3 demo_inputs))"
  have "case demo_run (take 3 demo_inputs) of Done go n \<Rightarrow> go | _ \<Rightarrow> False" by code_simp
  then have r: "demo_run (take 3 demo_inputs) = Done True n0"
    unfolding n0_def by (cases "demo_run (take 3 demo_inputs)") auto
  have l: "LinearizableRead \<lparr>rdIndex = 2, rdErr = None\<rparr> [(Ok (statusLocked ?S n0), Timer)] (Ok (Get [107] (nMachine n0))) = Some (Ok ([10], True))"
    and c: "rCommitted (nRn n0) = 2" and a: "nReadAnswers (state_of (run key_order ?S ?M [OnRead 5, OnStop] n0)) = [(5, \<lparr>rdIndex = 2, rdErr = None\<rparr>)]"
    and d: "distinct (read_requests (take 3 demo_inputs @ OnRead 5 # [OnStop]))" "length (take 3 demo_inputs) = 3"
    unfolding n0_def by code_simp+
  have "rCommitted (nRn n0) \<le> rdIndex \<lparr>rdIndex = 2, rdErr = None\<rparr>"
    using read_sees_committed [OF key_order_fair demo_started [unfolded demo_start_def] r [unfolded demo_run_def] _ d(1) _ l] a d(2) by simp
  with r l c show ?thesis by auto
qed

text \<open>C33. Batching is invisible. Whatever the limit on a batch, the loop that applies committed entries ends, has
  applied exactly the entries committed and not yet applied, in log order and each once, to the
  key-value store, and every client waiting at one of their indices has been answered: with success if
  the entry there is from the term in which it proposed, with an error if another leader has replaced it.\<close>

theorem committed_entries_applied:
  fixes n :: "(MemoryStorage, Store, Result) Node"
  assumes "log_ok mem_abs mem_inv (rLog (nRn n))" and "0 \<le> MaxApplyEntries (rCfg (nRn n))"
    and "MaxApplyEntries (rCfg (nRn n)) < 2 ^ 63" and "todo = unapplied (mem_abs (rStore (nRn n))) (nRn n)"
    and "apply_all iter (filter normal todo) (nMachine n) = Done rs s"
  shows "\<exists>n'. applyCommitted memory_storage (kv_machine iter) n = Done () n' \<and> nMachine n' = s \<and>
    nRn n' = set_applied (rCommitted (nRn n)) (nRn n) \<and>
    (\<forall>e \<in> set todo. \<forall>w. fmlookup (nPending n) (eIndex e) = Some w \<longrightarrow>
      (\<exists>res. (pHandle (awP w), res) \<in> set (nAnswers n') \<and>
        (if awTerm w = eTerm e then prErr res = None \<and> prIndex res = eIndex e else prErr res = Some ErrProposalDropped)))"
proof -
  let ?M = "kv_machine iter" and ?r = "nRn n"
  obtain n1 where n1: "for_each (apply_entry ?M) todo n = Done () n1" "nMachine n1 = s" using kv_entries [OF assms(5)] by blast
  obtain i where i: "apply_batches (unat (rCommitted ?r)) memory_storage ?M n = embed (with_core (set_applied i ?r)) (for_each (apply_entry ?M) todo n)"
    "(\<exists>n'. apply_batches (unat (rCommitted ?r)) memory_storage ?M n = Done () n') \<longrightarrow> i = rCommitted ?r"
    using mem_log.apply_batches_all [OF assms(1-3), of "unat (rCommitted ?r)" ?M] assms(4) by auto
  have "distinct (map eIndex todo)"
  proof -
    have "awf (mem_abs (rStore ?r))" using assms(1) mem_log.abs_wf by (auto simp: log_ok_def store_ok_def)
    then have "distinct (map (unat \<circ> eIndex) (aEnts (mem_abs (rStore ?r))))"
      by (auto simp: distinct_conv_nth awf_def)
    then have "distinct (map eIndex (aEnts (mem_abs (rStore ?r))))"
      by (simp add: distinct_map [of unat] flip: map_map)
    then have "distinct (take k (drop j (map eIndex (aEnts (mem_abs (rStore ?r))))))" for k j
      by (intro distinct_take distinct_drop)
    then show ?thesis by (simp add: assms(4) unapplied_def take_map drop_map)
  qed
  then show ?thesis
    using n1 i apply_entries_answers [OF n1(1)] by (simp add: applyCommitted_def)
qed

text \<open>Three committed commands, one at a time, with a client waiting for the second and one for a lost third.\<close>

definition demo_backlog :: "(MemoryStorage, Store, Result) Node" where
  "demo_backlog =
     (fresh_node ((nRn demo_node)\<lparr>rLog :=
        \<lparr>storage = state_of (Mem_AppendEntries demo_log NewMemoryStorage), committed = 3, applied = 0\<rparr>\<rparr>) New)
     \<lparr>nPending := fmupd 2 \<lparr>awTerm = 1, awP = \<lparr>pHandle = 8, pCmd = []\<rparr>\<rparr>
        (fmupd 3 \<lparr>awTerm = 2, awP = \<lparr>pHandle = 9, pCmd = []\<rparr>\<rparr> fmempty)\<rparr>"

lemma demo_backlog_ok: "log_ok mem_abs mem_inv (rLog (nRn demo_backlog))"
proof -
  have i: "map eIndex (msEnts (rStore (nRn demo_backlog))) = [0, 1, 2, 3]" by code_simp
  have l: "committed (rLog (nRn demo_backlog)) = 3" "applied (rLog (nRn demo_backlog)) = 0"
    "LastIncludedIndex (msSnapshot (rStore (nRn demo_backlog))) = 0"
    by code_simp+
  show ?thesis
    using mem_from_zero [of "rStore (nRn demo_backlog)" 3] i l
    by (simp add: log_ok_def store_ok_def mem_abs_def upt_conv_Cons)
qed

theorem committed_entries_applied_witness:
  "\<exists>n'. applyCommitted memory_storage (kv_machine by_key) demo_backlog = Done () n' \<and> applied (rLog (nRn n')) = 3 \<and>
     fmlookup (sData (nMachine n')) [107] = Some [20] \<and> (\<exists>res. (9, res) \<in> set (nAnswers n') \<and> prErr res = Some ErrProposalDropped)"
proof -
  let ?todo = "unapplied (mem_abs (rStore (nRn demo_backlog))) (nRn demo_backlog)"
  define s where "s = state_of (apply_all by_key (filter normal ?todo) (nMachine demo_backlog))"
  define e where "e = demo_entry 3 (demo_set 7 1 10)"
  have m: "MaxApplyEntries (rCfg (nRn demo_backlog)) = 1" and c: "rCommitted (nRn demo_backlog) = 3"
    and t: "?todo = demo_log"
    and d: "fmlookup (sData s) [107] = Some [20]"
    and w: "fmlookup (nPending demo_backlog) (eIndex e) = Some \<lparr>awTerm = 2, awP = \<lparr>pHandle = 9, pCmd = []\<rparr>\<rparr>"
    and e: "eTerm e = 1" and u: "(2 :: Term) \<noteq> 1"
    unfolding s_def e_def by code_simp+
  have "case apply_all by_key (filter normal ?todo) (nMachine demo_backlog) of Done _ _ \<Rightarrow> True | _ \<Rightarrow> False" by code_simp
  then obtain rs where a: "apply_all by_key (filter normal ?todo) (nMachine demo_backlog) = Done rs s"
    unfolding s_def by (cases "apply_all by_key (filter normal ?todo) (nMachine demo_backlog)") auto
  have "e \<in> set ?todo" unfolding t by (simp add: demo_log_def e_def)
  then show ?thesis
    using committed_entries_applied [OF demo_backlog_ok _ _ refl a] m c d w e u by force
qed

end
