(* ===== verification/Codec.thy ===== *)
theory Codec
  imports Raft_Config
begin

text \<open>
  Conversion between the core's types and their serialized form, \<open>codec/codec.go\<close> and
  \<open>codec/varint.go\<close>. The messages of \<open>proto/raft.proto\<close> are records with the fields of the generated
  Go structs; a pointer that may be nil is an option, and the generated getters of a nil message
  return zero values. \<open>proto.Marshal\<close> and \<open>proto.Unmarshal\<close> are the protocol buffer library's and so
  are parameters, with the law that unmarshalling gives back what was marshalled.
\<close>

section \<open>Messages of the peer protocol that are also stored\<close>

text \<open>The generated enum is an \<open>int32\<close>; values the schema does not name are kept as they are.\<close>

datatype pbEntryType =
    ENTRY_TYPE_UNSPECIFIED | ENTRY_TYPE_NORMAL | ENTRY_TYPE_NOOP | ENTRY_TYPE_CONF_CHANGE | ENTRY_TYPE_OTHER int

record pbLogEntry =
  peTerm :: uint64
  peIndex :: uint64
  peType :: pbEntryType
  peCommand :: bytes

record pbConfiguration =
  pcVoters :: "uint64 list"
  pcOldVoters :: "uint64 list"
  pcLearners :: "uint64 list"

record pbSnapshot =
  psLastIncludedIndex :: uint64
  psLastIncludedTerm :: uint64
  psConfig :: "pbConfiguration option"
  psData :: bytes

section \<open>Log entries\<close>

definition zeroLogEntry :: LogEntry where
  "zeroLogEntry = \<lparr>eTerm = 0, eIndex = 0, eType = EntryNormal, eCommand = []\<rparr>"

fun entryTypeToProto :: "EntryType \<Rightarrow> pbEntryType" where
  "entryTypeToProto EntryNormal = ENTRY_TYPE_NORMAL"
| "entryTypeToProto EntryNoOp = ENTRY_TYPE_NOOP"
| "entryTypeToProto EntryConfChange = ENTRY_TYPE_CONF_CHANGE"
| "entryTypeToProto (EntryUnknown _) = ENTRY_TYPE_UNSPECIFIED"

fun entryTypeFromProto :: "pbEntryType \<Rightarrow> EntryType" where
  "entryTypeFromProto ENTRY_TYPE_NOOP = EntryNoOp"
| "entryTypeFromProto ENTRY_TYPE_CONF_CHANGE = EntryConfChange"
| "entryTypeFromProto _ = EntryNormal"

definition EntryToProto :: "LogEntry \<Rightarrow> pbLogEntry" where
  "EntryToProto e = \<lparr>peTerm = eTerm e, peIndex = eIndex e, peType = entryTypeToProto (eType e), peCommand = eCommand e\<rparr>"

definition EntryFromProto :: "pbLogEntry option \<Rightarrow> LogEntry" where
  "EntryFromProto p =
     (case p of
        None \<Rightarrow> zeroLogEntry
      | Some p \<Rightarrow> \<lparr>eTerm = peTerm p, eIndex = peIndex p, eType = entryTypeFromProto (peType p), eCommand = peCommand p\<rparr>)"

type_synonym 'p marshal = "'p \<Rightarrow> bytes result"
type_synonym 'p unmarshal = "bytes \<Rightarrow> 'p result"

definition MarshalEntry :: "pbLogEntry marshal \<Rightarrow> LogEntry \<Rightarrow> bytes result" where
  "MarshalEntry marshal e = marshal (EntryToProto e)"

definition UnmarshalEntry :: "pbLogEntry unmarshal \<Rightarrow> bytes \<Rightarrow> LogEntry result" where
  "UnmarshalEntry unmarshal b = rbind (unmarshal b) (\<lambda>p. Ok (EntryFromProto (Some p)))"

section \<open>Configurations\<close>

definition idsToProto :: "NodeID list \<Rightarrow> uint64 list" where
  "idsToProto ids = (if length ids = 0 then [] else map (\<lambda>i. i) ids)"

definition idsFromProto :: "uint64 list \<Rightarrow> NodeID list" where
  "idsFromProto ids = (if length ids = 0 then [] else map (\<lambda>i. i) ids)"

definition ConfigurationToProto :: "Configuration \<Rightarrow> pbConfiguration" where
  "ConfigurationToProto c = \<lparr>pcVoters = idsToProto (Voters c), pcOldVoters = idsToProto (OldVoters c),
     pcLearners = idsToProto (Learners c)\<rparr>"

definition ConfigurationFromProto :: "pbConfiguration option \<Rightarrow> Configuration" where
  "ConfigurationFromProto p =
     (case p of
        None \<Rightarrow> zeroConfiguration
      | Some p \<Rightarrow>
          (let c = \<lparr>Voters = idsFromProto (pcVoters p), OldVoters = idsFromProto (pcOldVoters p),
                    Learners = idsFromProto (pcLearners p)\<rparr>;
               out = NewConfiguration (Voters c) (Learners c)
           in out\<lparr>OldVoters := OldVoters c\<rparr>))"

section \<open>Snapshots\<close>

definition SnapshotToProto :: "Snapshot \<Rightarrow> pbSnapshot" where
  "SnapshotToProto s = \<lparr>psLastIncludedIndex = LastIncludedIndex s, psLastIncludedTerm = LastIncludedTerm s,
     psConfig = Some (ConfigurationToProto (snapConfig s)), psData = snapData s\<rparr>"

definition SnapshotFromProto :: "pbSnapshot option \<Rightarrow> Snapshot" where
  "SnapshotFromProto p =
     (case p of
        None \<Rightarrow> zeroSnapshot
      | Some p \<Rightarrow> \<lparr>LastIncludedIndex = psLastIncludedIndex p, LastIncludedTerm = psLastIncludedTerm p,
                   snapConfig = ConfigurationFromProto (psConfig p), snapData = psData p\<rparr>)"

definition MarshalSnapshot :: "pbSnapshot marshal \<Rightarrow> Snapshot \<Rightarrow> bytes result" where
  "MarshalSnapshot marshal s = marshal (SnapshotToProto s)"

definition UnmarshalSnapshot :: "pbSnapshot unmarshal \<Rightarrow> bytes \<Rightarrow> Snapshot result" where
  "UnmarshalSnapshot unmarshal b = rbind (unmarshal b) (\<lambda>p. Ok (SnapshotFromProto (Some p)))"

section \<open>Hard state\<close>

text \<open>\<open>binary.PutUvarint\<close> writes at the front of the buffer and returns how many bytes it wrote.\<close>

definition PutUvarint :: "bytes \<Rightarrow> uint64 \<Rightarrow> bytes \<times> nat" where
  "PutUvarint buf x = (let written = AppendUvarint [] x in (written @ drop (length written) buf, length written))"

definition appendUvarint :: "bytes \<Rightarrow> uint64 \<Rightarrow> bytes" where
  "appendUvarint b v = (let (scratch, n) = PutUvarint (replicate MaxVarintLen64 0) v in b @ take n scratch)"

definition readUvarint :: "bytes \<Rightarrow> string \<Rightarrow> (uint64 \<times> int) result" where
  "readUvarint b field =
     (let (v, n) = Uvarint b
      in if n \<le> 0 then Err (ErrMsg (''truncated hard state reading '' @ field)) else Ok (v, n))"

definition MarshalHardState :: "HardState \<Rightarrow> bytes" where
  "MarshalHardState hs =
     (let buf = [];
          buf = appendUvarint buf (hsTerm hs);
          buf = appendUvarint buf (hsVote hs)
      in appendUvarint buf (hsCommit hs))"

definition UnmarshalHardState :: "bytes \<Rightarrow> HardState result" where
  "UnmarshalHardState b =
     rbind (readUvarint b ''term'') (\<lambda>(t, n). (let b = drop (nat n) b in
     rbind (readUvarint b ''vote'') (\<lambda>(vote, n). (let b = drop (nat n) b in
     rbind (readUvarint b ''commit'') (\<lambda>(commit, _).
       Ok \<lparr>hsTerm = t, hsVote = vote, hsCommit = commit\<rparr>)))))"

section \<open>Client sessions\<close>

record pbSession =
  ClientId :: uint64
  SequenceNum :: uint64

definition SessionFromProto :: "pbSession option \<Rightarrow> uint64 \<times> uint64" where
  "SessionFromProto p = (case p of None \<Rightarrow> (0, 0) | Some p \<Rightarrow> (ClientId p, SequenceNum p))"

section \<open>Lemmas\<close>

definition lossless :: "'p marshal \<Rightarrow> 'p unmarshal \<Rightarrow> bool" where
  "lossless marshal unmarshal \<longleftrightarrow> (\<forall>p b. marshal p = Ok b \<longrightarrow> unmarshal b = Ok p)"

lemma ids_proto [simp]: "idsToProto ids = ids" "idsFromProto ids = ids"
  by (simp_all add: idsToProto_def idsFromProto_def)

lemma appendUvarint_eq: "appendUvarint b v = b @ AppendUvarint [] v"
  by (simp add: appendUvarint_def PutUvarint_def Let_def)

lemma readUvarint_append [simp]:
  "readUvarint (AppendUvarint [] x @ rest) field = Ok (x, int (length (AppendUvarint [] x)))"
  by (simp add: readUvarint_def)

lemma readUvarint_append_Nil [simp]:
  "readUvarint (AppendUvarint [] x) field = Ok (x, int (length (AppendUvarint [] x)))"
  using readUvarint_append [of x "[]"] by simp

definition known_entry :: "LogEntry \<Rightarrow> bool" where
  "known_entry e \<longleftrightarrow> (\<forall>b. eType e \<noteq> EntryUnknown b)"

lemma Entry_proto:
  assumes "known_entry e"
  shows "EntryFromProto (Some (EntryToProto e)) = e"
  using assms by (cases e; cases "eType e") (auto simp: EntryFromProto_def EntryToProto_def known_entry_def)

lemma Configuration_proto:
  assumes "wf_conf c"
  shows "ConfigurationFromProto (Some (ConfigurationToProto c)) = c"
proof -
  have "set (Learners c) \<inter> set (Voters c) = {}" "sortedUnique (Learners c) = Learners c" "sortedUnique (Voters c) = Voters c"
    using assms by (auto simp: wf_conf_def sortedUnique_id)
  then have "filter (\<lambda>i. i \<notin> set (Voters c)) (Learners c) = Learners c"
    by (auto simp: filter_id_conv)
  with assms show ?thesis
    by (intro Configuration.equality)
      (simp_all add: ConfigurationFromProto_def ConfigurationToProto_def NewConfiguration_def
        normalize_sel zeroConfiguration_def Let_def wf_conf_def sortedUnique_id)
qed

lemma Snapshot_proto:
  assumes "wf_conf (snapConfig s)"
  shows "SnapshotFromProto (Some (SnapshotToProto s)) = s"
  using Configuration_proto [OF assms] by (simp add: SnapshotFromProto_def SnapshotToProto_def)

section \<open>Properties\<close>

text \<open>The hard state, with the term and the vote on which election safety rests, is read back from disk
  exactly as it was written, whatever bytes follow it.\<close>

theorem HardState_round_trip:
  "UnmarshalHardState (MarshalHardState hs @ rest) = Ok hs"
  by (simp add: UnmarshalHardState_def MarshalHardState_def appendUvarint_eq)

text \<open>C27. What goes to disk comes back: given a protocol buffer library that unmarshals what it marshalled,
  an entry of one of the three known types and a snapshot with a normalised configuration are
  restored exactly.\<close>

theorem stored_round_trip:
  assumes "lossless marshal unmarshal" and "lossless marshal' unmarshal'"
    and "known_entry e" and "MarshalEntry marshal e = Ok b"
    and "wf_conf (snapConfig s)" and "MarshalSnapshot marshal' s = Ok b'"
  shows "UnmarshalEntry unmarshal b = Ok e \<and> UnmarshalSnapshot unmarshal' b' = Ok s"
  using assms Entry_proto [OF assms(3)] Snapshot_proto [OF assms(5)]
  by (simp add: lossless_def MarshalEntry_def UnmarshalEntry_def MarshalSnapshot_def UnmarshalSnapshot_def)

text \<open>
  A simple pair of formats with that law: fields in order, the open-ended one last, refusing what is
  too large or not in the schema.
\<close>

definition type_codes :: "(byte \<times> pbEntryType) list" where
  "type_codes = [(0, ENTRY_TYPE_UNSPECIFIED), (1, ENTRY_TYPE_NORMAL), (2, ENTRY_TYPE_NOOP), (3, ENTRY_TYPE_CONF_CHANGE)]"

definition demo_marshal_entry :: "pbLogEntry marshal" where
  "demo_marshal_entry p =
     (case map_of (map (\<lambda>(k, t). (t, k)) type_codes) (peType p) of
        None \<Rightarrow> Err (ErrMsg ''type'')
      | Some k \<Rightarrow> Ok (k # AppendUvarint [] (peTerm p) @ AppendUvarint [] (peIndex p) @ peCommand p))"

definition demo_unmarshal_entry :: "pbLogEntry unmarshal" where
  "demo_unmarshal_entry b =
     (case b of [] \<Rightarrow> Err (ErrMsg ''empty'')
      | k # b \<Rightarrow> rbind (read_uvarint b) (\<lambda>(t, b). rbind (read_uvarint b) (\<lambda>(i, b).
          (case map_of type_codes k of None \<Rightarrow> Err (ErrMsg ''type'')
           | Some ty \<Rightarrow> Ok \<lparr>peTerm = t, peIndex = i, peType = ty, peCommand = b\<rparr>))))"

lemma demo_entry_lossless: "lossless demo_marshal_entry demo_unmarshal_entry"
proof -
  have "demo_unmarshal_entry b = Ok p" if "demo_marshal_entry p = Ok b" for p b
    using that by (cases p)
      (auto simp: demo_marshal_entry_def demo_unmarshal_entry_def type_codes_def split: option.splits if_splits)
  then show ?thesis by (simp add: lossless_def)
qed

definition demo_marshal_snapshot :: "pbSnapshot marshal" where
  "demo_marshal_snapshot p =
     (case psConfig p of
        None \<Rightarrow> Err (ErrMsg ''config'')
      | Some c \<Rightarrow>
          if length (pcVoters c) \<le> 2 ^ 45 \<and> length (pcOldVoters c) \<le> 2 ^ 45 \<and> length (pcLearners c) \<le> 2 ^ 45
          then Ok (AppendUvarint [] (psLastIncludedIndex p) @ AppendUvarint [] (psLastIncludedTerm p) @
                   appendIDs [] (pcVoters c) @ appendIDs [] (pcOldVoters c) @ appendIDs [] (pcLearners c) @ psData p)
          else Err (ErrMsg ''too large''))"

definition demo_unmarshal_snapshot :: "pbSnapshot unmarshal" where
  "demo_unmarshal_snapshot b =
     rbind (read_uvarint b) (\<lambda>(i, b). rbind (read_uvarint b) (\<lambda>(t, b).
     rbind (readIDs b) (\<lambda>(vs, b). rbind (readIDs b) (\<lambda>(os, b). rbind (readIDs b) (\<lambda>(ls, b).
       Ok \<lparr>psLastIncludedIndex = i, psLastIncludedTerm = t,
           psConfig = Some \<lparr>pcVoters = vs, pcOldVoters = os, pcLearners = ls\<rparr>, psData = b\<rparr>)))))"

lemma demo_snapshot_lossless: "lossless demo_marshal_snapshot demo_unmarshal_snapshot"
proof -
  have "demo_unmarshal_snapshot b = Ok p" if "demo_marshal_snapshot p = Ok b" for p b
    using that by (cases p)
      (auto simp: demo_marshal_snapshot_def demo_unmarshal_snapshot_def readIDs_appendIDs split: option.splits if_splits)
  then show ?thesis by (simp add: lossless_def)
qed

definition demo_noop :: LogEntry where
  "demo_noop = \<lparr>eTerm = 300, eIndex = 7, eType = EntryNoOp, eCommand = []\<rparr>"

definition demo_snap :: Snapshot where
  "demo_snap = \<lparr>LastIncludedIndex = 7, LastIncludedTerm = 300,
     snapConfig = \<lparr>Voters = [1, 2], OldVoters = [2, 3], Learners = [9]\<rparr>, snapData = [5]\<rparr>"

theorem stored_round_trip_witness:
  "\<exists>b b'. MarshalEntry demo_marshal_entry demo_noop = Ok b \<and> UnmarshalEntry demo_unmarshal_entry b = Ok demo_noop \<and>
     MarshalSnapshot demo_marshal_snapshot demo_snap = Ok b' \<and> UnmarshalSnapshot demo_unmarshal_snapshot b' = Ok demo_snap"
proof -
  obtain b where b: "MarshalEntry demo_marshal_entry demo_noop = Ok b"
    by (simp add: MarshalEntry_def demo_marshal_entry_def demo_noop_def EntryToProto_def type_codes_def)
  obtain b' where b': "MarshalSnapshot demo_marshal_snapshot demo_snap = Ok b'"
    by (simp add: MarshalSnapshot_def demo_marshal_snapshot_def demo_snap_def SnapshotToProto_def ConfigurationToProto_def)
  show ?thesis
    using stored_round_trip [OF demo_entry_lossless demo_snapshot_lossless _ b _ b'] b b'
    by (simp add: known_entry_def demo_noop_def demo_snap_def wf_conf_def)
qed

end
