(* ===== verification/Transport.thy ===== *)
theory Transport
  imports Codec Raft_Election
begin

text \<open>
  Messages on the wire, \<open>transport/convert.go\<close>: a core message becomes the envelope of
  \<open>proto/raft.proto\<close> with one payload, and back. A payload keeps only the fields of its own message
  type; that the core reads no others is proved here, so a cluster connected by this transport behaves
  like one whose nodes exchange the core's messages themselves.
\<close>

record pbVoteRequest =
  vqTerm :: uint64
  CandidateId :: uint64
  vqLastLogIndex :: uint64
  vqLastLogTerm :: uint64
  vqPreVote :: bool

record pbVoteResponse =
  vpTerm :: uint64
  VoteGranted :: bool
  vpPreVote :: bool

record pbAppendRequest =
  aqTerm :: uint64
  aqLeaderId :: uint64
  aqPrevLogIndex :: uint64
  aqPrevLogTerm :: uint64
  aqEntries :: "pbLogEntry option list"
  aqLeaderCommit :: uint64
  aqReadId :: uint64

record pbAppendResponse =
  apTerm :: uint64
  apSuccess :: bool
  apMatchIndex :: uint64
  apConflictIndex :: uint64
  apConflictTerm :: uint64
  apReadId :: uint64

record pbSnapshotRequest =
  sqTerm :: uint64
  sqLeaderId :: uint64
  sqSnapshot :: "pbSnapshot option"

record pbSnapshotResponse =
  spTerm :: uint64
  spSuccess :: bool
  spMatchIndex :: uint64

datatype pbPayload =
    VoteRequest pbVoteRequest
  | VoteResponse pbVoteResponse
  | AppendRequest pbAppendRequest
  | AppendResponse pbAppendResponse
  | SnapshotRequest pbSnapshotRequest
  | SnapshotResponse pbSnapshotResponse

record pbRaftMessage =
  rmFrom :: uint64
  rmTo :: uint64
  Payload :: "pbPayload option"

definition toProto :: "Message \<Rightarrow> pbRaftMessage result" where
  "toProto m =
     (let out = (\<lambda>p. Ok \<lparr>rmFrom = mFrom m, rmTo = mTo m, Payload = Some p\<rparr>)
      in case mType m of
           MsgVoteReq \<Rightarrow> out (VoteRequest \<lparr>vqTerm = mTerm m, CandidateId = mFrom m,
             vqLastLogIndex = mLastLogIndex m, vqLastLogTerm = mLastLogTerm m, vqPreVote = mPreVote m\<rparr>)
         | MsgVoteResp \<Rightarrow> out (VoteResponse \<lparr>vpTerm = mTerm m, VoteGranted = mGranted m, vpPreVote = mPreVote m\<rparr>)
         | MsgAppendReq \<Rightarrow> out (AppendRequest \<lparr>aqTerm = mTerm m, aqLeaderId = mFrom m,
             aqPrevLogIndex = mPrevLogIndex m, aqPrevLogTerm = mPrevLogTerm m,
             aqEntries = map (\<lambda>e. Some (EntryToProto e)) (mEntries m),
             aqLeaderCommit = mLeaderCommit m, aqReadId = mReadID m\<rparr>)
         | MsgAppendResp \<Rightarrow> out (AppendResponse \<lparr>apTerm = mTerm m, apSuccess = mSuccess m, apMatchIndex = mMatchIndex m,
             apConflictIndex = mConflictIndex m, apConflictTerm = mConflictTerm m, apReadId = mReadID m\<rparr>)
         | MsgSnapshotReq \<Rightarrow>
             (case mSnapshot m of
                None \<Rightarrow> Err (ErrMsg ''snapshot message carries no snapshot'')
              | Some s \<Rightarrow> out (SnapshotRequest \<lparr>sqTerm = mTerm m, sqLeaderId = mFrom m,
                  sqSnapshot = Some (SnapshotToProto s)\<rparr>))
         | MsgSnapshotResp \<Rightarrow> out (SnapshotResponse \<lparr>spTerm = mTerm m, spSuccess = mSuccess m, spMatchIndex = mMatchIndex m\<rparr>)
         | MsgUnknown _ \<Rightarrow> Err (ErrMsg ''cannot encode message type''))"

text \<open>\<open>if m.From == raft.None\<close>: fall back to the sender named in the payload.\<close>

definition or_from :: "uint64 \<Rightarrow> Message \<Rightarrow> Message" where
  "or_from i m = (if mFrom m = None_id then m\<lparr>mFrom := i\<rparr> else m)"

definition fromProto :: "pbRaftMessage option \<Rightarrow> Message result" where
  "fromProto p =
     (case p of
        None \<Rightarrow> Err (ErrMsg ''nil message'')
      | Some p \<Rightarrow>
          (let m = zeroMessage\<lparr>mFrom := rmFrom p, mTo := rmTo p\<rparr>
           in case Payload p of
                Some (VoteRequest r) \<Rightarrow>
                  Ok (or_from (CandidateId r) (m\<lparr>mType := MsgVoteReq, mTerm := vqTerm r,
                    mLastLogIndex := vqLastLogIndex r, mLastLogTerm := vqLastLogTerm r, mPreVote := vqPreVote r\<rparr>))
              | Some (VoteResponse r) \<Rightarrow>
                  Ok (m\<lparr>mType := MsgVoteResp, mTerm := vpTerm r, mGranted := VoteGranted r, mPreVote := vpPreVote r\<rparr>)
              | Some (AppendRequest r) \<Rightarrow>
                  Ok (or_from (aqLeaderId r) (m\<lparr>mType := MsgAppendReq, mTerm := aqTerm r,
                    mPrevLogIndex := aqPrevLogIndex r, mPrevLogTerm := aqPrevLogTerm r,
                    mLeaderCommit := aqLeaderCommit r, mReadID := aqReadId r,
                    mEntries := (if 0 < length (aqEntries r) then map EntryFromProto (aqEntries r) else [])\<rparr>))
              | Some (AppendResponse r) \<Rightarrow>
                  Ok (m\<lparr>mType := MsgAppendResp, mTerm := apTerm r, mSuccess := apSuccess r, mMatchIndex := apMatchIndex r,
                    mConflictIndex := apConflictIndex r, mConflictTerm := apConflictTerm r, mReadID := apReadId r\<rparr>)
              | Some (SnapshotRequest r) \<Rightarrow>
                  Ok (or_from (sqLeaderId r) (m\<lparr>mType := MsgSnapshotReq, mTerm := sqTerm r,
                    mSnapshot := Some (SnapshotFromProto (sqSnapshot r))\<rparr>))
              | Some (SnapshotResponse r) \<Rightarrow>
                  Ok (m\<lparr>mType := MsgSnapshotResp, mTerm := spTerm r, mSuccess := spSuccess r, mMatchIndex := spMatchIndex r\<rparr>)
              | None \<Rightarrow> Err (ErrMsg ''no recognized payload'')))"

section \<open>What survives the wire\<close>

text \<open>The fields of a message that its type has on the wire.\<close>

definition wire_image :: "Message \<Rightarrow> Message" where
  "wire_image m =
     (let z = zeroMessage\<lparr>mType := mType m, mFrom := mFrom m, mTo := mTo m, mTerm := mTerm m\<rparr>
      in case mType m of
           MsgVoteReq \<Rightarrow> z\<lparr>mLastLogIndex := mLastLogIndex m, mLastLogTerm := mLastLogTerm m, mPreVote := mPreVote m\<rparr>
         | MsgVoteResp \<Rightarrow> z\<lparr>mGranted := mGranted m, mPreVote := mPreVote m\<rparr>
         | MsgAppendReq \<Rightarrow> z\<lparr>mPrevLogIndex := mPrevLogIndex m, mPrevLogTerm := mPrevLogTerm m,
             mLeaderCommit := mLeaderCommit m, mReadID := mReadID m, mEntries := mEntries m\<rparr>
         | MsgAppendResp \<Rightarrow> z\<lparr>mSuccess := mSuccess m, mMatchIndex := mMatchIndex m,
             mConflictIndex := mConflictIndex m, mConflictTerm := mConflictTerm m, mReadID := mReadID m\<rparr>
         | MsgSnapshotReq \<Rightarrow> z\<lparr>mSnapshot := mSnapshot m\<rparr>
         | MsgSnapshotResp \<Rightarrow> z\<lparr>mSuccess := mSuccess m, mMatchIndex := mMatchIndex m\<rparr>
         | MsgUnknown _ \<Rightarrow> z)"

definition wire_ok :: "Message \<Rightarrow> bool" where
  "wire_ok m \<longleftrightarrow> (\<forall>e \<in> set (mEntries m). known_entry e) \<and> (\<forall>s. mSnapshot m = Some s \<longrightarrow> wf_conf (snapConfig s))"

lemma or_from_self [simp]: "mFrom m = i \<Longrightarrow> or_from i m = m"
  by (simp add: or_from_def)

lemma wire_round_trip:
  assumes "wire_ok m" and "toProto m = Ok p"
  shows "fromProto (Some p) = Ok (wire_image m)"
proof -
  have "map (\<lambda>e. EntryFromProto (Some (EntryToProto e))) (mEntries m) = mEntries m"
    using assms(1) by (intro map_idI Entry_proto) (simp add: wire_ok_def)
  moreover have "SnapshotFromProto (Some (SnapshotToProto s)) = s" if "mSnapshot m = Some s" for s
    using assms(1) that by (intro Snapshot_proto) (simp add: wire_ok_def)
  ultimately show ?thesis
    using assms(2)
    by (auto simp: toProto_def fromProto_def wire_image_def Let_def comp_def split: MessageType.splits option.splits)
qed

section \<open>The core reads only what survives\<close>

lemma wire_image_common [simp]:
  "mType (wire_image m) = mType m" "mFrom (wire_image m) = mFrom m" "mTo (wire_image m) = mTo m" "mTerm (wire_image m) = mTerm m"
  by (simp_all add: wire_image_def Let_def split: MessageType.splits)

lemma wire_image_VoteReq:
  "mType m = MsgVoteReq \<Longrightarrow> mPreVote (wire_image m) = mPreVote m \<and> mLastLogIndex (wire_image m) = mLastLogIndex m \<and>
     mLastLogTerm (wire_image m) = mLastLogTerm m"
  by (simp add: wire_image_def)

lemma wire_image_VoteResp:
  "mType m = MsgVoteResp \<Longrightarrow> mPreVote (wire_image m) = mPreVote m \<and> mGranted (wire_image m) = mGranted m"
  by (simp add: wire_image_def)

lemma wire_image_AppendReq:
  "mType m = MsgAppendReq \<Longrightarrow> mPrevLogIndex (wire_image m) = mPrevLogIndex m \<and> mPrevLogTerm (wire_image m) = mPrevLogTerm m \<and>
     mEntries (wire_image m) = mEntries m \<and> mLeaderCommit (wire_image m) = mLeaderCommit m \<and> mReadID (wire_image m) = mReadID m"
  by (simp add: wire_image_def)

lemma wire_image_AppendResp:
  "mType m = MsgAppendResp \<Longrightarrow> mSuccess (wire_image m) = mSuccess m \<and> mMatchIndex (wire_image m) = mMatchIndex m \<and>
     mConflictIndex (wire_image m) = mConflictIndex m \<and> mConflictTerm (wire_image m) = mConflictTerm m \<and>
     mReadID (wire_image m) = mReadID m"
  by (simp add: wire_image_def)

lemma wire_image_SnapshotReq: "mType m = MsgSnapshotReq \<Longrightarrow> mSnapshot (wire_image m) = mSnapshot m"
  by (simp add: wire_image_def)

lemma wire_image_SnapshotResp:
  "mType m = MsgSnapshotResp \<Longrightarrow> mSuccess (wire_image m) = mSuccess m \<and> mMatchIndex (wire_image m) = mMatchIndex m"
  by (simp add: wire_image_def)

lemmas wire_images = wire_image_VoteReq wire_image_VoteResp wire_image_AppendReq wire_image_AppendResp
  wire_image_SnapshotReq wire_image_SnapshotResp

lemma hear_leader_image [simp]: "hear_leader (wire_image m) r = hear_leader m r"
  by (simp add: hear_leader_def Let_def cong: if_cong)

lemma dispatch_image: "dispatch S (wire_image m) r = dispatch S m r"
proof (cases "mType m")
  case MsgVoteReq
  then show ?thesis
    by (simp add: dispatch_def handleVoteRequest_def canVote_def vote_response_def wire_images cong: if_cong)
next
  case MsgVoteResp
  then show ?thesis by (simp add: dispatch_def handleVoteResponse_def wire_images cong: if_cong)
next
  case MsgAppendReq
  then have "answer_append S (wire_image m) = answer_append S m"
    by (intro ext) (simp add: answer_append_def wire_images cong: if_cong)
  with MsgAppendReq show ?thesis
    by (simp add: dispatch_def handleAppendRequest_def wire_images Let_def cong: if_cong)
next
  case MsgAppendResp
  then have "advance_match S pr (wire_image m) r = advance_match S pr m r"
    and "nextAfterRejection S l pr (wire_image m) = nextAfterRejection S l pr m" for pr r l
    by (simp_all add: advance_match_def nextAfterRejection_def wire_images Let_def cong: if_cong option.case_cong)
  with MsgAppendResp show ?thesis
    by (simp add: dispatch_def handleAppendResponse_def wire_images Let_def cong: if_cong option.case_cong)
next
  case MsgSnapshotReq
  then show ?thesis
    by (simp add: dispatch_def handleSnapshotRequest_def snapshot_resp_def install_snapshot_def wire_images Let_def
        cong: if_cong option.case_cong outcome.case_cong)
next
  case MsgSnapshotResp
  then have "advance_match S pr (wire_image m) r = advance_match S pr m r" for pr r
    by (simp add: advance_match_def wire_images Let_def cong: if_cong)
  with MsgSnapshotResp show ?thesis
    by (simp add: dispatch_def handleSnapshotResponse_def wire_images Let_def cong: if_cong option.case_cong)
next
  case (MsgUnknown x)
  then show ?thesis by (simp add: dispatch_def)
qed

lemma Step_image: "Step S (wire_image m) r = Step S m r"
proof -
  have h: "stepHigherTerm S (wire_image m) r = stepHigherTerm S m r" for r
    by (cases "mType m") (simp_all add: stepHigherTerm_def wire_images cong: if_cong)
  have l: "stepLowerTerm (wire_image m) r = stepLowerTerm m r" for r
    by (cases "mType m") (simp_all add: stepLowerTerm_def wire_images cong: if_cong)
  show ?thesis
    by (simp add: Step_def h l dispatch_image cong: if_cong)
qed

section \<open>Properties\<close>

text \<open>C26. The transport is transparent: for every node and every message that can be encoded, with entries of
  known types and a normalised configuration in its snapshot, stepping the node with the message that
  was decoded from the wire has exactly the effect of stepping it with the original.\<close>

theorem wire_transparent:
  assumes "toProto m = Ok p" and "\<forall>e \<in> set (mEntries m). known_entry e"
    and "\<forall>s. mSnapshot m = Some s \<longrightarrow> wf_conf (snapConfig s)"
  shows "\<exists>m'. fromProto (Some p) = Ok m' \<and> Step S m' r = Step S m r"
  using wire_round_trip [OF _ assms(1)] assms(2,3) Step_image by (auto simp: wire_ok_def)

definition demo_append :: Message where
  "demo_append = zeroMessage\<lparr>mType := MsgAppendReq, mFrom := 2, mTo := 1, mTerm := 3, mEntries := [demo_noop],
     mLeaderCommit := 1, mMatchIndex := 99\<rparr>"

theorem wire_transparent_witness:
  "\<exists>p m'. toProto demo_append = Ok p \<and> fromProto (Some p) = Ok m' \<and> m' \<noteq> demo_append \<and>
     (\<forall>(r :: MemoryStorage RawNode). Step memory_storage m' r = Step memory_storage demo_append r)"
proof -
  obtain p where p: "toProto demo_append = Ok p" by (simp add: toProto_def demo_append_def Let_def)
  obtain m' where m': "fromProto (Some p) = Ok m'"
    using wire_transparent [OF p] by (auto simp: demo_append_def demo_noop_def known_entry_def)
  have "mMatchIndex m' = 0"
    using p m' by (auto simp: toProto_def fromProto_def demo_append_def Let_def or_from_def)
  then have "m' \<noteq> demo_append" by (auto simp: demo_append_def)
  moreover have "Step memory_storage m' r = Step memory_storage demo_append r" for r
    using wire_transparent [OF p, of memory_storage r] m' by (auto simp: demo_append_def demo_noop_def known_entry_def)
  ultimately show ?thesis using p m' by blast
qed

end
