(* ===== verification/Fake_Clock.thy ===== *)
theory Fake_Clock
  imports Raft_Prelude
begin

text \<open>
  The clock of the driver's tests, \<open>clock/fake.go\<close>: time moves only when \<open>Advance\<close> is called, and fires
  every timer and ticker that comes due. Times and durations are nanoseconds. Timers and tickers are
  pointers to waiters: a pointer is a number, the waiters live in a store, and a waiter stays in the
  store when it is taken off the clock's list. A waiter's channel has room for one value.

  \<open>Advance\<close> releases the mutex while it sends, so that a receiver may empty the channel in between. Each
  waiter either has a receiver that keeps up, and takes a value off the channel as soon as one is sent, or
  nobody listens while the clock moves; a parameter says which. What the receivers got is read off the
  channels, with \<open>receive\<close>: the loop returns it beside the new state.
\<close>

section \<open>State\<close>

record waiter =
  wAt :: int
  wCh :: "int option"
  wPeriod :: int
  wStopped :: bool

record Fake =
  fNow :: int
  fWaiters :: "nat list"
  fStore :: "nat \<Rightarrow> waiter"
  fNext :: nat

text \<open>The zero time is \<open>None\<close>; it is replaced by the first of January 2030.\<close>

definition NewFake :: "int option \<Rightarrow> Fake" where
  "NewFake start =
     \<lparr>fNow = (case start of Some t \<Rightarrow> t | None \<Rightarrow> 1893456000000000000), fWaiters = [],
      fStore = (\<lambda>_. \<lparr>wAt = 0, wCh = None, wPeriod = 0, wStopped = False\<rparr>), fNext = 0\<rparr>"

definition set_waiter :: "nat \<Rightarrow> waiter \<Rightarrow> Fake \<Rightarrow> Fake" where
  "set_waiter p w f = f\<lparr>fStore := (fStore f)(p := w)\<rparr>"

definition add_waiter :: "int \<Rightarrow> int \<Rightarrow> Fake \<Rightarrow> nat \<times> Fake" where
  "add_waiter d period f =
     (let p = fNext f; f = set_waiter p \<lparr>wAt = fNow f + d, wCh = None, wPeriod = period, wStopped = False\<rparr> f
      in (p, f\<lparr>fNext := p + 1, fWaiters := fWaiters f @ [p]\<rparr>))"

definition NewTimer :: "int \<Rightarrow> Fake \<Rightarrow> nat \<times> Fake" where
  "NewTimer d f = add_waiter d 0 f"

definition NewTicker :: "int \<Rightarrow> Fake \<Rightarrow> (nat, Fake) outcome" where
  "NewTicker d f = (if d \<le> 0 then Panic f else case add_waiter d d f of (p, f) \<Rightarrow> Done p f)"

definition Waiters :: "Fake \<Rightarrow> int" where
  "Waiters f = int (length (fWaiters f))"

text \<open>Taking a value off a waiter's channel; \<open>None\<close> is a receiver that would block.\<close>

definition receive :: "nat \<Rightarrow> Fake \<Rightarrow> int option \<times> Fake" where
  "receive p f = (wCh (fStore f p), set_waiter p ((fStore f p)\<lparr>wCh := None\<rparr>) f)"

definition removeLocked :: "nat \<Rightarrow> Fake \<Rightarrow> Fake" where
  "removeLocked p f = f\<lparr>fWaiters := remove1 p (fWaiters f)\<rparr>"

definition stop_waiter :: "nat \<Rightarrow> Fake \<Rightarrow> bool \<times> Fake" where
  "stop_waiter p f =
     (if wStopped (fStore f p) then (False, f)
      else (True, removeLocked p (set_waiter p ((fStore f p)\<lparr>wStopped := True\<rparr>) f)))"

definition reset_waiter :: "int \<Rightarrow> nat \<Rightarrow> Fake \<Rightarrow> bool \<times> Fake" where
  "reset_waiter d p f =
     (let active = \<not> wStopped (fStore f p);
          f = (if wStopped (fStore f p)
               then (set_waiter p ((fStore f p)\<lparr>wStopped := False\<rparr>) f)\<lparr>fWaiters := fWaiters f @ [p]\<rparr> else f)
      in (active, set_waiter p ((fStore f p)\<lparr>wAt := fNow f + d\<rparr>) f))"

section \<open>Advancing\<close>

abbreviation due :: "int \<Rightarrow> Fake \<Rightarrow> nat \<Rightarrow> bool" where
  "due target f p \<equiv> \<not> wStopped (fStore f p) \<and> wAt (fStore f p) \<le> target"

definition dueLocked :: "int \<Rightarrow> Fake \<Rightarrow> nat list" where
  "dueLocked target f = sort_key (\<lambda>p. wAt (fStore f p)) (filter (due target f) (fWaiters f))"

definition advance_step :: "nat \<Rightarrow> Fake \<Rightarrow> Fake" where
  "advance_step p f =
     (let w = fStore f p; fireAt = wAt w;
          f = f\<lparr>fNow := fireAt\<rparr>;
          f = (if wPeriod w > 0 then set_waiter p (w\<lparr>wAt := fireAt + wPeriod w\<rparr>) f else removeLocked p f)
      in if wCh (fStore f p) = None then set_waiter p ((fStore f p)\<lparr>wCh := Some fireAt\<rparr>) f else f)"

text \<open>How often the waiters can still fire up to \<open>target\<close>, at most.\<close>

definition shots :: "int \<Rightarrow> Fake \<Rightarrow> nat \<Rightarrow> nat" where
  "shots target f p =
     (if due target f p then (if wPeriod (fStore f p) > 0 then nat (target - wAt (fStore f p)) + 1 else 1) else 0)"

lemma dueLocked_Cons:
  assumes "dueLocked target f = p # ps"
  shows "p \<in> set (fWaiters f)" "due target f p"
    "\<And>q. q \<in> set (fWaiters f) \<Longrightarrow> due target f q \<Longrightarrow> wAt (fStore f p) \<le> wAt (fStore f q)"
proof -
  have s: "set (p # ps) = {q \<in> set (fWaiters f). due target f q}"
    using arg_cong [OF assms, of set] by (simp add: dueLocked_def)
  then show "p \<in> set (fWaiters f)" "due target f p" by auto
  have "sorted (map (\<lambda>p. wAt (fStore f p)) (p # ps))"
    using assms unfolding dueLocked_def by (metis sorted_sort_key)
  then show "wAt (fStore f p) \<le> wAt (fStore f q)" if "q \<in> set (fWaiters f)" "due target f q" for q
    using that s by auto
qed

lemma dueLocked_Nil: "dueLocked target f = [] \<longleftrightarrow> (\<forall>p \<in> set (fWaiters f). \<not> due target f p)"
  by (metis (no_types, lifting) dueLocked_def empty_filter_conv set_empty set_sort)

lemma step_waiters: "fWaiters (advance_step p f) = (if wPeriod (fStore f p) > 0 then fWaiters f else remove1 p (fWaiters f))"
  by (simp add: advance_step_def Let_def set_waiter_def removeLocked_def)

lemma step_other: "q \<noteq> p \<Longrightarrow> fStore (advance_step p f) q = fStore f q"
  by (simp add: advance_step_def Let_def set_waiter_def removeLocked_def)

lemma step_self:
  "wPeriod (fStore (advance_step p f) p) = wPeriod (fStore f p)"
  "wStopped (fStore (advance_step p f) p) = wStopped (fStore f p)"
  "wAt (fStore (advance_step p f) p) = wAt (fStore f p) + (if wPeriod (fStore f p) > 0 then wPeriod (fStore f p) else 0)"
  by (simp_all add: advance_step_def Let_def set_waiter_def removeLocked_def)

text \<open>One round of the loop: the send, and the receiver if there is one.\<close>

definition advance_round :: "(nat \<Rightarrow> bool) \<Rightarrow> nat \<Rightarrow> Fake \<Rightarrow> (nat \<times> int) list \<times> Fake" where
  "advance_round listens p f =
     (let f = advance_step p f
      in if listens p then (case receive p f of (Some v, f) \<Rightarrow> ([(p, v)], f) | (None, f) \<Rightarrow> ([], f)) else ([], f))"

lemma round_waiters:
  "fWaiters (snd (advance_round R p f)) = (if wPeriod (fStore f p) > 0 then fWaiters f else remove1 p (fWaiters f))"
  by (simp add: advance_round_def Let_def receive_def set_waiter_def step_waiters split: option.splits)

lemma round_other: "q \<noteq> p \<Longrightarrow> fStore (snd (advance_round R p f)) q = fStore f q"
  by (simp add: advance_round_def Let_def receive_def set_waiter_def step_other split: option.splits)

lemma round_self:
  "wPeriod (fStore (snd (advance_round R p f)) p) = wPeriod (fStore f p)"
  "wStopped (fStore (snd (advance_round R p f)) p) = wStopped (fStore f p)"
  "wAt (fStore (snd (advance_round R p f)) p) = wAt (fStore f p) + (if wPeriod (fStore f p) > 0 then wPeriod (fStore f p) else 0)"
  "fNext (snd (advance_round R p f)) = fNext f"
  by (simp_all add: advance_round_def Let_def receive_def set_waiter_def step_self split: option.splits)
    (simp add: advance_step_def Let_def set_waiter_def removeLocked_def)

text \<open>What is sent: into an empty channel the deadline, which a receiver gets at once.\<close>

lemma step_sends: "wCh (fStore (advance_step p f) p) = Some (case wCh (fStore f p) of None \<Rightarrow> wAt (fStore f p) | Some v \<Rightarrow> v)"
  by (auto simp: advance_step_def Let_def set_waiter_def removeLocked_def split: option.splits)

lemma round_sends:
  "fst (advance_round R p f) = (if R p then [(p, case wCh (fStore f p) of None \<Rightarrow> wAt (fStore f p) | Some v \<Rightarrow> v)] else [])"
  "wCh (fStore (snd (advance_round R p f)) p) =
     (if R p then None else Some (case wCh (fStore f p) of None \<Rightarrow> wAt (fStore f p) | Some v \<Rightarrow> v))"
  by (simp_all add: advance_round_def Let_def receive_def set_waiter_def step_sends)

lemma shots_step:
  assumes "dueLocked target f = p # ps" and "g = snd (advance_round R p f)"
  shows "sum_list (map (shots target g) (fWaiters g)) < sum_list (map (shots target f) (fWaiters f))"
proof -
  let ?xs = "remove1 p (fWaiters f)"
  note p = dueLocked_Cons(1,2) [OF assms(1)]
  have "shots target g q \<le> shots target f q" for q
    by (cases "q = p") (auto simp: assms(2) shots_def round_other round_self intro!: nat_mono)
  then have "sum_list (map (shots target g) ?xs) \<le> sum_list (map (shots target f) ?xs)"
    by (rule sum_list_mono)
  moreover have "sum_list (map (shots target f) (fWaiters f)) = shots target f p + sum_list (map (shots target f) ?xs)"
    using p(1) by (rule sum_list_map_remove1)
  moreover have "0 < shots target f p" using p(2) by (simp add: shots_def)
  moreover have "shots target g p < shots target f p" if "wPeriod (fStore f p) > 0"
    using that p(2) by (simp add: assms(2) shots_def round_self)
  ultimately show ?thesis
    using sum_list_map_remove1 [OF p(1), of "shots target g"]
    by (cases "wPeriod (fStore f p) > 0") (simp_all add: assms(2) round_waiters)
qed

text \<open>The loop, with what the receivers got.\<close>

function advance_loop :: "(nat \<Rightarrow> bool) \<Rightarrow> int \<Rightarrow> Fake \<Rightarrow> (nat \<times> int) list \<times> Fake" where
  "advance_loop listens target f =
     (case dueLocked target f of
        [] \<Rightarrow> ([], f\<lparr>fNow := target\<rparr>)
      | p # _ \<Rightarrow> (case advance_round listens p f of (got, f) \<Rightarrow>
                  (case advance_loop listens target f of (rest, f) \<Rightarrow> (got @ rest, f))))"
  by pat_completeness auto
termination
proof (relation "measure (\<lambda>(listens, target, f). sum_list (map (shots target f) (fWaiters f)))")
  fix listens target f p ps got g
  assume "dueLocked target f = p # ps" and "(got, g) = advance_round listens p f"
  then show "((listens, target, g), listens, target, f) \<in> measure (\<lambda>(listens, target, f). sum_list (map (shots target f) (fWaiters f)))"
    using shots_step [of target f p ps g listens] by (simp add: eq_snd_iff) metis
qed simp

declare advance_loop.simps [simp del]

lemma advance_loop_Cons:
  assumes "dueLocked target f = p # ps" and "advance_loop R target f = (got, f')"
  obtains rest where "advance_loop R target (snd (advance_round R p f)) = (rest, f')" "got = fst (advance_round R p f) @ rest"
  using assms(2) by (subst (asm) advance_loop.simps) (auto simp: assms(1) split: prod.splits)

lemma advance_loop_induct [case_names Nil Cons]:
  assumes "\<And>f. dueLocked target f = [] \<Longrightarrow> P f"
    and "\<And>f p ps. dueLocked target f = p # ps \<Longrightarrow> P (snd (advance_round R p f)) \<Longrightarrow> P f"
  shows "P f"
proof (induction "sum_list (map (shots target f) (fWaiters f))" arbitrary: f rule: less_induct)
  case less
  then show ?case by (cases "dueLocked target f") (auto intro: assms shots_step)
qed

definition Advance :: "(nat \<Rightarrow> bool) \<Rightarrow> int \<Rightarrow> Fake \<Rightarrow> (nat \<times> int) list \<times> Fake" where
  "Advance listens d f = advance_loop listens (fNow f + d) f"

section \<open>What fires\<close>

text \<open>The moments at which a waiter is to fire, up to \<open>target\<close>.\<close>

definition deadlines :: "int \<Rightarrow> waiter \<Rightarrow> int list" where
  "deadlines target w =
     (if wAt w > target then []
      else if wPeriod w > 0 then map (\<lambda>k. wAt w + int k * wPeriod w) [0 ..< nat ((target - wAt w) div wPeriod w) + 1]
      else [wAt w])"

text \<open>What the receiver of waiter \<open>p\<close> got.\<close>

definition times :: "nat \<Rightarrow> (nat \<times> int) list \<Rightarrow> int list" where
  "times p got = map snd (filter (\<lambda>x. fst x = p) got)"

text \<open>What a channel nobody reads holds after the deadlines \<open>ts\<close>: the first value sent into it.\<close>

definition first_kept :: "int option \<Rightarrow> int list \<Rightarrow> int option" where
  "first_kept ch ts = (case ch of Some v \<Rightarrow> Some v | None \<Rightarrow> (case ts of [] \<Rightarrow> None | t # _ \<Rightarrow> Some t))"

definition clock_ok :: "Fake \<Rightarrow> bool" where
  "clock_ok f \<longleftrightarrow> distinct (fWaiters f) \<and> (\<forall>p \<in> set (fWaiters f). \<not> wStopped (fStore f p) \<and> p < fNext f)"

lemma deadlines_tick:
  assumes "wAt w \<le> target" and "wPeriod w > 0"
  shows "deadlines target w = wAt w # deadlines target (w\<lparr>wAt := wAt w + wPeriod w\<rparr>)"
proof (cases "wAt w + wPeriod w \<le> target")
  case True
  let ?q = "wPeriod w" and ?k = "nat ((target - (wAt w + wPeriod w)) div wPeriod w)"
  have "(target - wAt w) div ?q = (target - (wAt w + ?q)) div ?q + 1"
    using assms(2) by (metis add.commute add_diff_eq diff_diff_eq div_add_self2 less_irrefl diff_add_cancel)
  moreover have "0 \<le> (target - (wAt w + ?q)) div ?q" using True assms(2) by (simp add: pos_imp_zdiv_nonneg_iff)
  ultimately have "nat ((target - wAt w) div ?q) + 1 = Suc (?k + 1)" by simp
  then show ?thesis
    using True assms unfolding deadlines_def
    by (simp add: upt_conv_Cons map_Suc_upt [symmetric] del: upt_Suc) (simp add: algebra_simps)
next
  case False
  then have "(target - wAt w) div wPeriod w = 0" using assms by (intro div_pos_pos_trivial) auto
  then show ?thesis using False assms by (simp add: deadlines_def)
qed

lemma deadlines_bounds: "t \<in> set (deadlines target w) \<Longrightarrow> wAt w \<le> t \<and> t \<le> target"
proof -
  have "wAt w + int k * wPeriod w \<le> target" if "wAt w \<le> target" "wPeriod w > 0" "k \<le> nat ((target - wAt w) div wPeriod w)" for k
  proof -
    have "int k \<le> (target - wAt w) div wPeriod w"
      using that by (simp add: le_nat_iff pos_imp_zdiv_nonneg_iff)
    then have "int k * wPeriod w \<le> (target - wAt w) div wPeriod w * wPeriod w"
      using that(2) by (simp add: mult_right_mono)
    also have "\<dots> \<le> target - wAt w" using that(2) by (simp add: minus_mod_eq_div_mult [symmetric] pos_mod_sign)
    finally show ?thesis by simp
  qed
  then show "t \<in> set (deadlines target w) \<Longrightarrow> ?thesis"
    by (auto simp: deadlines_def not_less simp del: upt_Suc split: if_splits)
qed

lemma round_ok: "clock_ok f \<Longrightarrow> clock_ok (snd (advance_round R p f))"
  by (auto simp: clock_ok_def round_waiters round_self round_other split: if_splits)
    (metis round_other round_self(2) notin_set_remove1)+

lemma times_Cons: "times q ((p, t) # got) = (if p = q then t # times q got else times q got)"
  by (simp add: times_def)

lemma times_Nil [simp]: "times q [] = []"
  by (simp add: times_def)

lemma got_times: "(p, t) \<in> set got \<longleftrightarrow> t \<in> set (times p got)"
  by (force simp: times_def)

text \<open>The deadlines of a waiter on the list, before and after one round.\<close>

definition calls :: "int \<Rightarrow> Fake \<Rightarrow> nat \<Rightarrow> int list" where
  "calls target f p = (if p \<in> set (fWaiters f) then deadlines target (fStore f p) else [])"

lemma calls_round:
  assumes "clock_ok f" and "dueLocked target f = p # ps" and "g = snd (advance_round R p f)"
  shows "calls target f p = wAt (fStore f p) # calls target g p" and "q \<noteq> p \<Longrightarrow> calls target g q = calls target f q"
proof -
  note p = dueLocked_Cons [OF assms(2)]
  have d: "distinct (fWaiters f)" using assms(1) by (simp add: clock_ok_def)
  show "calls target f p = wAt (fStore f p) # calls target g p"
  proof (cases "wPeriod (fStore f p) > 0")
    case True
    then have "deadlines target (fStore g p) = deadlines target ((fStore f p)\<lparr>wAt := wAt (fStore f p) + wPeriod (fStore f p)\<rparr>)"
      by (simp add: assms(3) deadlines_def round_self)
    with True p(1,2) deadlines_tick [of "fStore f p" target] show ?thesis
      by (simp add: calls_def assms(3) round_waiters)
  next
    case False
    with p(1,2) d show ?thesis by (simp add: calls_def assms(3) round_waiters deadlines_def)
  qed
  show "calls target g q = calls target f q" if "q \<noteq> p"
    using that by (auto simp: calls_def assms(3) round_waiters round_other dest: notin_set_remove1)
qed

lemma calls_not_before:
  assumes "clock_ok f" and "dueLocked target f = p # ps" and "t \<in> set (calls target f q)"
  shows "wAt (fStore f p) \<le> t"
proof -
  have q: "q \<in> set (fWaiters f)" "wAt (fStore f q) \<le> t" "t \<le> target"
    using assms(3) deadlines_bounds by (auto simp: calls_def split: if_splits)
  with assms(1) dueLocked_Cons(3) [OF assms(2) q(1)] show ?thesis by (auto simp: clock_ok_def)
qed

text \<open>The receivers that keep up get every deadline; a channel nobody reads keeps the first.\<close>

lemma advance_loop_exact:
  assumes "clock_ok f" and "advance_loop R target f = (got, f')" and "\<And>p. R p \<Longrightarrow> wCh (fStore f p) = None"
  shows "(\<forall>p. times p got = (if R p then calls target f p else [])) \<and> sorted (map snd got) \<and>
    (\<forall>p. wCh (fStore f' p) = (if R p then None else first_kept (wCh (fStore f p)) (calls target f p)))"
  using assms
proof (induction f arbitrary: got rule: advance_loop_induct [where target = target and R = R])
  case (Nil f)
  then have "calls target f p = []" for p
    using dueLocked_Nil [of target f] by (auto simp: calls_def deadlines_def clock_ok_def not_le)
  with Nil show ?case by (subst (asm) advance_loop.simps) (auto simp: first_kept_def split: option.splits)
next
  case (Cons f p ps)
  let ?g = "snd (advance_round R p f)"
  obtain rest where rest: "advance_loop R target ?g = (rest, f')" "got = fst (advance_round R p f) @ rest"
    using advance_loop_Cons [OF Cons.hyps Cons.prems(2)] .
  note c = calls_round [OF Cons.prems(1) Cons.hyps refl [of ?g]]
  have empty: "wCh (fStore ?g q) = None" if "R q" for q
    using that Cons.prems(3) by (cases "q = p") (simp_all add: round_sends round_other)
  have ih: "\<forall>q. times q rest = (if R q then calls target ?g q else [])" "sorted (map snd rest)"
    "\<forall>q. wCh (fStore f' q) = (if R q then None else first_kept (wCh (fStore ?g q)) (calls target ?g q))"
    using Cons.IH [OF round_ok [OF Cons.prems(1)] rest(1) empty] by auto
  have got: "got = (if R p then [(p, wAt (fStore f p))] else []) @ rest"
    using Cons.prems(3) by (simp add: rest(2) round_sends)
  have "times q got = (if R q then calls target f q else [])" for q
    using ih(1) c by (cases "q = p") (auto simp: got times_Cons)
  moreover have "wAt (fStore f p) \<le> t" if "(q, t) \<in> set rest" for q t
  proof -
    have "t \<in> set (calls target f q)"
      using that ih(1) c by (cases "q = p") (auto simp: got_times split: if_splits)
    then show ?thesis by (rule calls_not_before [OF Cons.prems(1) Cons.hyps])
  qed
  moreover have "wCh (fStore f' q) = (if R q then None else first_kept (wCh (fStore f q)) (calls target f q))" for q
    using ih(3) c by (cases "q = p") (auto simp: first_kept_def round_sends round_other split: option.splits)
  ultimately show ?case using ih(2) by (auto simp: got)
qed

lemma advance_loop_clock:
  assumes "clock_ok f" and "advance_loop R target f = (got, f')"
  shows "fNow f' = target \<and> clock_ok f' \<and> fNext f' = fNext f \<and> set (fWaiters f') \<subseteq> set (fWaiters f) \<and>
    (\<forall>p \<in> set (fWaiters f'). wAt (fStore f' p) > target) \<and>
    (\<forall>q. wStopped (fStore f' q) = wStopped (fStore f q) \<and> wPeriod (fStore f' q) = wPeriod (fStore f q) \<and>
      (wPeriod (fStore f q) \<le> 0 \<longrightarrow> wAt (fStore f' q) = wAt (fStore f q))) \<and>
    (\<forall>q. q \<notin> set (fWaiters f) \<longrightarrow> fStore f' q = fStore f q)"
  using assms
proof (induction f arbitrary: got rule: advance_loop_induct [where target = target and R = R])
  case (Nil f)
  then show ?case
    using dueLocked_Nil [of target f] by (subst (asm) advance_loop.simps) (auto simp: clock_ok_def not_le)
next
  case (Cons f p ps)
  obtain rest where rest: "advance_loop R target (snd (advance_round R p f)) = (rest, f')"
    using advance_loop_Cons [OF Cons.hyps Cons.prems(2)] by metis
  have sub: "set (fWaiters (snd (advance_round R p f))) \<subseteq> set (fWaiters f)"
    by (auto simp: round_waiters dest: subsetD [OF set_remove1_subset])
  have "fStore (snd (advance_round R p f)) q = fStore f q" if "q \<notin> set (fWaiters f)" for q
    using that dueLocked_Cons(1) [OF Cons.hyps] by (metis round_other)
  moreover have "wStopped (fStore (snd (advance_round R p f)) q) = wStopped (fStore f q)"
    "wPeriod (fStore (snd (advance_round R p f)) q) = wPeriod (fStore f q)"
    "wPeriod (fStore f q) \<le> 0 \<Longrightarrow> wAt (fStore (snd (advance_round R p f)) q) = wAt (fStore f q)" for q
    by (cases "q = p"; simp add: round_self round_other)+
  ultimately show ?case
    using Cons.IH [OF round_ok [OF Cons.prems(1)] rest] sub by (auto simp: round_self(4))
qed

section \<open>Clocks in use\<close>

text \<open>Everything a test can do with a clock, with the pointers it has been given.\<close>

datatype clock_op =
    OpTimer int
  | OpTicker int
  | OpAdvance "nat \<Rightarrow> bool" int
  | OpReceive nat
  | OpStop nat
  | OpReset int nat

fun clock_do :: "clock_op \<Rightarrow> Fake \<Rightarrow> Fake" where
  "clock_do (OpTimer d) f = snd (NewTimer d f)"
| "clock_do (OpTicker d) f = state_of (NewTicker d f)"
| "clock_do (OpAdvance R d) f = snd (Advance R d f)"
| "clock_do (OpReceive p) f = snd (receive p f)"
| "clock_do (OpStop p) f = snd (stop_waiter p f)"
| "clock_do (OpReset d p) f = snd (reset_waiter d p f)"

text \<open>A test only has the pointers that \<open>NewTimer\<close> and \<open>NewTicker\<close> gave it.\<close>

fun has_pointer :: "clock_op \<Rightarrow> Fake \<Rightarrow> bool" where
  "has_pointer (OpReceive p) f = (p < fNext f)"
| "has_pointer (OpStop p) f = (p < fNext f)"
| "has_pointer (OpReset d p) f = (p < fNext f)"
| "has_pointer _ f = True"

fun clock_does :: "clock_op list \<Rightarrow> Fake \<Rightarrow> Fake" where
  "clock_does [] f = f"
| "clock_does (op # ops) f = clock_does ops (clock_do op f)"

fun has_pointers :: "clock_op list \<Rightarrow> Fake \<Rightarrow> bool" where
  "has_pointers [] f = True"
| "has_pointers (op # ops) f = (has_pointer op f \<and> has_pointers ops (clock_do op f))"

definition clock_run :: "Fake \<Rightarrow> bool" where
  "clock_run f \<longleftrightarrow> (\<exists>start ops. has_pointers ops (NewFake start) \<and> f = clock_does ops (NewFake start))"

lemma add_waiter_ok: "clock_ok f \<Longrightarrow> clock_ok (snd (add_waiter d q f))"
  by (auto simp: clock_ok_def add_waiter_def Let_def set_waiter_def)

lemma set_waiter_ok: "clock_ok f \<Longrightarrow> wStopped w = wStopped (fStore f p) \<Longrightarrow> clock_ok (set_waiter p w f)"
  by (auto simp: clock_ok_def set_waiter_def)

lemma clock_do_ok:
  assumes "clock_ok f" and "has_pointer op f"
  shows "clock_ok (clock_do op f)"
proof (cases op)
  case (OpTimer d)
  then show ?thesis using assms add_waiter_ok [of f d 0] by (simp add: NewTimer_def)
next
  case (OpTicker d)
  then show ?thesis using assms add_waiter_ok [of f d d] by (auto simp: NewTicker_def split: prod.splits)
next
  case (OpAdvance R d)
  obtain got f' where "advance_loop R (fNow f + d) f = (got, f')" by fastforce
  with OpAdvance show ?thesis using assms advance_loop_clock by (simp add: Advance_def)
next
  case (OpReceive p)
  then show ?thesis using assms by (auto simp: receive_def intro: set_waiter_ok)
next
  case (OpStop p)
  then show ?thesis using assms
    by (auto simp: stop_waiter_def clock_ok_def set_waiter_def removeLocked_def dest: subsetD [OF set_remove1_subset])
next
  case (OpReset d p)
  let ?f = "(set_waiter p ((fStore f p)\<lparr>wStopped := False\<rparr>) f)\<lparr>fWaiters := fWaiters f @ [p]\<rparr>"
  have "clock_ok ?f" if "wStopped (fStore f p)"
    using assms OpReset that by (auto simp: clock_ok_def set_waiter_def)
  then show ?thesis
    using assms OpReset by (auto simp: reset_waiter_def Let_def intro!: set_waiter_ok)
qed

lemma clock_does_ok: "clock_ok f \<Longrightarrow> has_pointers ops f \<Longrightarrow> clock_ok (clock_does ops f)"
  by (induction ops arbitrary: f) (auto intro: clock_do_ok)

lemma clock_run_ok: "clock_run f \<Longrightarrow> clock_ok f"
  by (auto simp: clock_run_def intro!: clock_does_ok) (simp add: clock_ok_def NewFake_def)

text \<open>A timer that is neither stopped nor on the list.\<close>

definition spent :: "nat \<Rightarrow> int option \<Rightarrow> Fake \<Rightarrow> bool" where
  "spent p ch f \<longleftrightarrow> clock_ok f \<and> p < fNext f \<and> p \<notin> set (fWaiters f) \<and> \<not> wStopped (fStore f p) \<and> wCh (fStore f p) \<in> {None, ch}"

lemma spent_do:
  assumes "spent p ch f" and "has_pointer op f" and "op \<noteq> OpStop p"
  shows "spent p ch (clock_do op f)"
proof -
  have ok: "clock_ok (clock_do op f)" using assms by (simp add: spent_def clock_do_ok)
  show ?thesis
  proof (cases op)
    case (OpAdvance R d)
    obtain got f' where a: "advance_loop R (fNow f + d) f = (got, f')" by fastforce
    from assms(1) advance_loop_clock [OF _ a] ok OpAdvance show ?thesis by (auto simp: spent_def Advance_def a)
  qed (use assms ok in \<open>auto simp: spent_def NewTimer_def NewTicker_def add_waiter_def receive_def stop_waiter_def
      reset_waiter_def removeLocked_def set_waiter_def Let_def dest: subsetD [OF set_remove1_subset]\<close>)
qed

lemma spent_does:
  "spent p ch f \<Longrightarrow> has_pointers ops f \<Longrightarrow> OpStop p \<notin> set ops \<Longrightarrow> spent p ch (clock_does ops f)"
  by (induction ops arbitrary: f) (auto intro: spent_do)

section \<open>Properties\<close>

text \<open>C34. \<open>Advance\<close> ends and sends exactly what comes due, in the order of time. Whatever was done with the
  clock before, a receiver that keeps up gets every deadline of its timer, and every tick of its ticker,
  in the interval and nothing else, and all receivers together get them in the order of time. A channel
  nobody reads holds what it held, or the first of the deadlines if it was empty: later ticks are
  dropped. The clock then shows the new time with no deadline left behind it.\<close>

theorem advance_fires_exactly:
  assumes "clock_run f" and "Advance listens d f = (got, f')" and "\<And>p. listens p \<Longrightarrow> wCh (fStore f p) = None"
  shows "sorted (map snd got) \<and>
    (\<forall>p. times p got = (if listens p \<and> p \<in> set (fWaiters f) then deadlines (fNow f + d) (fStore f p) else [])) \<and>
    (\<forall>p. wCh (fStore f' p) =
       (if listens p then None
        else first_kept (wCh (fStore f p)) (if p \<in> set (fWaiters f) then deadlines (fNow f + d) (fStore f p) else []))) \<and>
    fNow f' = fNow f + d \<and> (\<forall>p \<in> set (fWaiters f'). fNow f' < wAt (fStore f' p))"
  using advance_loop_exact [OF clock_run_ok [OF assms(1)] assms(2) [unfolded Advance_def] assms(3)]
    advance_loop_clock [OF clock_run_ok [OF assms(1)] assms(2) [unfolded Advance_def]]
  by (simp add: calls_def)

text \<open>A timer of 25, a ticker of 10 with a receiver and one of 15 without, advanced by 40.\<close>

definition demo_clock :: Fake where
  "demo_clock = clock_does [OpTimer 25, OpTicker 10, OpTicker 15] (NewFake (Some 0))"

lemma demo_clock_run: "clock_run demo_clock"
  unfolding clock_run_def demo_clock_def
  by (intro exI [of _ "Some 0"] exI [of _ "[OpTimer 25, OpTicker 10, OpTicker 15]"]) simp

theorem advance_fires_exactly_witness:
  "times 1 (fst (Advance (\<lambda>p. p < 2) 40 demo_clock)) = [10, 20, 30, 40] \<and>
   wCh (fStore (snd (Advance (\<lambda>p. p < 2) 40 demo_clock)) 2) = Some 15 \<and>
   fst (Advance (\<lambda>p. p < 2) 40 demo_clock) = [(1, 10), (1, 20), (0, 25), (1, 30), (1, 40)]"
proof -
  let ?R = "\<lambda>p :: nat. p < 2"
  have f: "fst (Advance ?R 40 demo_clock) = [(1, 10), (1, 20), (0, 25), (1, 30), (1, 40)]" by code_simp
  obtain got f' where a: "Advance ?R 40 demo_clock = (got, f')" by fastforce
  have "set (fWaiters demo_clock) = {0, 1, 2}" "deadlines (fNow demo_clock + 40) (fStore demo_clock 1) = [10, 20, 30, 40]"
    "first_kept (wCh (fStore demo_clock 2)) (deadlines (fNow demo_clock + 40) (fStore demo_clock 2)) = Some 15"
    by code_simp+
  moreover have "wCh (fStore demo_clock p) = None" for p
    by (simp add: demo_clock_def NewTimer_def NewTicker_def add_waiter_def Let_def set_waiter_def NewFake_def)
  ultimately show ?thesis using advance_fires_exactly [OF demo_clock_run a] a f by simp
qed

text \<open>C35. A one-shot timer that has fired is not restarted by \<open>Reset\<close>. It has left the clock's list but does
  not count as stopped. Whatever is then done with the clock, short of stopping this timer, any number
  of \<open>Reset\<close>s and \<open>Advance\<close>s included, nothing is sent on its channel again: the channel holds at most the
  value of that one firing. All the while \<open>Stop\<close> says that the timer had not fired yet and \<open>Reset\<close> that it
  was active.\<close>

theorem fired_timer_stays_silent:
  assumes "clock_run f" and "p \<in> set (fWaiters f)" and "wPeriod (fStore f p) = 0"
    and "wAt (fStore f p) \<le> fNow f + d" and "Advance listens d f = (got, f')"
    and "has_pointers ops f'" and "OpStop p \<notin> set ops"
  shows "let g = clock_does ops f' in
    wCh (fStore g p) \<in> {None, wCh (fStore f' p)} \<and> p \<notin> set (fWaiters g) \<and> fst (stop_waiter p g) \<and> fst (reset_waiter e p g)"
proof -
  have ok: "clock_ok f" by (rule clock_run_ok [OF assms(1)])
  note loop = advance_loop_clock [OF ok assms(5) [unfolded Advance_def]]
  have "p \<notin> set (fWaiters f')" "\<not> wStopped (fStore f' p)" "p < fNext f'"
    using loop assms(2-4) ok by (auto simp: clock_ok_def)
  then have "spent p (wCh (fStore f' p)) f'" using loop by (simp add: spent_def)
  from spent_does [OF this assms(6,7)] show ?thesis
    by (simp add: spent_def Let_def stop_waiter_def reset_waiter_def)
qed

theorem fired_timer_stays_silent_witness:
  "let f' = snd (Advance (\<lambda>p. p = 0) 30 demo_clock); g = clock_does [OpReset 5 0, OpAdvance (\<lambda>_. False) 1000] f' in
   times 0 (fst (Advance (\<lambda>p. p = 0) 30 demo_clock)) = [25] \<and> wCh (fStore f' 0) = None \<and> wCh (fStore g 0) = None \<and>
   fst (stop_waiter 0 g) \<and> fst (reset_waiter 5 0 g)"
proof -
  let ?R = "\<lambda>p :: nat. p = 0" and ?ops = "[OpReset 5 0, OpAdvance (\<lambda>_. False) 1000]"
  obtain got f' where a: "Advance ?R 30 demo_clock = (got, f')" by fastforce
  have t: "times 0 (fst (Advance ?R 30 demo_clock)) = [25]" "wCh (fStore (snd (Advance ?R 30 demo_clock)) 0) = None"
    "fNext (snd (Advance ?R 30 demo_clock)) = 3" by code_simp+
  have "0 \<in> set (fWaiters demo_clock)" "wPeriod (fStore demo_clock 0) = 0" "wAt (fStore demo_clock 0) \<le> fNow demo_clock + 30"
    by code_simp+
  moreover have "has_pointers ?ops f'" "OpStop 0 \<notin> set ?ops" using t(3) a by simp_all
  ultimately have "let g = clock_does ?ops f' in wCh (fStore g 0) \<in> {None, wCh (fStore f' 0)} \<and> 0 \<notin> set (fWaiters g) \<and>
      fst (stop_waiter 0 g) \<and> fst (reset_waiter 5 0 g)"
    by (intro fired_timer_stays_silent [OF demo_clock_run _ _ _ a])
  with a t show ?thesis by (simp add: Let_def)
qed

end
