(* ===== verification/Chaos.thy ===== *)
theory Chaos
  imports Go_Maps "HOL-Library.List_Lexorder"
begin

text \<open>
  The linearizability check, \<open>chaos/history.go\<close> and \<open>chaos/check.go\<close>: the record of what clients asked
  and were told, its conversion to operations with a beginning and an end, and the model of one key
  the operations are judged by. The search itself is the Porcupine library, which is not part of the
  repository: it is the parameter \<open>CheckOperationsVerbose\<close>, and the law it is used by is that it answers for
  each partition of the operations whether they are linearizable, in the sense defined here.

  Times are nanoseconds on a monotonic clock; the reading of the clock is an argument. The mutex of a
  history separates goroutines, so every method is one atomic step.
\<close>

section \<open>Histories\<close>

datatype OpKind = OpGet | OpPut | OpDelete | OpOther "8 word"

record Input =
  inOp :: OpKind
  inKey :: bytes
  inValue :: bytes

record Output =
  outValue :: bytes
  outFound :: bool
  outUnknown :: bool

definition zeroOutput :: Output where
  "zeroOutput = \<lparr>outValue = [], outFound = False, outUnknown = False\<rparr>"

record Event =
  evClientID :: int
  evID :: int
  evInput :: Input
  evOutput :: Output
  evInvoked :: int
  evReturned :: int

definition Completed :: "Event \<Rightarrow> bool" where
  "Completed e \<longleftrightarrow> evReturned e \<noteq> 0 \<and> \<not> outUnknown (evOutput e)"

record History =
  hEvents :: "Event list"
  hNextID :: int

definition NewHistory :: History where
  "NewHistory = \<lparr>hEvents = [], hNextID = 0\<rparr>"

record Pending =
  pnClientID :: int
  pnID :: int
  pnInput :: Input
  pnInvoked :: int
  pnDone :: bool

definition Begin :: "int \<Rightarrow> int \<Rightarrow> Input \<Rightarrow> History \<Rightarrow> Pending \<times> History" where
  "Begin now clientID i h =
     (\<lparr>pnClientID = clientID, pnID = hNextID h, pnInput = i, pnInvoked = now, pnDone = False\<rparr>, h\<lparr>hNextID := hNextID h + 1\<rparr>)"

definition Complete :: "int \<Rightarrow> Output \<Rightarrow> Pending \<Rightarrow> History \<Rightarrow> Pending \<times> History" where
  "Complete now out p h =
     (if pnDone p then (p, h)
      else (p\<lparr>pnDone := True\<rparr>,
            h\<lparr>hEvents := hEvents h @ [\<lparr>evClientID = pnClientID p, evID = pnID p, evInput = pnInput p, evOutput = out,
                evInvoked = pnInvoked p, evReturned = now\<rparr>]\<rparr>))"

definition Unknown :: "Pending \<Rightarrow> History \<Rightarrow> Pending \<times> History" where
  "Unknown p h =
     (if pnDone p then (p, h)
      else (p\<lparr>pnDone := True\<rparr>,
            h\<lparr>hEvents := hEvents h @ [\<lparr>evClientID = pnClientID p, evID = pnID p, evInput = pnInput p,
                evOutput = zeroOutput\<lparr>outUnknown := True\<rparr>, evInvoked = pnInvoked p, evReturned = 0\<rparr>]\<rparr>))"

definition HistoryFromEvents :: "Event list \<Rightarrow> History" where
  "HistoryFromEvents es =
     fold (\<lambda>e h. if evID e \<ge> hNextID h then h\<lparr>hNextID := evID e + 1\<rparr> else h) es (NewHistory\<lparr>hEvents := es\<rparr>)"

text \<open>
  \<open>sortByInvocation\<close> sorts in place: the inner loop swaps an event towards the front while it was
  invoked before its neighbour.
\<close>

fun sift_event :: "nat \<Rightarrow> Event list \<Rightarrow> Event list" where
  "sift_event 0 es = es"
| "sift_event (Suc j) es =
     (if evInvoked (es ! Suc j) < evInvoked (es ! j) then sift_event j (es[Suc j := es ! j, j := es ! Suc j]) else es)"

definition sortByInvocation :: "Event list \<Rightarrow> Event list" where
  "sortByInvocation es = fold sift_event [1 ..< length es] es"

definition Events :: "History \<Rightarrow> Event list" where
  "Events h = sortByInvocation (hEvents h)"

definition history_Len :: "History \<Rightarrow> int" where
  "history_Len h = int (length (hEvents h))"

record Stats =
  stTotal :: int
  stCompleted :: int
  stUnknown :: int
  stGets :: int
  stPuts :: int
  stDeletes :: int
  stKeys :: int
  stDuration :: int

definition count_event :: "Event \<Rightarrow> Stats \<times> bytes fset \<times> int \<Rightarrow> Stats \<times> bytes fset \<times> int" where
  "count_event e = (\<lambda>(s, keys, final).
     (let s = s\<lparr>stTotal := stTotal s + 1\<rparr>;
          s = (case inOp (evInput e) of
                 OpGet \<Rightarrow> s\<lparr>stGets := stGets s + 1\<rparr> | OpPut \<Rightarrow> s\<lparr>stPuts := stPuts s + 1\<rparr>
               | OpDelete \<Rightarrow> s\<lparr>stDeletes := stDeletes s + 1\<rparr> | OpOther _ \<Rightarrow> s);
          s = (if outUnknown (evOutput e) then s\<lparr>stUnknown := stUnknown s + 1\<rparr> else s\<lparr>stCompleted := stCompleted s + 1\<rparr>)
      in (s, finsert (inKey (evInput e)) keys, if evReturned e > final then evReturned e else final)))"

definition history_Stats :: "History \<Rightarrow> Stats" where
  "history_Stats h =
     (case fold count_event (hEvents h)
        (\<lparr>stTotal = 0, stCompleted = 0, stUnknown = 0, stGets = 0, stPuts = 0, stDeletes = 0, stKeys = 0, stDuration = 0\<rparr>, {||}, 0) of
        (s, keys, final) \<Rightarrow> s\<lparr>stKeys := int (fcard keys), stDuration := final\<rparr>)"

text \<open>
  One operation of the workload. The random draws, the clock readings and what the calls of the client
  return are arguments; \<open>set\<close> answers with an index that is not recorded.
\<close>

record Workload =
  wlReadFraction :: rat
  wlDeleteFraction :: rat

definition workload_input :: "Workload \<Rightarrow> bytes \<Rightarrow> rat \<Rightarrow> rat \<Rightarrow> bytes \<Rightarrow> Input" where
  "workload_input w key d1 d2 v =
     (if d1 < wlReadFraction w then \<lparr>inOp = OpGet, inKey = key, inValue = []\<rparr>
      else if d2 < wlDeleteFraction w then \<lparr>inOp = OpDelete, inKey = key, inValue = []\<rparr>
      else \<lparr>inOp = OpPut, inKey = key, inValue = v\<rparr>)"

record client_calls =
  clGet :: "bytes \<Rightarrow> (bytes \<times> bool) result"
  clSet :: "bytes \<Rightarrow> bytes \<Rightarrow> uint64 result"
  clDelete :: "bytes \<Rightarrow> bool result"

definition settle :: "int \<Rightarrow> ('v \<Rightarrow> Output) \<Rightarrow> 'v result \<Rightarrow> Pending \<Rightarrow> History \<Rightarrow> Pending \<times> History" where
  "settle now out answer p h = (case answer of Ok v \<Rightarrow> Complete now (out v) p h | Err _ \<Rightarrow> Unknown p h | Crash \<Rightarrow> (p, h))"

definition workload_step :: "client_calls \<Rightarrow> int \<Rightarrow> Input \<Rightarrow> int \<Rightarrow> int \<Rightarrow> History \<Rightarrow> Pending \<times> History" where
  "workload_step cl clientID i began ended h =
     (let (pending, h) = Begin began clientID i h
      in case inOp i of
           OpGet \<Rightarrow> settle ended (\<lambda>(v, found). \<lparr>outValue = v, outFound = found, outUnknown = False\<rparr>) (clGet cl (inKey i)) pending h
         | OpPut \<Rightarrow> settle ended (\<lambda>_. zeroOutput) (clSet cl (inKey i) (inValue i)) pending h
         | OpDelete \<Rightarrow> settle ended (\<lambda>existed. zeroOutput\<lparr>outFound := existed\<rparr>) (clDelete cl (inKey i)) pending h
         | OpOther _ \<Rightarrow> (pending, h))"

section \<open>Operations and the model\<close>

record Operation =
  opClientId :: int
  opInput :: Input
  opOutput :: Output
  opCall :: int
  opReturn :: int

definition last_moment :: "Event list \<Rightarrow> int" where
  "last_moment es =
     fold (\<lambda>e end. let end = (if evReturned e > end then evReturned e else end)
                   in if evInvoked e > end then evInvoked e else end) es 0"

definition toPorcupine :: "Event list \<Rightarrow> Operation list" where
  "toPorcupine es =
     (let final = last_moment es + 1
      in map (\<lambda>e. \<lparr>opClientId = evClientID e, opInput = evInput e, opOutput = evOutput e, opCall = evInvoked e,
                    opReturn = (if \<not> Completed e then final else evReturned e)\<rparr>) es)"

record modelState =
  msValue :: bytes
  msFound :: bool

definition model_Init :: modelState where
  "model_Init = \<lparr>msValue = [], msFound = False\<rparr>"

definition model_Step :: "modelState \<Rightarrow> Input \<Rightarrow> Output \<Rightarrow> bool \<times> modelState" where
  "model_Step st i out =
     (case inOp i of
        OpGet \<Rightarrow> (outFound out = msFound st \<and> (\<not> msFound st \<or> outValue out = msValue st), st)
      | OpPut \<Rightarrow> (True, \<lparr>msValue = inValue i, msFound = True\<rparr>)
      | OpDelete \<Rightarrow> if \<not> outUnknown out \<and> outFound out \<noteq> msFound st then (False, st) else (True, model_Init)
      | OpOther _ \<Rightarrow> (False, st))"

definition model_Equal :: "modelState \<Rightarrow> modelState \<Rightarrow> bool" where
  "model_Equal x y \<longleftrightarrow> msFound x = msFound y \<and> msValue x = msValue y"

text \<open>One partition per key, in the order of the keys; within a partition the order of the history.\<close>

definition group_by_key :: "Operation list \<Rightarrow> (bytes, Operation list) fmap" where
  "group_by_key ops =
     fold (\<lambda>x m. fmupd (inKey (opInput x)) ((case fmlookup m (inKey (opInput x)) of Some xs \<Rightarrow> xs | None \<Rightarrow> []) @ [x]) m) ops fmempty"

definition model_Partition :: "Operation list \<Rightarrow> Operation list list" where
  "model_Partition ops =
     (let byKey = group_by_key ops
      in map (\<lambda>k. the (fmlookup byKey k)) (sorted_list_of_fset (fmdom byKey)))"

definition PartitionByKey :: "Event list \<Rightarrow> (bytes, Event list) fmap" where
  "PartitionByKey es =
     fold (\<lambda>e m. fmupd (inKey (evInput e)) ((case fmlookup m (inKey (evInput e)) of Some xs \<Rightarrow> xs | None \<Rightarrow> []) @ [e]) m) es fmempty"

text \<open>The model handed to the search, and the answer.\<close>

record Model =
  mPartition :: "Operation list \<Rightarrow> Operation list list"
  mInit :: modelState
  mStep :: "modelState \<Rightarrow> Input \<Rightarrow> Output \<Rightarrow> bool \<times> modelState"
  mEqual :: "modelState \<Rightarrow> modelState \<Rightarrow> bool"

definition kvModel :: Model where
  "kvModel = \<lparr>mPartition = model_Partition, mInit = model_Init, mStep = model_Step, mEqual = model_Equal\<rparr>"

datatype CheckResult = CheckUnknown | CheckOk | CheckIllegal

type_synonym 'i search = "Model \<Rightarrow> Operation list \<Rightarrow> int \<Rightarrow> CheckResult \<times> 'i"

record 'i Check_Result =
  rStatus :: CheckResult
  rStats :: Stats
  rTimeout :: int
  rInfo :: 'i

definition result_OK :: "'i Check_Result \<Rightarrow> bool" where
  "result_OK r \<longleftrightarrow> rStatus r = CheckOk"

definition Check :: "'i search \<Rightarrow> History \<Rightarrow> int \<Rightarrow> 'i Check_Result" where
  "Check CheckOperationsVerbose h timeout =
     (let events = Events h;
          ops = toPorcupine events;
          (status, info) = CheckOperationsVerbose kvModel ops timeout
      in \<lparr>rStatus = status, rStats = history_Stats h, rTimeout = timeout, rInfo = info\<rparr>)"

section \<open>Linearizability\<close>

text \<open>
  A list of operations is legal from a state if each is accepted where it stands. It is a linearization
  of a history if it holds the same operations and never puts an operation before one that had returned
  before it was called.
\<close>

fun legal :: "('s \<Rightarrow> 'o \<Rightarrow> bool \<times> 's) \<Rightarrow> 's \<Rightarrow> 'o list \<Rightarrow> bool" where
  "legal step st [] = True"
| "legal step st (x # xs) = (fst (step st x) \<and> legal step (snd (step st x)) xs)"

definition in_time :: "Operation list \<Rightarrow> bool" where
  "in_time = sorted_wrt (\<lambda>x y. \<not> opReturn y < opCall x)"

definition linearizable :: "('s \<Rightarrow> Operation \<Rightarrow> bool \<times> 's) \<Rightarrow> 's \<Rightarrow> Operation list \<Rightarrow> bool" where
  "linearizable step st ops \<longleftrightarrow> (\<exists>xs. mset xs = mset ops \<and> in_time xs \<and> legal step st xs)"

abbreviation op_key :: "Operation \<Rightarrow> bytes" where
  "op_key x \<equiv> inKey (opInput x)"

definition key_step :: "modelState \<Rightarrow> Operation \<Rightarrow> bool \<times> modelState" where
  "key_step st x = model_Step st (opInput x) (opOutput x)"

text \<open>The whole map: every key has its own state.\<close>

definition map_step :: "(bytes \<Rightarrow> modelState) \<Rightarrow> Operation \<Rightarrow> bool \<times> (bytes \<Rightarrow> modelState)" where
  "map_step m x = (fst (key_step (m (op_key x)) x), m(op_key x := snd (key_step (m (op_key x)) x)))"

text \<open>What is relied on of the search: a definite answer is right about every partition.\<close>

definition sound_search :: "'i search \<Rightarrow> Model \<Rightarrow> bool" where
  "sound_search search m \<longleftrightarrow>
     (\<forall>ops timeout.
        let part_ok = (\<lambda>part. linearizable (\<lambda>st x. mStep m st (opInput x) (opOutput x)) (mInit m) part)
        in (fst (search m ops timeout) = CheckOk \<longrightarrow> list_all part_ok (mPartition m ops)) \<and>
           (fst (search m ops timeout) = CheckIllegal \<longrightarrow> \<not> list_all part_ok (mPartition m ops)))"

text \<open>
  Clients at work on one history: time passes, an operation begins, and an operation in flight is
  completed or given up. A handle is shared by reference, so it is updated where it is kept.
\<close>

inductive recorded :: "int \<Rightarrow> Pending list \<Rightarrow> History \<Rightarrow> bool" where
  recorded_new: "recorded 0 [] NewHistory"
| recorded_tick: "recorded t ps h \<Longrightarrow> t \<le> t' \<Longrightarrow> recorded t' ps h"
| recorded_begin: "recorded t ps h \<Longrightarrow> Begin t c i h = (p, h') \<Longrightarrow> recorded t (ps @ [p]) h'"
| recorded_complete: "recorded t ps h \<Longrightarrow> j < length ps \<Longrightarrow> Complete t out (ps ! j) h = (p, h') \<Longrightarrow> recorded t (ps[j := p]) h'"
| recorded_unknown: "recorded t ps h \<Longrightarrow> j < length ps \<Longrightarrow> Unknown (ps ! j) h = (p, h') \<Longrightarrow> recorded t (ps[j := p]) h'"

section \<open>Sorting\<close>

lemma sift_event_insert:
  "sorted (map evInvoked ys) \<Longrightarrow>
   sift_event (length ys) (ys @ x # zs) =
     takeWhile (\<lambda>y. evInvoked y \<le> evInvoked x) ys @ x # dropWhile (\<lambda>y. evInvoked y \<le> evInvoked x) ys @ zs"
proof (induction ys arbitrary: zs rule: rev_induct)
  case Nil
  then show ?case by simp
next
  case (snoc y ys)
  have sorted: "sorted (map evInvoked ys)" and below: "\<forall>w \<in> set ys. evInvoked w \<le> evInvoked y"
    using snoc.prems by (auto simp: sorted_append)
  show ?case
  proof (cases "evInvoked x < evInvoked y")
    case True
    then show ?thesis
      using snoc.IH [OF sorted, of "y # zs"] by (simp add: nth_append list_update_append takeWhile_tail dropWhile_append3)
  next
    case False
    then have "\<forall>w \<in> set (ys @ [y]). evInvoked w \<le> evInvoked x" using below by auto
    then show ?thesis using False by (simp add: nth_append)
  qed
qed

lemma insert_event_sort:
  assumes sorted: "sorted (map evInvoked ys)"
  shows "takeWhile (\<lambda>y. evInvoked y \<le> evInvoked x) ys @ x # dropWhile (\<lambda>y. evInvoked y \<le> evInvoked x) ys
         = sort_key evInvoked (ys @ [x])"
proof -
  define us vs where "us = takeWhile (\<lambda>y. evInvoked y \<le> evInvoked x) ys" and "vs = dropWhile (\<lambda>y. evInvoked y \<le> evInvoked x) ys"
  have ys: "ys = us @ vs" by (simp add: us_def vs_def)
  have front: "\<forall>w \<in> set us. evInvoked w \<le> evInvoked x" by (auto simp: us_def dest: set_takeWhileD)
  have sorted_us: "sorted (map evInvoked us)" and sorted_vs: "sorted (map evInvoked vs)"
    using sorted by (simp_all add: ys sorted_append)
  have behind: "\<forall>w \<in> set vs. evInvoked x < evInvoked w"
  proof (cases vs)
    case (Cons d ds)
    then have "\<not> evInvoked d \<le> evInvoked x" unfolding vs_def by (simp add: dropWhile_eq_Cons_conv)
    then show ?thesis using sorted_vs Cons by auto
  qed simp
  have "sort_key evInvoked (ys @ [x]) = us @ x # vs"
  proof (rule properties_for_sort_key)
    show "mset (us @ x # vs) = mset (ys @ [x])" by (simp add: ys)
    have "filter (\<lambda>y. evInvoked x = evInvoked y) vs = []" using behind by (auto simp: filter_empty_conv)
    then show "filter (\<lambda>y. evInvoked k = evInvoked y) (us @ x # vs) = filter (\<lambda>y. evInvoked k = evInvoked y) (ys @ [x])" for k
      by (simp add: ys)
    show "sorted (map evInvoked (us @ x # vs))"
      using front behind sorted_us sorted_vs by (fastforce simp: sorted_append)
  qed
  then show ?thesis by (simp add: us_def vs_def)
qed

lemma stable_sort_again: "sort_key f (sort_key f xs @ ys) = sort_key f (xs @ ys)"
proof (rule properties_for_sort_key [symmetric])
  show "filter (\<lambda>x. f k = f x) (sort_key f (sort_key f xs @ ys)) = filter (\<lambda>x. f k = f x) (xs @ ys)" for k
    using sort_key_stable [of f "f k"] by (simp add: eq_commute [of "f k"])
qed simp_all

lemma sort_events_prefix:
  assumes "n \<le> length es" "0 < n"
  shows "fold sift_event [1 ..< n] es = sort_key evInvoked (take n es) @ drop n es"
  using assms(2,1)
proof (induction n rule: nat_induct_non_zero)
  case 1
  then show ?case by (cases es) simp_all
next
  case (Suc n)
  let ?ys = "sort_key evInvoked (take n es)"
  have len: "length ?ys = n" using Suc.prems by simp
  have "fold sift_event [1 ..< Suc n] es = sift_event n (?ys @ es ! n # drop (Suc n) es)"
    using Suc by (simp add: Cons_nth_drop_Suc)
  also have "\<dots> = sort_key evInvoked (?ys @ [es ! n]) @ drop (Suc n) es"
    using sift_event_insert [of ?ys "es ! n" "drop (Suc n) es"] insert_event_sort [of ?ys "es ! n"] len by simp
  also have "sort_key evInvoked (?ys @ [es ! n]) = sort_key evInvoked (take (Suc n) es)"
    using stable_sort_again [of evInvoked "take n es" "[es ! n]"] Suc.prems by (simp add: take_Suc_conv_app_nth)
  finally show ?case .
qed

lemma sortByInvocation_sort: "sortByInvocation es = sort_key evInvoked es"
  using sort_events_prefix [of "length es" es] by (cases es) (simp_all add: sortByInvocation_def)

lemma mset_Events [simp]: "mset (Events h) = mset (hEvents h)"
  by (simp add: Events_def sortByInvocation_sort)

lemma set_Events [simp]: "set (Events h) = set (hEvents h)"
  by (simp add: Events_def sortByInvocation_sort)

section \<open>Keys are independent\<close>

text \<open>
  A sequence of operations is legal for the whole map exactly if what it does to each key is legal for
  that key.
\<close>

abbreviation of_key :: "bytes \<Rightarrow> Operation list \<Rightarrow> Operation list" where
  "of_key k \<equiv> filter (\<lambda>x. op_key x = k)"

lemma legal_map_step: "legal map_step m xs \<longleftrightarrow> (\<forall>k. legal key_step (m k) (of_key k xs))"
proof (induction xs arbitrary: m)
  case Nil
  then show ?case by simp
next
  case (Cons x xs)
  let ?k = "op_key x"
  have "legal map_step m (x # xs) \<longleftrightarrow>
        fst (key_step (m ?k) x) \<and> (\<forall>k. legal key_step ((m(?k := snd (key_step (m ?k) x))) k) (of_key k xs))"
    by (simp add: map_step_def Cons.IH)
  also have "\<dots> \<longleftrightarrow> (\<forall>k. legal key_step (m k) (of_key k (x # xs)))"
    by (auto split: if_splits)
  finally show ?case .
qed

text \<open>
  Linearizations of the single keys can be merged. The operation that returns first of all belongs to
  some key; whatever stands first in the linearization of that key was called before then, so nothing
  had returned before it was called, and it may stand first in the merged list.
\<close>

lemma first_operation:
  assumes proper: "\<forall>x \<in> set ops. opCall x \<le> opReturn x" and "ops \<noteq> []"
    and f: "\<forall>k. in_time (f k) \<and> mset (f k) = mset (of_key k ops)"
  obtains k h t where "f k = h # t" "h \<in> set ops" "op_key h = k" "\<forall>y \<in> set ops. opCall h \<le> opReturn y"
proof -
  obtain b where b: "b \<in> set ops" "\<forall>y \<in> set ops. opReturn b \<le> opReturn y"
    using \<open>ops \<noteq> []\<close> ex_min_if_finite [of "opReturn ` set ops"] by fastforce
  have same: "set (f k) = set (of_key k ops)" for k using f by (metis set_mset_mset)
  then have "b \<in> set (f (op_key b))" using b(1) by simp
  then obtain h t where ht: "f (op_key b) = h # t" by (cases "f (op_key b)") auto
  then have "b = h \<or> b \<in> set t" using \<open>b \<in> set (f (op_key b))\<close> by simp
  moreover have "in_time (h # t)" using f ht by metis
  moreover have h: "h \<in> set ops" "op_key h = op_key b" using same [of "op_key b"] ht by auto
  ultimately have "opCall h \<le> opReturn b" using proper by (auto simp: in_time_def)
  then show thesis using that [OF ht h] b(2) by fastforce
qed

lemma merge_keys:
  assumes "\<forall>x \<in> set ops. opCall x \<le> opReturn x"
    and "\<forall>k. in_time (f k) \<and> mset (f k) = mset (of_key k ops)"
  shows "\<exists>xs. mset xs = mset ops \<and> in_time xs \<and> (\<forall>k. of_key k xs = f k)"
  using assms
proof (induction "length ops" arbitrary: ops f)
  case 0
  then show ?case by (intro exI [of _ "[]"]) (simp add: in_time_def)
next
  case (Suc n)
  then have "ops \<noteq> []" by auto
  then obtain k h t where h: "f k = h # t" "h \<in> set ops" "op_key h = k" "\<forall>y \<in> set ops. opCall h \<le> opReturn y"
    using first_operation [of ops f] Suc.prems by blast
  let ?ops = "remove1 h ops" and ?f = "f(k := t)"
  have "in_time (?f j) \<and> mset (?f j) = mset (of_key j ?ops)" for j
    using spec [OF Suc.prems(2), of j] h by (auto simp: in_time_def filter_remove1 remove1_idem) (metis add_mset_remove_trivial)
  then have parts: "\<forall>j. in_time (?f j) \<and> mset (?f j) = mset (of_key j ?ops)" by blast
  have "n = length ?ops" using Suc.hyps(2) h(2) by (simp add: length_remove1)
  moreover have "\<forall>x \<in> set ?ops. opCall x \<le> opReturn x" using Suc.prems(1) by (meson notin_set_remove1)
  ultimately obtain xs where xs: "mset xs = mset ?ops" "in_time xs" "\<forall>j. of_key j xs = ?f j"
    using Suc.hyps(1) [of ?ops ?f] parts by blast
  have "set xs \<subseteq> set ops" using xs(1) by (metis set_mset_mset set_remove1_subset)
  then show ?case
    using xs h by (intro exI [of _ "h # xs"]) (auto simp: in_time_def not_less)
qed

lemma linearizable_by_key:
  assumes "\<forall>x \<in> set ops. opCall x \<le> opReturn x"
  shows "linearizable map_step m ops \<longleftrightarrow> (\<forall>k. linearizable key_step (m k) (of_key k ops))"
proof
  assume "linearizable map_step m ops"
  then obtain xs where xs: "mset xs = mset ops" "in_time xs" "legal map_step m xs"
    by (auto simp: linearizable_def)
  show "\<forall>k. linearizable key_step (m k) (of_key k ops)"
  proof
    fix k
    have "mset (of_key k xs) = mset (of_key k ops)" using xs(1) by simp
    moreover have "in_time (of_key k xs)" using xs(2) by (simp add: in_time_def sorted_wrt_filter)
    moreover have "legal key_step (m k) (of_key k xs)" using xs(3) by (simp add: legal_map_step)
    ultimately show "linearizable key_step (m k) (of_key k ops)" unfolding linearizable_def by blast
  qed
next
  assume "\<forall>k. linearizable key_step (m k) (of_key k ops)"
  then obtain f where f: "\<forall>k. mset (f k) = mset (of_key k ops) \<and> in_time (f k) \<and> legal key_step (m k) (f k)"
    unfolding linearizable_def by metis
  then obtain xs where "mset xs = mset ops" "in_time xs" "\<forall>k. of_key k xs = f k"
    using merge_keys [OF assms, of f] by blast
  then show "linearizable map_step m ops"
    using f unfolding linearizable_def by (intro exI [of _ xs]) (simp add: legal_map_step)
qed

section \<open>Partitions\<close>

lemma fold_group_by_key:
  "fmlookup (fold (\<lambda>x m. fmupd (g x) ((case fmlookup m (g x) of Some xs \<Rightarrow> xs | None \<Rightarrow> []) @ [x]) m) ops m) k =
     (if filter (\<lambda>x. g x = k) ops = [] then fmlookup m k
      else Some ((case fmlookup m k of Some xs \<Rightarrow> xs | None \<Rightarrow> []) @ filter (\<lambda>x. g x = k) ops))"
  by (induction ops arbitrary: m) (auto split: option.splits)

lemma group_by_key_lookup:
  "fmlookup (group_by_key ops) k = (if of_key k ops = [] then None else Some (of_key k ops))"
  by (simp add: group_by_key_def fold_group_by_key)

lemma PartitionByKey_lookup:
  "fmlookup (PartitionByKey es) k =
     (if filter (\<lambda>e. inKey (evInput e) = k) es = [] then None else Some (filter (\<lambda>e. inKey (evInput e) = k) es))"
  by (simp add: PartitionByKey_def fold_group_by_key)

lemma set_model_Partition: "set (model_Partition ops) = {of_key k ops |k. of_key k ops \<noteq> []}"
proof -
  have "set (model_Partition ops) = (\<lambda>k. the (fmlookup (group_by_key ops) k)) ` {k. of_key k ops \<noteq> []}"
    by (auto simp: model_Partition_def group_by_key_lookup fmlookup_dom_iff split: if_splits
        intro!: rev_image_eqI)
  then show ?thesis by (auto simp: group_by_key_lookup)
qed

lemma all_partitions:
  assumes "P []"
  shows "list_all P (model_Partition ops) \<longleftrightarrow> (\<forall>k. P (of_key k ops))"
  using assms by (auto simp: list_all_iff set_model_Partition) (metis (mono_tags, lifting))

lemma linearizable_Nil [simp]: "linearizable step st []"
  by (simp add: linearizable_def in_time_def)

lemma kvModel_parts:
  "list_all (\<lambda>part. linearizable (\<lambda>st x. mStep kvModel st (opInput x) (opOutput x)) (mInit kvModel) part) (mPartition kvModel ops)
   \<longleftrightarrow> (\<forall>k. linearizable key_step model_Init (of_key k ops))"
proof -
  have "(\<lambda>st x. mStep kvModel st (opInput x) (opOutput x)) = key_step"
    by (simp add: kvModel_def key_step_def fun_eq_iff)
  then show ?thesis
    using all_partitions [of "linearizable key_step model_Init"] by (simp add: kvModel_def)
qed

section \<open>Recorded histories\<close>

lemma last_moment_fold:
  "let r = fold (\<lambda>e end. let end = (if evReturned e > end then evReturned e else end)
                  in if evInvoked e > end then evInvoked e else end) es b
   in b \<le> r \<and> (\<forall>e \<in> set es. evReturned e \<le> r \<and> evInvoked e \<le> r)"
proof (induction es arbitrary: b)
  case Nil
  then show ?case by simp
next
  case (Cons e es)
  let ?b = "let end = (if evReturned e > b then evReturned e else b) in if evInvoked e > end then evInvoked e else end"
  have "b \<le> ?b" "evReturned e \<le> ?b" "evInvoked e \<le> ?b" by (simp_all add: Let_def)
  then show ?case using Cons [of ?b] by (auto simp: Let_def)
qed

lemma last_moment_bound:
  "e \<in> set es \<Longrightarrow> evReturned e \<le> last_moment es" "e \<in> set es \<Longrightarrow> evInvoked e \<le> last_moment es"
  using last_moment_fold [of es 0] by (simp_all add: last_moment_def Let_def)

definition history_ok :: "int \<Rightarrow> Pending list \<Rightarrow> History \<Rightarrow> bool" where
  "history_ok t ps h \<longleftrightarrow>
     (\<forall>p \<in> set ps. pnInvoked p \<le> t \<and> pnID p < hNextID h) \<and> distinct (map pnID ps) \<and>
     (\<forall>e \<in> set (hEvents h). Completed e \<longrightarrow> evInvoked e \<le> evReturned e) \<and>
     (\<forall>e \<in> set (hEvents h). \<exists>p \<in> set ps. pnDone p \<and> pnID p = evID e) \<and> distinct (map evID (hEvents h))"

lemma record_event:
  assumes ok: "history_ok t ps h" and j: "j < length ps" "\<not> pnDone (ps ! j)"
    and e: "evID e = pnID (ps ! j)" "Completed e \<longrightarrow> evInvoked e \<le> evReturned e"
  shows "history_ok t (ps[j := (ps ! j)\<lparr>pnDone := True\<rparr>]) (h\<lparr>hEvents := hEvents h @ [e]\<rparr>)"
proof -
  let ?ps = "ps[j := (ps ! j)\<lparr>pnDone := True\<rparr>]"
  have ids: "map pnID ?ps = map pnID ps" using j(1) by (simp add: map_update list_update_same_conv)
  have settled: "\<exists>q \<in> set ?ps. pnDone q \<and> pnID q = i" if p: "p \<in> set ps" "pnDone p" "pnID p = i" for p i
  proof -
    obtain k where k: "k < length ps" "ps ! k = p" using p(1) by (auto simp: in_set_conv_nth)
    then have "k \<noteq> j" using j p(2) by auto
    then have "?ps ! k = p" using k by simp
    then show ?thesis using k p by (metis length_list_update nth_mem)
  qed
  have new: "\<exists>q \<in> set ?ps. pnDone q \<and> pnID q = evID e"
    by (rule bexI [of _ "(ps ! j)\<lparr>pnDone := True\<rparr>"]) (simp_all add: e(1) set_update_memI j(1))
  have fresh: "evID e \<notin> evID ` set (hEvents h)"
  proof
    assume "evID e \<in> evID ` set (hEvents h)"
    then obtain p where p: "p \<in> set ps" "pnDone p" "pnID p = pnID (ps ! j)"
      using ok e(1) unfolding history_ok_def by fastforce
    obtain k where k: "k < length ps" "ps ! k = p" using p(1) by (auto simp: in_set_conv_nth)
    moreover have "distinct (map pnID ps)" using ok by (simp add: history_ok_def)
    ultimately have "k = j" using p(3) j(1) by (metis length_map nth_eq_iff_index_eq nth_map)
    then show False using k p(2) j(2) by simp
  qed
  have "\<forall>q \<in> set ?ps. pnInvoked q \<le> t \<and> pnID q < hNextID h"
    using ok j(1) set_update_subset_insert [of ps j] unfolding history_ok_def by fastforce
  then show ?thesis
    using ok ids settled new fresh e(2) unfolding history_ok_def by (auto 0 3)
qed

lemma recorded_ok: "recorded t ps h \<Longrightarrow> history_ok t ps h"
proof (induction rule: recorded.induct)
  case recorded_new
  then show ?case by (simp add: history_ok_def NewHistory_def)
next
  case (recorded_tick t ps h t')
  then show ?case unfolding history_ok_def by fastforce
next
  case (recorded_begin t ps h c i p h')
  then show ?case by (auto simp: history_ok_def Begin_def)
next
  case (recorded_complete t ps h j out p h')
  have "pnInvoked (ps ! j) \<le> t" using recorded_complete by (simp add: history_ok_def)
  then show ?case
    using recorded_complete record_event [of t ps h j "\<lparr>evClientID = pnClientID (ps ! j), evID = pnID (ps ! j),
      evInput = pnInput (ps ! j), evOutput = out, evInvoked = pnInvoked (ps ! j), evReturned = t\<rparr>"]
    by (auto simp: Complete_def split: if_splits)
next
  case (recorded_unknown t ps h j p h')
  then show ?case
    using record_event [of t ps h j "\<lparr>evClientID = pnClientID (ps ! j), evID = pnID (ps ! j),
      evInput = pnInput (ps ! j), evOutput = zeroOutput\<lparr>outUnknown := True\<rparr>, evInvoked = pnInvoked (ps ! j), evReturned = 0\<rparr>"]
    by (auto simp: Unknown_def Completed_def split: if_splits)
qed

lemma settle_recorded:
  assumes "recorded t (ps @ [p]) h"
  shows "\<exists>ps'. recorded t ps' (snd (settle t out answer p h))"
  using assms recorded_complete [OF assms, of "length ps"] recorded_unknown [OF assms, of "length ps"]
  by (cases answer) (simp_all add: settle_def, (metis prod.collapse)+)

lemma workload_step_recorded:
  assumes "recorded t ps h" "t \<le> began" "began \<le> ended"
  shows "\<exists>ps'. recorded ended ps' (snd (workload_step cl c i began ended h))"
proof -
  obtain p h' where b: "Begin began c i h = (p, h')" by (cases "Begin began c i h")
  then have start: "recorded ended (ps @ [p]) h'"
    using assms by (blast intro: recorded.intros)
  then show ?thesis using b by (auto simp: workload_step_def settle_recorded [OF start] split: OpKind.splits)
qed

definition to_operation :: "int \<Rightarrow> Event \<Rightarrow> Operation" where
  "to_operation final e =
     \<lparr>opClientId = evClientID e, opInput = evInput e, opOutput = evOutput e, opCall = evInvoked e,
      opReturn = (if \<not> Completed e then final else evReturned e)\<rparr>"

lemma toPorcupine_map: "toPorcupine es = map (to_operation (last_moment es + 1)) es"
  by (simp add: toPorcupine_def Let_def to_operation_def [abs_def])

lemma recorded_proper:
  assumes "recorded t ps h"
  shows "\<forall>x \<in> set (toPorcupine (Events h)). opCall x \<le> opReturn x"
  using recorded_ok [OF assms] last_moment_bound(2) [of _ "Events h"]
  by (fastforce simp: toPorcupine_map to_operation_def history_ok_def)

section \<open>An operation that was given up\<close>

lemma last_moment_least:
  assumes "0 \<le> b" "\<forall>e \<in> set es. evReturned e \<le> b \<and> evInvoked e \<le> b"
  shows "last_moment es \<le> b"
proof -
  have "fold (\<lambda>e end. let end = (if evReturned e > end then evReturned e else end)
                  in if evInvoked e > end then evInvoked e else end) es a \<le> b" if "a \<le> b" for a
    using assms(2) that by (induction es arbitrary: a) (simp_all add: Let_def)
  then show ?thesis using assms(1) by (simp add: last_moment_def)
qed

lemma last_moment_nonneg: "0 \<le> last_moment es"
  using last_moment_fold [of es 0] by (simp add: last_moment_def Let_def)

lemma permuted_map:
  "mset xs = mset (map g es) \<Longrightarrow> \<exists>es'. mset es' = mset es \<and> xs = map g es'"
proof (induction xs arbitrary: es)
  case (Cons x xs)
  then have "x \<in> set (map g es)" by (metis list.set_intros(1) set_mset_mset)
  then obtain e where e: "e \<in> set es" "g e = x" by auto
  then have "mset xs = mset (map g (remove1 e es))"
    using Cons.prems by (simp add: image_mset_Diff) (metis add_mset_remove_trivial)
  then obtain es' where "mset es' = mset (remove1 e es)" "xs = map g es'" using Cons.IH by blast
  then show ?case using e by (intro exI [of _ "e # es'"]) simp
qed simp

lemma legal_to_operation:
  "legal map_step m (map (to_operation a) es) = legal map_step m (map (to_operation b) es)"
  by (induction es arbitrary: m) (simp_all add: map_step_def key_step_def to_operation_def)

lemma legal_snoc: "(\<And>st. fst (step st x)) \<Longrightarrow> legal step st (xs @ [x]) = legal step st xs"
  by (induction xs arbitrary: st) simp_all

lemma in_time_later:
  assumes "in_time (map (to_operation a) es)" "a \<le> b"
  shows "in_time (map (to_operation b) es)"
  using assms by (auto simp: in_time_def sorted_wrt_map to_operation_def elim!: sorted_wrt_mono_rel [rotated])

section \<open>A search\<close>

text \<open>
  The search in its plainest form: some operation that nothing preceded is tried first, and the rest is
  searched from the state it leaves.
\<close>

function lin_search :: "('s \<Rightarrow> Operation \<Rightarrow> bool \<times> 's) \<Rightarrow> 's \<Rightarrow> Operation list \<Rightarrow> bool" where
  "lin_search step st ops \<longleftrightarrow>
     ops = [] \<or>
     (\<exists>x \<in> set ops. (\<forall>y \<in> set (remove1 x ops). \<not> opReturn y < opCall x) \<and>
                  fst (step st x) \<and> lin_search step (snd (step st x)) (remove1 x ops))"
  by pat_completeness auto

termination lin_search
  by (relation "measure (\<lambda>(step, st, ops). length ops)") (auto simp: length_remove1 dest: length_pos_if_in_set)

declare lin_search.simps [simp del]

lemma lin_search_linearizable: "lin_search step st ops = linearizable step st ops"
proof (induction step st ops rule: lin_search.induct)
  case (1 step st ops)
  show ?case
  proof
    assume "lin_search step st ops"
    then consider "ops = []"
      | x where "x \<in> set ops" "\<forall>y \<in> set (remove1 x ops). \<not> opReturn y < opCall x" "fst (step st x)"
          "linearizable step (snd (step st x)) (remove1 x ops)"
      using 1 by (subst (asm) lin_search.simps) blast
    then show "linearizable step st ops"
    proof cases
      case 1
      then show ?thesis by simp
    next
      case (2 x)
      then obtain xs where xs: "mset xs = mset (remove1 x ops)" "in_time xs" "legal step (snd (step st x)) xs"
        unfolding linearizable_def by blast
      then have "set xs = set (remove1 x ops)" by (metis set_mset_mset)
      then show ?thesis
        unfolding linearizable_def using 2 xs by (intro exI [of _ "x # xs"]) (simp add: in_time_def)
    qed
  next
    assume "linearizable step st ops"
    then obtain xs where xs: "mset xs = mset ops" "in_time xs" "legal step st xs"
      unfolding linearizable_def by blast
    show "lin_search step st ops"
    proof (cases xs)
      case Nil
      then show ?thesis using xs(1) by (subst lin_search.simps) simp
    next
      case (Cons x ys)
      then have x: "x \<in> set ops" and ys: "mset ys = mset (remove1 x ops)"
        using xs(1) by (metis list.set_intros(1) set_mset_mset, metis mset_remove1 mset.simps(2) add_mset_remove_trivial)
      have "set ys = set (remove1 x ops)" using ys by (metis set_mset_mset)
      moreover have "linearizable step (snd (step st x)) (remove1 x ops)"
        using xs ys Cons unfolding linearizable_def by (auto simp: in_time_def)
      ultimately show ?thesis
        using 1 [OF x] xs x Cons by (subst lin_search.simps) (auto simp: in_time_def)
    qed
  qed
qed

definition search_all :: "unit search" where
  "search_all m ops timeout =
     (if list_all (lin_search (\<lambda>st x. mStep m st (opInput x) (opOutput x)) (mInit m)) (mPartition m ops)
      then CheckOk else CheckIllegal, ())"

lemma search_all_sound: "sound_search search_all m"
  by (simp add: sound_search_def search_all_def lin_search_linearizable [abs_def])

section \<open>Properties\<close>

text \<open>C36. The verdict is about the whole store. The search only ever looks at the operations on one key and
  judges them by the model of one key. Still, for every history clients can record, if \<open>Check\<close> says the
  history is linearizable then all its operations together, on all keys, can be put in one order that
  respects real time and that a single map executing them one at a time would answer as the clients were
  answered; and if it says the history is illegal, there is no such order.\<close>

theorem Check_decides_whole_map:
  assumes "recorded t ps h" "sound_search search kvModel"
  shows "(result_OK (Check search h timeout) \<longrightarrow> linearizable map_step (\<lambda>_. model_Init) (toPorcupine (Events h))) \<and>
         (rStatus (Check search h timeout) = CheckIllegal \<longrightarrow> \<not> linearizable map_step (\<lambda>_. model_Init) (toPorcupine (Events h)))"
proof -
  let ?ops = "toPorcupine (Events h)"
  have "rStatus (Check search h timeout) = fst (search kvModel ?ops timeout)"
    by (simp add: Check_def Let_def split: prod.splits)
  moreover have "linearizable map_step (\<lambda>_. model_Init) ?ops \<longleftrightarrow> (\<forall>k. linearizable key_step model_Init (of_key k ?ops))"
    by (rule linearizable_by_key [OF recorded_proper [OF assms(1)]])
  ultimately show ?thesis
    using assms(2) unfolding sound_search_def Let_def kvModel_parts result_OK_def by metis
qed

text \<open>Two clients: one puts a key while the other deletes it, then both are read.\<close>

definition demo_input :: "OpKind \<Rightarrow> nat \<Rightarrow> Input" where
  "demo_input kind k = \<lparr>inOp = kind, inKey = [of_nat k], inValue = [7]\<rparr>"

definition demo_found :: "nat \<Rightarrow> Output" where
  "demo_found v = \<lparr>outValue = [of_nat v], outFound = True, outUnknown = False\<rparr>"

definition demo_history :: History where
  "demo_history =
     (let (p, h) = Begin 1 0 (demo_input OpPut 1) NewHistory;
          (q, h) = Begin 2 1 (demo_input OpPut 2) h;
          (p, h) = Complete 3 zeroOutput p h;
          (r, h) = Begin 4 0 (demo_input OpGet 1) h;
          (r, h) = Complete 5 (demo_found 7) r h;
          (s, h) = Begin 6 0 (demo_input OpGet 2) h;
          (s, h) = Complete 7 zeroOutput s h;
          (q, h) = Unknown q h
      in h)"

lemma recorded_begin_at:
  "recorded t ps h \<Longrightarrow> t \<le> t' \<Longrightarrow> recorded t' (ps @ [fst (Begin t' c i h)]) (snd (Begin t' c i h))"
  by (rule recorded_begin [OF recorded_tick]) simp_all

lemma recorded_complete_at:
  "recorded t ps h \<Longrightarrow> t \<le> t' \<Longrightarrow> j < length ps \<Longrightarrow>
   recorded t' (ps[j := fst (Complete t' out (ps ! j) h)]) (snd (Complete t' out (ps ! j) h))"
  by (rule recorded_complete [OF recorded_tick]) simp_all

lemma recorded_unknown_at:
  "recorded t ps h \<Longrightarrow> j < length ps \<Longrightarrow> recorded t (ps[j := fst (Unknown (ps ! j) h)]) (snd (Unknown (ps ! j) h))"
  by (rule recorded_unknown) simp_all

lemma demo_recorded: "\<exists>ps. recorded 7 ps demo_history"
proof -
  note calls = NewHistory_def Begin_def Complete_def Unknown_def
  note r1 = recorded_begin_at [OF recorded_new, of 1 0 "demo_input OpPut 1", simplified calls, simplified]
  note r2 = recorded_begin_at [OF r1, of 2 1 "demo_input OpPut 2", simplified calls, simplified]
  note r3 = recorded_complete_at [OF r2, of 3 0 zeroOutput, simplified calls, simplified]
  note r4 = recorded_begin_at [OF r3, of 4 0 "demo_input OpGet 1", simplified calls, simplified]
  note r5 = recorded_complete_at [OF r4, of 5 2 "demo_found 7", simplified calls, simplified]
  note r6 = recorded_begin_at [OF r5, of 6 0 "demo_input OpGet 2", simplified calls, simplified]
  note r7 = recorded_complete_at [OF r6, of 7 3 zeroOutput, simplified calls, simplified]
  note r8 = recorded_unknown_at [OF r7, of 1, simplified calls, simplified]
  show ?thesis unfolding demo_history_def by (simp add: calls) (rule exI, rule r8)
qed

theorem Check_decides_whole_map_witness:
  "result_OK (Check search_all demo_history 10) \<and>
   linearizable map_step (\<lambda>_. model_Init) (toPorcupine (Events demo_history))"
proof -
  have "result_OK (Check search_all demo_history 10)" by code_simp
  then show ?thesis
    using demo_recorded Check_decides_whole_map [OF _ search_all_sound, of 7 _ demo_history 10] by blast
qed

text \<open>C37. A write whose outcome the client never learned is never the reason for a violation. If a history
  is linearizable, then it still is with a put or a delete added that was begun and given up: the write can
  always be taken to have happened after everything else, whatever it found there.\<close>

theorem unknown_write_is_harmless:
  assumes lin: "linearizable map_step (\<lambda>_. model_Init) (toPorcupine (Events h))"
    and "\<not> pnDone p" and "inOp (pnInput p) = OpPut \<or> inOp (pnInput p) = OpDelete"
  shows "linearizable map_step (\<lambda>_. model_Init) (toPorcupine (Events (snd (Unknown p h))))"
proof -
  let ?h = "snd (Unknown p h)"
  define e where "e = \<lparr>evClientID = pnClientID p, evID = pnID p, evInput = pnInput p,
     evOutput = zeroOutput\<lparr>outUnknown := True\<rparr>, evInvoked = pnInvoked p, evReturned = 0\<rparr>"
  have new: "hEvents ?h = hEvents h @ [e]" using assms(2) by (simp add: Unknown_def e_def)
  let ?a = "last_moment (Events h) + 1" and ?b = "last_moment (Events ?h) + 1"
  have later: "?a \<le> ?b"
    using last_moment_least [of "last_moment (Events ?h)" "Events h"] last_moment_nonneg
      last_moment_bound [of _ "Events ?h"] new by simp
  obtain es where es: "mset es = mset (Events h)" "in_time (map (to_operation ?a) es)"
      "legal map_step (\<lambda>_. model_Init) (map (to_operation ?a) es)"
    using lin permuted_map [of _ "to_operation ?a" "Events h"] unfolding linearizable_def toPorcupine_map by metis
  have "set es = set (hEvents h)" using es(1) by (metis mset_Events set_mset_mset)
  then have "\<forall>w \<in> set es. evInvoked w \<le> last_moment (Events ?h)" using last_moment_bound(2) [of _ "Events ?h"] new by simp
  then have "in_time (map (to_operation ?b) es @ [to_operation ?b e])"
    using in_time_later [OF es(2) later]
    by (fastforce simp: in_time_def sorted_wrt_append to_operation_def Completed_def e_def)
  moreover have "fst (map_step m (to_operation ?b e))" for m
    using assms(3) by (auto simp: map_step_def key_step_def model_Step_def to_operation_def e_def)
  then have "legal map_step (\<lambda>_. model_Init) (map (to_operation ?b) es @ [to_operation ?b e])"
    using legal_snoc [of map_step] es(3) legal_to_operation [of _ ?a es ?b] by simp
  moreover have "mset (map (to_operation ?b) es @ [to_operation ?b e]) = mset (toPorcupine (Events ?h))"
    using es(1) new by (simp add: toPorcupine_map)
  ultimately show ?thesis unfolding linearizable_def by blast
qed

theorem unknown_write_is_harmless_witness:
  "linearizable map_step (\<lambda>_. model_Init)
     (toPorcupine (Events (snd (Unknown (fst (Begin 1 0 (demo_input OpDelete 1) NewHistory)) NewHistory))))"
  by (rule unknown_write_is_harmless)
    (simp_all add: Events_def NewHistory_def sortByInvocation_def toPorcupine_def Begin_def demo_input_def)

text \<open>C38. A read whose answer was lost is judged as if it had been answered. A put completes, and afterwards a
  get of the same key is begun and given up, as the workload does for every failed call. The history up to
  the get is linearizable and the get told its client nothing, but the model compares the empty output
  recorded for it with the value that is there: the check can never accept the history.\<close>

theorem unknown_read_is_rejected:
  assumes "sound_search search kvModel" "0 < t2" "t1 \<le> t2" "t2 < t3"
    and put: "Begin t1 c1 \<lparr>inOp = OpPut, inKey = k, inValue = v\<rparr> NewHistory = (p, h1)" "Complete t2 out p h1 = (p', h2)"
    and get: "Begin t3 c2 \<lparr>inOp = OpGet, inKey = k, inValue = []\<rparr> h2 = (g, h3)" "Unknown g h3 = (g', h4)"
    and answered: "\<not> outUnknown out"
  shows "linearizable map_step (\<lambda>_. model_Init) (toPorcupine (Events h2)) \<and> \<not> result_OK (Check search h4 timeout)"
proof -
  define put where "put = \<lparr>evClientID = c1, evID = 0, evInput = \<lparr>inOp = OpPut, inKey = k, inValue = v\<rparr>, evOutput = out,
     evInvoked = t1, evReturned = t2\<rparr>"
  define get where "get = \<lparr>evClientID = c2, evID = 1, evInput = \<lparr>inOp = OpGet, inKey = k, inValue = []\<rparr>,
     evOutput = zeroOutput\<lparr>outUnknown := True\<rparr>, evInvoked = t3, evReturned = 0\<rparr>"
  have "hEvents h2 = [put]" "hEvents h4 = [put, get]"
    using assms(5-8) by (auto simp: Begin_def Complete_def Unknown_def NewHistory_def put_def get_def)
  then have events: "Events h2 = [put]" "Events h4 = [put, get]"
    using assms(3,4) by (auto simp: Events_def sortByInvocation_sort put_def get_def)
  let ?x = "\<lambda>n. to_operation n put" and ?y = "\<lambda>n. to_operation n get"
  have before: "opReturn (?x n) < opCall (?y n)" for n
    using assms(2,4) answered by (simp add: to_operation_def Completed_def put_def get_def)
  have accept: "fst (key_step st (?x n))" "snd (key_step st (?x n)) = \<lparr>msValue = v, msFound = True\<rparr>" for st n
    by (simp_all add: key_step_def model_Step_def to_operation_def put_def)
  have reject: "\<not> fst (key_step \<lparr>msValue = v, msFound = True\<rparr> (?y n))" for n
    by (simp add: key_step_def model_Step_def to_operation_def get_def zeroOutput_def)
  have differ: "?x n \<noteq> ?y n" for n by (simp add: to_operation_def put_def get_def)
  have keys: "op_key (?x n) = k" "op_key (?y n) = k" for n by (simp_all add: to_operation_def put_def get_def)
  have alone: "\<not> lin_search key_step \<lparr>msValue = v, msFound = True\<rparr> [?y n]" for n
    by (subst lin_search.simps) (simp add: reject)
  have "\<not> lin_search key_step model_Init [?x n, ?y n]" for n
    by (subst lin_search.simps) (simp add: before accept alone differ [of n, symmetric])
  then have "\<not> linearizable key_step model_Init (of_key k (toPorcupine (Events h4)))"
    by (simp add: events toPorcupine_map lin_search_linearizable keys)
  then have "\<not> result_OK (Check search h4 timeout)"
    using assms(1) unfolding sound_search_def Let_def kvModel_parts result_OK_def
    by (auto simp: Check_def Let_def split: prod.splits) (metis fst_conv)
  moreover have "legal map_step m [?x n]" for m n by (simp add: map_step_def accept)
  then have "linearizable map_step (\<lambda>_. model_Init) (toPorcupine (Events h2))"
    unfolding linearizable_def by (intro exI [of _ "toPorcupine (Events h2)"]) (simp add: events toPorcupine_map in_time_def)
  ultimately show ?thesis by blast
qed

theorem unknown_read_is_rejected_witness:
  "\<not> result_OK (Check search_all (HistoryFromEvents
       [\<lparr>evClientID = 0, evID = 0, evInput = \<lparr>inOp = OpPut, inKey = [1], inValue = [7]\<rparr>, evOutput = zeroOutput, evInvoked = 1, evReturned = 2\<rparr>,
        \<lparr>evClientID = 1, evID = 1, evInput = \<lparr>inOp = OpGet, inKey = [1], inValue = []\<rparr>,
         evOutput = zeroOutput\<lparr>outUnknown := True\<rparr>, evInvoked = 3, evReturned = 0\<rparr>]) 10)"
proof -
  let ?b = "Begin 1 0 \<lparr>inOp = OpPut, inKey = [1], inValue = [7]\<rparr> NewHistory"
  let ?c = "Complete 2 zeroOutput (fst ?b) (snd ?b)"
  let ?d = "Begin 3 1 \<lparr>inOp = OpGet, inKey = [1], inValue = []\<rparr> (snd ?c)"
  let ?u = "Unknown (fst ?d) (snd ?d)"
  have "0 < (2 :: int)" "1 \<le> (2 :: int)" "2 < (3 :: int)" "\<not> outUnknown zeroOutput" by (simp_all add: zeroOutput_def)
  note rejected = conjunct2 [OF unknown_read_is_rejected [OF search_all_sound this(1-3)
    prod.collapse [symmetric, of ?b] prod.collapse [symmetric, of ?c] prod.collapse [symmetric, of ?d]
    prod.collapse [symmetric, of ?u] this(4), of 10]]
  show ?thesis
    by (rule subst [where P = "\<lambda>h. \<not> result_OK (Check search_all h 10)", OF _ rejected])
      (simp add: Begin_def Complete_def Unknown_def NewHistory_def HistoryFromEvents_def)
qed

end
