(* ===== verification/Bolt_Storage.thy ===== *)
theory Bolt_Storage
  imports Raft_Storage Codec "HOL-Library.List_Lexorder" "HOL-Library.Finite_Map"
begin

text \<open>
  \<open>storage/bolt.go\<close>: the production store, over an embedded bbolt database. The database is not part of
  the repository. Its operations are the record \<open>bbolt\<close>, an argument of every method, and what the store
  relies on of its documentation is \<open>bbolt_ok\<close>: buckets are finite maps from byte strings to byte strings,
  cursors visit them in byte order, and an update happens as a whole or not at all. A cursor is the list
  of pairs it has still to visit, the one it is at first. What it visits after \<open>Delete\<close> is up to the
  library: its documentation says that a cursor may be invalidated by a change and has to be placed again,
  and \<open>bbolt_ok\<close> promises nothing about it. Truncating and compacting go on with the cursor all the same,
  so their correctness rests on a law of its own, \<open>cursor_continues\<close>. The protocol buffer library's
  marshalling is a parameter as in \<open>Codec\<close>.

  The store keeps the index of its first and last entry, the newest snapshot's index and term, the floor
  (the last entry dropped by a compaction) and the hard state in memory. The function given to \<open>Update\<close>
  is a closure over these fields, so it maps a transaction and the fields to a transaction and the fields.
  Creating directories and opening the file happen before the part that is modelled; a read transaction on
  an open database can always be started.
\<close>

unbundle bit_operations_syntax

section \<open>Keys\<close>

definition encodeIndex :: "Index \<Rightarrow> bytes" where
  "encodeIndex i = map (\<lambda>s. ucast (drop_bit s i)) [56, 48, 40, 32, 24, 16, 8, 0]"

text \<open>\<open>binary.BigEndian.Uint64\<close> reads the first eight bytes and panics if there are fewer.\<close>

definition decodeIndex :: "bytes \<Rightarrow> Index result" where
  "decodeIndex k =
     (if length k < 8 then Crash
      else Ok (ucast (k ! 7) OR push_bit 8 (ucast (k ! 6)) OR push_bit 16 (ucast (k ! 5)) OR push_bit 24 (ucast (k ! 4)) OR
               push_bit 32 (ucast (k ! 3)) OR push_bit 40 (ucast (k ! 2)) OR push_bit 48 (ucast (k ! 1)) OR push_bit 56 (ucast (k ! 0))))"

definition encodeFloor :: "Index \<Rightarrow> Term \<Rightarrow> bytes" where
  "encodeFloor index t =
     (let buf = [];
          buf = AppendUvarint buf index
      in AppendUvarint buf t)"

definition decodeFloor :: "bytes \<Rightarrow> (Index \<times> Term) result" where
  "decodeFloor b =
     (let (index, n) = Uvarint b
      in if n \<le> 0 then Err (ErrMsg ''truncated log floor index'')
         else (let (t, m) = Uvarint (drop (nat n) b)
               in if m \<le> 0 then Err (ErrMsg ''truncated log floor term'') else Ok (index, t)))"

lemma bit_of_byte:
  "bit (push_bit s (ucast (ucast (drop_bit s i) :: byte) :: uint64)) n \<longleftrightarrow> n < 64 \<and> s \<le> n \<and> n < s + 8 \<and> bit i n"
  by (auto simp: bit_simps)

lemma join_bytes:
  "ucast (ucast i :: byte) OR push_bit 8 (ucast (ucast (drop_bit 8 i) :: byte)) OR
   push_bit 16 (ucast (ucast (drop_bit 16 i) :: byte)) OR push_bit 24 (ucast (ucast (drop_bit 24 i) :: byte)) OR
   push_bit 32 (ucast (ucast (drop_bit 32 i) :: byte)) OR push_bit 40 (ucast (ucast (drop_bit 40 i) :: byte)) OR
   push_bit 48 (ucast (ucast (drop_bit 48 i) :: byte)) OR push_bit 56 (ucast (ucast (drop_bit 56 i) :: byte)) = (i :: uint64)"
proof (rule bit_word_eqI)
  fix n assume "n < LENGTH(64)"
  then have "n < 64" by simp
  moreover have "bit (ucast (ucast i :: byte) :: uint64) n \<longleftrightarrow> n < 8 \<and> bit i n"
    using bit_of_byte [of 0 i n] \<open>n < 64\<close> by simp
  moreover have "n < 8 \<or> 8 \<le> n \<and> n < 16 \<or> 16 \<le> n \<and> n < 24 \<or> 24 \<le> n \<and> n < 32 \<or> 32 \<le> n \<and> n < 40 \<or>
      40 \<le> n \<and> n < 48 \<or> 48 \<le> n \<and> n < 56 \<or> 56 \<le> n \<and> n < 64"
    using \<open>n < 64\<close> by linarith
  ultimately show "bit ((ucast (ucast i :: byte) :: uint64) OR push_bit 8 (ucast (ucast (drop_bit 8 i) :: byte)) OR
     push_bit 16 (ucast (ucast (drop_bit 16 i) :: byte)) OR push_bit 24 (ucast (ucast (drop_bit 24 i) :: byte)) OR
     push_bit 32 (ucast (ucast (drop_bit 32 i) :: byte)) OR push_bit 40 (ucast (ucast (drop_bit 40 i) :: byte)) OR
     push_bit 48 (ucast (ucast (drop_bit 48 i) :: byte)) OR push_bit 56 (ucast (ucast (drop_bit 56 i) :: byte))) n = bit i n"
    unfolding bit_or_iff bit_of_byte by auto
qed

lemma decode_encodeIndex [simp]: "decodeIndex (encodeIndex i) = Ok i"
  unfolding decodeIndex_def encodeIndex_def
  by (simp del: unsigned_or_eq push_bit_or add: join_bytes)

lemma decode_encodeFloor [simp]: "decodeFloor (encodeFloor i t) = Ok (i, t)"
  by (simp add: decodeFloor_def encodeFloor_def AppendUvarint_append [of "AppendUvarint [] i"])

text \<open>Byte strings of one length are ordered like the numbers they spell in base 256.\<close>

fun be_nat :: "bytes \<Rightarrow> nat" where
  "be_nat [] = 0"
| "be_nat (b # bs) = unat b * 256 ^ length bs + be_nat bs"

lemma be_nat_bound: "be_nat bs < 256 ^ length bs"
proof (induction bs)
  case (Cons b bs)
  have "unat b < 256" using unsigned_less [of b] by simp
  then have "unat b * 256 ^ length bs + 256 ^ length bs \<le> 256 * 256 ^ length bs"
    by (metis Suc_leI mult_Suc mult_le_mono1 add.commute)
  then show ?case using Cons unfolding be_nat.simps length_Cons power_Suc by linarith
qed simp

lemma be_nat_less: "length xs = length ys \<Longrightarrow> xs < ys \<longleftrightarrow> be_nat xs < be_nat ys"
proof (induction xs ys rule: list_induct2)
  case (Cons x xs y ys)
  let ?p = "256 ^ length ys :: nat"
  have b: "be_nat xs < ?p" "be_nat ys < ?p" using be_nat_bound [of xs] be_nat_bound [of ys] Cons.hyps by simp_all
  have lt: "unat v * ?p + be_nat vs < unat w * ?p + be_nat ws" if "unat v < unat w" "be_nat vs < ?p" for v w :: byte and vs ws
  proof -
    have "unat v * ?p + ?p \<le> unat w * ?p" using that(1) by (metis Suc_leI mult_Suc mult_le_mono1 add.commute)
    then show ?thesis using that(2) by linarith
  qed
  consider "x < y" | "x = y" | "y < x" by fastforce
  then show ?case
  proof cases
    case 1
    then show ?thesis using lt [of x y xs ys] b Cons.hyps by (simp add: word_less_nat_alt)
  next
    case 2
    then show ?thesis using Cons by simp
  next
    case 3
    then show ?thesis using lt [of y x ys xs] b Cons.hyps by (auto simp: word_less_nat_alt)
  qed
qed simp

lemma be_nat_digits: "be_nat (map (\<lambda>j. word_of_nat (n div 256 ^ j)) (rev [0 ..< k])) = n mod 256 ^ k"
proof (induction k)
  case (Suc k)
  have "unat (word_of_nat (n div 256 ^ k) :: byte) = n div 256 ^ k mod 256" by (simp add: unat_of_nat)
  then have "be_nat (map (\<lambda>j. word_of_nat (n div 256 ^ j)) (rev [0 ..< Suc k])) = 256 ^ k * (n div 256 ^ k mod 256) + n mod 256 ^ k"
    using Suc by simp
  also have "\<dots> = n mod (256 ^ k * 256)" by (rule mod_mult2_eq [symmetric])
  finally show ?case by (simp add: mult.commute)
qed simp

lemma byte_of_index: "(ucast (drop_bit s (i :: uint64)) :: byte) = word_of_nat (unat i div 2 ^ s)"
proof -
  have "(ucast (drop_bit s i) :: byte) = word_of_nat (unat (drop_bit s i))" by simp
  also have "unat (drop_bit s i) = unat i div 2 ^ s" unfolding unat_drop_bit_eq by (simp add: drop_bit_eq_div)
  finally show ?thesis .
qed

lemma be_nat_encodeIndex: "be_nat (encodeIndex i) = unat i"
proof -
  have "encodeIndex i = map (\<lambda>j. word_of_nat (unat i div 256 ^ j)) (rev [0 ..< 8])"
    unfolding encodeIndex_def byte_of_index by (simp add: upt_rec)
  then show ?thesis using be_nat_digits [of "unat i" 8] by simp
qed

lemma encodeIndex_less [simp]: "encodeIndex i < encodeIndex j \<longleftrightarrow> i < j"
  using be_nat_less [of "encodeIndex i" "encodeIndex j"]
  by (simp add: be_nat_encodeIndex word_less_nat_alt) (simp add: encodeIndex_def)

lemma encodeIndex_le [simp]: "encodeIndex i \<le> encodeIndex j \<longleftrightarrow> i \<le> j"
  using encodeIndex_less [of j i] by (simp only: not_less [symmetric])

lemma encodeIndex_inject [simp]: "encodeIndex i = encodeIndex j \<longleftrightarrow> i = j"
  by (metis decode_encodeIndex result.inject(1))

section \<open>The database\<close>

record BoltFields =
  bFirst :: Index
  bLast :: Index
  bSnapIndex :: Index
  bSnapTerm :: Term
  bFloorIndex :: Index
  bFloorTerm :: Term
  bHardState :: HardState

type_synonym 'd Bolt = "'d \<times> BoltFields"

text \<open>
  \<open>'d\<close> is a database and \<open>'t\<close> a transaction. A bucket is named by its key; \<open>bbSeek\<close> and \<open>bbFirst\<close> give
  what a cursor placed there visits, in order, as long as nothing is changed. \<open>bbDelete\<close> deletes the pair
  a cursor is at and gives what the cursor visits after that.
\<close>

type_synonym cursor = "(bytes \<times> bytes) list"

record ('d, 't) bbolt =
  bbUpdate :: "('t \<times> BoltFields \<Rightarrow> (unit, 't \<times> BoltFields) outcome) \<Rightarrow> 'd Bolt \<Rightarrow> (unit, 'd Bolt) outcome"
  bbView :: "'d \<Rightarrow> 't"
  bbGet :: "'t \<Rightarrow> bytes \<Rightarrow> bytes \<Rightarrow> bytes option"
  bbSeek :: "'t \<Rightarrow> bytes \<Rightarrow> bytes \<Rightarrow> cursor"
  bbFirst :: "'t \<Rightarrow> bytes \<Rightarrow> cursor"
  bbLast :: "'t \<Rightarrow> bytes \<Rightarrow> (bytes \<times> bytes) option"
  bbPut :: "bytes \<Rightarrow> bytes \<Rightarrow> bytes \<Rightarrow> 't \<Rightarrow> (unit, 't) outcome"
  bbDelete :: "bytes \<Rightarrow> cursor \<Rightarrow> 't \<Rightarrow> (cursor, 't) outcome"
  bbCreateBucket :: "bytes \<Rightarrow> 't \<Rightarrow> (unit, 't) outcome"
  bbDeleteBucket :: "bytes \<Rightarrow> 't \<Rightarrow> (unit, 't) outcome"

text \<open>The protocol buffer library, for entries and for snapshots.\<close>

record protolib =
  plMarshalEntry :: "pbLogEntry marshal"
  plUnmarshalEntry :: "pbLogEntry unmarshal"
  plMarshalSnapshot :: "pbSnapshot marshal"
  plUnmarshalSnapshot :: "pbSnapshot unmarshal"

definition ascii :: "string \<Rightarrow> bytes" where
  "ascii = map of_char"

definition bucketLog :: bytes where "bucketLog = ascii ''log''"
definition bucketMeta :: bytes where "bucketMeta = ascii ''meta''"
definition keyHardState :: bytes where "keyHardState = ascii ''hard''"
definition keySnapshot :: bytes where "keySnapshot = ascii ''snap''"
definition keyFloor :: bytes where "keyFloor = ascii ''floor''"

definition ErrBucketNotFound :: goerr where
  "ErrBucketNotFound = ErrMsg ''bucket not found''"

text \<open>A step of a closure that only touches the transaction, or only the fields.\<close>

abbreviation on_tx :: "('t \<Rightarrow> (unit, 't) outcome) \<Rightarrow> 't \<times> BoltFields \<Rightarrow> (unit, 't \<times> BoltFields) outcome" where
  "on_tx f \<equiv> \<lambda>(t, x). embed (\<lambda>t. (t, x)) (f t)"

section \<open>Opening\<close>

definition zeroFields :: BoltFields where
  "zeroFields = \<lparr>bFirst = 0, bLast = 0, bSnapIndex = 0, bSnapTerm = 0, bFloorIndex = 0, bFloorTerm = 0, bHardState = zeroHardState\<rparr>"

definition load_meta :: "('d, 't) bbolt \<Rightarrow> protolib \<Rightarrow> 't \<times> BoltFields \<Rightarrow> (unit, 't \<times> BoltFields) outcome" where
  "load_meta B P = (\<lambda>(t, x).
     bind (case bbGet B t bucketMeta keyHardState of
             None \<Rightarrow> Done () (t, x)
           | Some raw \<Rightarrow> bind (lift (UnmarshalHardState raw) (t, x)) (\<lambda>hs (t, x). Done () (t, x\<lparr>bHardState := hs\<rparr>))) (\<lambda>_ (t, x).
     bind (case bbGet B t bucketMeta keySnapshot of
             None \<Rightarrow> Done () (t, x)
           | Some raw \<Rightarrow> bind (lift (UnmarshalSnapshot (plUnmarshalSnapshot P) raw) (t, x)) (\<lambda>snap (t, x).
               Done () (t, x\<lparr>bSnapIndex := LastIncludedIndex snap, bSnapTerm := LastIncludedTerm snap\<rparr>))) (\<lambda>_ (t, x).
     case bbGet B t bucketMeta keyFloor of
       None \<Rightarrow> Done () (t, x)
     | Some raw \<Rightarrow> bind (lift (decodeFloor raw) (t, x)) (\<lambda>(index, trm) (t, x).
         Done () (t, x\<lparr>bFloorIndex := index, bFloorTerm := trm\<rparr>)))))"

definition load_bounds :: "('d, 't) bbolt \<Rightarrow> 't \<times> BoltFields \<Rightarrow> (unit, 't \<times> BoltFields) outcome" where
  "load_bounds B = (\<lambda>(t, x).
     (let x = x\<lparr>bFirst := bFloorIndex x + 1\<rparr>;
          x = x\<lparr>bLast := bFloorIndex x\<rparr>
      in bind (case bbLast B t bucketLog of
                 None \<Rightarrow> Done () (t, x)
               | Some (k, _) \<Rightarrow> bind (lift (decodeIndex k) (t, x)) (\<lambda>i (t, x). Done () (t, x\<lparr>bLast := i\<rparr>))) (\<lambda>_ (t, x).
         case bbFirst B t bucketLog of
           [] \<Rightarrow> Done () (t, x)
         | (k, _) # _ \<Rightarrow> bind (lift (decodeIndex k) (t, x)) (\<lambda>i (t, x). Done () (t, x\<lparr>bFirst := i\<rparr>)))))"

definition Bolt_init :: "('d, 't) bbolt \<Rightarrow> protolib \<Rightarrow> 'd Bolt \<Rightarrow> (unit, 'd Bolt) outcome" where
  "Bolt_init B P =
     bbUpdate B (\<lambda>s.
       bind (on_tx (bbCreateBucket B bucketLog) s) (\<lambda>_ s.
       bind (on_tx (bbCreateBucket B bucketMeta) s) (\<lambda>_ s.
       bind (load_meta B P s) (\<lambda>_ s. load_bounds B s))))"

definition Bolt_Open :: "('d, 't) bbolt \<Rightarrow> protolib \<Rightarrow> 'd \<Rightarrow> (unit, 'd Bolt) outcome" where
  "Bolt_Open B P d = Bolt_init B P (d, zeroFields)"

section \<open>Reading\<close>

definition Bolt_LoadSnapshot :: "('d, 't) bbolt \<Rightarrow> protolib \<Rightarrow> 'd Bolt \<Rightarrow> Snapshot result" where
  "Bolt_LoadSnapshot B P = (\<lambda>(d, x).
     case bbGet B (bbView B d) bucketMeta keySnapshot of
       None \<Rightarrow> Ok zeroSnapshot
     | Some raw \<Rightarrow> UnmarshalSnapshot (plUnmarshalSnapshot P) raw)"

definition Bolt_InitialState :: "('d, 't) bbolt \<Rightarrow> protolib \<Rightarrow> 'd Bolt \<Rightarrow> (HardState \<times> Snapshot) result" where
  "Bolt_InitialState B P s = rbind (Bolt_LoadSnapshot B P s) (\<lambda>snap. Ok (bHardState (snd s), snap))"

definition Bolt_FirstIndex :: "'d Bolt \<Rightarrow> Index" where
  "Bolt_FirstIndex s = bFirst (snd s)"

definition Bolt_LastIndex :: "'d Bolt \<Rightarrow> Index" where
  "Bolt_LastIndex s = bLast (snd s)"

definition Bolt_GetEntry :: "('d, 't) bbolt \<Rightarrow> protolib \<Rightarrow> Index \<Rightarrow> 'd Bolt \<Rightarrow> LogEntry result" where
  "Bolt_GetEntry B P i = (\<lambda>(d, x).
     if i < bFirst x then Err ErrCompacted
     else if i > bLast x then Err ErrUnavailable
     else (case bbGet B (bbView B d) bucketLog (encodeIndex i) of
             None \<Rightarrow> Err ErrUnavailable
           | Some raw \<Rightarrow> UnmarshalEntry (plUnmarshalEntry P) raw))"

definition Bolt_Term :: "('d, 't) bbolt \<Rightarrow> protolib \<Rightarrow> Index \<Rightarrow> 'd Bolt \<Rightarrow> Term result" where
  "Bolt_Term B P i s =
     (if i = bFloorIndex (snd s) \<and> bFloorIndex (snd s) > 0 then Ok (bFloorTerm (snd s))
      else rbind (Bolt_GetEntry B P i s) (\<lambda>entry. Ok (eTerm entry)))"

fun scan_entries :: "protolib \<Rightarrow> Index \<Rightarrow> cursor \<Rightarrow> LogEntry list \<Rightarrow> LogEntry list result" where
  "scan_entries P hi [] out = Ok out"
| "scan_entries P hi ((k, v) # c) out =
     rbind (decodeIndex k) (\<lambda>i.
       if i < hi then rbind (UnmarshalEntry (plUnmarshalEntry P) v) (\<lambda>entry. scan_entries P hi c (out @ [entry]))
       else Ok out)"

definition Bolt_Entries :: "('d, 't) bbolt \<Rightarrow> protolib \<Rightarrow> Index \<Rightarrow> Index \<Rightarrow> 'd Bolt \<Rightarrow> LogEntry list result" where
  "Bolt_Entries B P lo hi = (\<lambda>(d, x).
     if lo \<ge> hi then Ok []
     else if lo < bFirst x then Err ErrCompacted
     else if hi > bLast x + 1 then Err ErrUnavailable
     else scan_entries P hi (bbSeek B (bbView B d) bucketLog (encodeIndex lo)) [])"

section \<open>Writing\<close>

definition Bolt_SetHardState :: "('d, 't) bbolt \<Rightarrow> HardState \<Rightarrow> 'd Bolt \<Rightarrow> (unit, 'd Bolt) outcome" where
  "Bolt_SetHardState B hs s =
     (if hsTerm hs < hsTerm (bHardState (snd s)) then Fail (ErrMsg ''hard state term is below persisted term'') s
      else bind (bbUpdate B (on_tx (bbPut B bucketMeta keyHardState (MarshalHardState hs))) s) (\<lambda>_ (d, x).
        Done () (d, x\<lparr>bHardState := hs\<rparr>)))"

text \<open>
  The loops that delete: the pair the cursor is at, then whatever pair the cursor gives next. A cursor
  that never comes to an end keeps the loop from returning, which is \<open>None\<close>.
\<close>

partial_function (option) delete_all :: "('d, 't) bbolt \<Rightarrow> cursor \<Rightarrow> 't \<Rightarrow> (unit, 't) outcome option" where
  "delete_all B c t =
     (case c of
        [] \<Rightarrow> Some (Done () t)
      | (k, v) # _ \<Rightarrow>
          (case bbDelete B bucketLog c t of
             Done c t \<Rightarrow> delete_all B c t
           | Fail e t \<Rightarrow> Some (bind (lift (decodeIndex k) t) (\<lambda>_ t. Fail e t))
           | Panic t \<Rightarrow> Some (Panic t)))"

definition returns :: "'t \<Rightarrow> (unit, 't) outcome option \<Rightarrow> (unit, 't) outcome" where
  "returns t r = (case r of None \<Rightarrow> Panic t | Some m \<Rightarrow> m)"

fun put_all :: "('d, 't) bbolt \<Rightarrow> protolib \<Rightarrow> LogEntry list \<Rightarrow> 't \<Rightarrow> (unit, 't) outcome" where
  "put_all B P [] t = Done () t"
| "put_all B P (e # es) t =
     bind (lift (MarshalEntry (plMarshalEntry P) e) t) (\<lambda>raw t.
     bind (bbPut B bucketLog (encodeIndex (eIndex e)) raw t) (\<lambda>_ t. put_all B P es t))"

definition write_suffix :: "('d, 't) bbolt \<Rightarrow> protolib \<Rightarrow> Index \<Rightarrow> LogEntry list \<Rightarrow> 't \<Rightarrow> (unit, 't) outcome" where
  "write_suffix B P firstNew es t =
     bind (returns t (delete_all B (bbSeek B t bucketLog (encodeIndex firstNew)) t)) (\<lambda>_ t. put_all B P es t)"

definition append_fields :: "Index \<Rightarrow> BoltFields \<Rightarrow> BoltFields" where
  "append_fields lastNew x =
     (let x = x\<lparr>bLast := lastNew\<rparr>
      in if bFirst x > bLast x then x\<lparr>bFirst := bFloorIndex x + 1\<rparr> else x)"

definition Bolt_AppendEntries :: "('d, 't) bbolt \<Rightarrow> protolib \<Rightarrow> LogEntry list \<Rightarrow> 'd Bolt \<Rightarrow> (unit, 'd Bolt) outcome" where
  "Bolt_AppendEntries B P es s =
     (if es = [] then Done () s
      else bind (lift (checkContiguous es) s) (\<lambda>_ s.
        (let firstNew = eIndex (hd es); lastNew = eIndex (last es); floorIndex = bFloorIndex (snd s)
         in if lastNew \<le> floorIndex then Done () s
            else
              bind (lift (if firstNew \<le> floorIndex then slice_from es (floorIndex + 1 - firstNew) else Ok es) s) (\<lambda>es s.
              bind (lift (if firstNew \<le> floorIndex then rbind (at es 0) (\<lambda>e. Ok (eIndex e)) else Ok firstNew) s) (\<lambda>firstNew s.
              if firstNew > bLast (snd s) + 1 then Fail (ErrMsg ''append leaves a gap'') s
              else bind (bbUpdate B (on_tx (write_suffix B P firstNew es)) s) (\<lambda>_ (d, x).
                Done () (d, append_fields lastNew x)))))))"

definition replace_log :: "('d, 't) bbolt \<Rightarrow> Snapshot \<Rightarrow> 't \<Rightarrow> (unit, 't) outcome" where
  "replace_log B snap t =
     bind (bbPut B bucketMeta keyFloor (encodeFloor (LastIncludedIndex snap) (LastIncludedTerm snap)) t) (\<lambda>_ t.
     bind (case bbDeleteBucket B bucketLog t of
             Fail e t' \<Rightarrow> if e = ErrBucketNotFound then Done () t' else Fail e t'
           | r \<Rightarrow> r) (\<lambda>_ t.
     bbCreateBucket B bucketLog t))"

definition snapshot_fields :: "Snapshot \<Rightarrow> bool \<Rightarrow> BoltFields \<Rightarrow> BoltFields" where
  "snapshot_fields snap replaceLog x =
     (let x = x\<lparr>bSnapIndex := LastIncludedIndex snap, bSnapTerm := LastIncludedTerm snap\<rparr>
      in if replaceLog
         then x\<lparr>bFloorIndex := LastIncludedIndex snap, bFloorTerm := LastIncludedTerm snap,
                bLast := LastIncludedIndex snap, bFirst := LastIncludedIndex snap + 1\<rparr>
         else x)"

definition Bolt_SaveSnapshot :: "('d, 't) bbolt \<Rightarrow> protolib \<Rightarrow> Snapshot \<Rightarrow> 'd Bolt \<Rightarrow> (unit, 'd Bolt) outcome" where
  "Bolt_SaveSnapshot B P snap s =
     (if LastIncludedIndex snap \<le> bSnapIndex (snd s) then Fail ErrSnapshotOutOfDate s
      else bind (lift (MarshalSnapshot (plMarshalSnapshot P) snap) s) (\<lambda>raw s.
      bind (if LastIncludedIndex snap > bLast (snd s) then Done True s
            else (case Bolt_Term B P (LastIncludedIndex snap) s of
                    Ok trm \<Rightarrow> Done (trm \<noteq> LastIncludedTerm snap) s
                  | Err _ \<Rightarrow> Done True s
                  | Crash \<Rightarrow> Panic s)) (\<lambda>replaceLog s.
      bind (bbUpdate B (on_tx (\<lambda>t.
              bind (bbPut B bucketMeta keySnapshot raw t) (\<lambda>_ t.
                if \<not> replaceLog then Done () t else replace_log B snap t))) s) (\<lambda>_ (d, x).
        Done () (d, snapshot_fields snap replaceLog x)))))"

partial_function (option) delete_upto :: "('d, 't) bbolt \<Rightarrow> Index \<Rightarrow> cursor \<Rightarrow> 't \<Rightarrow> (unit, 't) outcome option" where
  "delete_upto B hi c t =
     (case c of
        [] \<Rightarrow> Some (Done () t)
      | (k, v) # _ \<Rightarrow>
          (case decodeIndex k of
             Ok i \<Rightarrow>
               if i \<le> hi
               then (case bbDelete B bucketLog c t of
                       Done c t \<Rightarrow> delete_upto B hi c t
                     | Fail e t \<Rightarrow> Some (Fail e t)
                     | Panic t \<Rightarrow> Some (Panic t))
               else Some (Done () t)
           | Err e \<Rightarrow> Some (Fail e t)
           | Crash \<Rightarrow> Some (Panic t)))"

definition Bolt_Compact :: "('d, 't) bbolt \<Rightarrow> protolib \<Rightarrow> Index \<Rightarrow> 'd Bolt \<Rightarrow> (unit, 'd Bolt) outcome" where
  "Bolt_Compact B P hi s =
     (if hi \<le> bFloorIndex (snd s) then Done () s
      else if hi > bLast (snd s) then Fail (ErrMsg ''compact past last index'') s
      else bind (lift (Bolt_Term B P hi s) s) (\<lambda>trm s.
      bind (bbUpdate B (on_tx (\<lambda>t.
              bind (bbPut B bucketMeta keyFloor (encodeFloor hi trm) t) (\<lambda>_ t.
                returns t (delete_upto B hi (bbFirst B t bucketLog) t)))) s) (\<lambda>_ (d, x).
        Done () (d, x\<lparr>bFloorIndex := hi, bFloorTerm := trm, bFirst := hi + 1\<rparr>))))"

definition bolt_storage :: "('d, 't) bbolt \<Rightarrow> protolib \<Rightarrow> 'd Bolt Storage" where
  "bolt_storage B P =
     \<lparr>InitialState = Bolt_InitialState B P, SetHardState = Bolt_SetHardState B,
      AppendEntries = Bolt_AppendEntries B P, GetEntry = Bolt_GetEntry B P, Entries = Bolt_Entries B P,
      FirstIndex = Bolt_FirstIndex, LastIndex = Bolt_LastIndex, TermAt = Bolt_Term B P,
      SaveSnapshot = Bolt_SaveSnapshot B P, LoadSnapshot = Bolt_LoadSnapshot B P, Compact = Bolt_Compact B P\<rparr>"

section \<open>What is relied on of the database\<close>

text \<open>
  \<open>cont\<close> gives the contents of a transaction: its buckets, each a map. Only if \<open>failing\<close> may an operation
  of the library report an error of its own.
\<close>

type_synonym buckets = "bytes \<Rightarrow> (bytes \<Rightarrow> bytes option) option"

definition updates_atomically :: "bool \<Rightarrow> ('d, 't) bbolt \<Rightarrow> ('t \<Rightarrow> buckets) \<Rightarrow> bool" where
  "updates_atomically failing B cont \<longleftrightarrow>
     (\<forall>f d x.
        (failing \<and> (\<exists>e d'. bbUpdate B f (d, x) = Fail e (d', x) \<and> cont (bbView B d') = cont (bbView B d))) \<or>
        (\<exists>t. cont t = cont (bbView B d) \<and>
           (case f (t, x) of
              Done _ (t', x') \<Rightarrow>
                (\<exists>d'. bbUpdate B f (d, x) = Done () (d', x') \<and> cont (bbView B d') = cont t') \<or>
                failing \<and> (\<exists>e d'. bbUpdate B f (d, x) = Fail e (d', x') \<and> cont (bbView B d') = cont (bbView B d))
            | Fail e (t', x') \<Rightarrow> \<exists>d'. bbUpdate B f (d, x) = Fail e (d', x') \<and> cont (bbView B d') = cont (bbView B d)
            | Panic (t', x') \<Rightarrow> \<exists>d'. bbUpdate B f (d, x) = Panic (d', x') \<and> cont (bbView B d') = cont (bbView B d))))"

definition reads_in_order :: "('d, 't) bbolt \<Rightarrow> ('t \<Rightarrow> buckets) \<Rightarrow> bool" where
  "reads_in_order B cont \<longleftrightarrow>
     (\<forall>t b m. cont t b = Some m \<longrightarrow>
        finite (dom m) \<and> (\<forall>k. bbGet B t b k = m k) \<and>
        (\<forall>k. bbSeek B t b k = map (\<lambda>k. (k, the (m k))) (sorted_list_of_set {k' \<in> dom m. k \<le> k'})) \<and>
        bbFirst B t b = map (\<lambda>k. (k, the (m k))) (sorted_list_of_set (dom m)) \<and>
        bbLast B t b = (if dom m = {} then None else Some (Max (dom m), the (m (Max (dom m))))))"

definition writes_exactly :: "bool \<Rightarrow> ('d, 't) bbolt \<Rightarrow> ('t \<Rightarrow> buckets) \<Rightarrow> bool" where
  "writes_exactly failing B cont \<longleftrightarrow>
     (\<forall>t b m k v c. cont t b = Some m \<longrightarrow>
        post (\<lambda>_ t'. cont t' = (cont t)(b := Some (m(k := Some v)))) (\<lambda>_ _. failing) (\<lambda>_. False) (bbPut B b k v t) \<and>
        post (\<lambda>_ t'. cont t' = (cont t)(b := Some (m(k := None)))) (\<lambda>_ _. failing) (\<lambda>_. False) (bbDelete B b ((k, v) # c) t) \<and>
        post (\<lambda>_ t'. cont t' = (cont t)(b := None)) (\<lambda>_ _. failing) (\<lambda>_. False) (bbDeleteBucket B b t) \<and>
        (\<forall>t'. bbDeleteBucket B b t \<noteq> Fail ErrBucketNotFound t')) \<and>
     (\<forall>t b. post (\<lambda>_ t'. cont t' = (if cont t b = None then (cont t)(b := Some Map.empty) else cont t))
               (\<lambda>_ _. failing) (\<lambda>_. False) (bbCreateBucket B b t))"

definition bbolt_ok :: "bool \<Rightarrow> ('d, 't) bbolt \<Rightarrow> ('t \<Rightarrow> buckets) \<Rightarrow> bool" where
  "bbolt_ok failing B cont \<longleftrightarrow> updates_atomically failing B cont \<and> reads_in_order B cont \<and> writes_exactly failing B cont"

text \<open>
  What truncating and compacting rely on besides, and the documentation does not promise: a cursor that is
  at a pair, with the rest of the bucket in order behind it, goes on to that rest when the pair is deleted.
\<close>

definition walk :: "(bytes \<Rightarrow> bytes option) \<Rightarrow> bytes \<Rightarrow> cursor" where
  "walk m k = map (\<lambda>k. (k, the (m k))) (sorted_list_of_set {k' \<in> dom m. k \<le> k'})"

definition cursor_continues :: "('d, 't) bbolt \<Rightarrow> ('t \<Rightarrow> buckets) \<Rightarrow> bool" where
  "cursor_continues B cont \<longleftrightarrow>
     (\<forall>t b m k c c' t'. cont t b = Some m \<longrightarrow> walk m k = (k, the (m k)) # c \<longrightarrow> bbDelete B b (walk m k) t = Done c' t' \<longrightarrow> c' = c)"

text \<open>What is relied on of the marshalling, and what can be stored without loss.\<close>

definition proto_ok :: "protolib \<Rightarrow> bool" where
  "proto_ok P \<longleftrightarrow> lossless (plMarshalEntry P) (plUnmarshalEntry P) \<and> lossless (plMarshalSnapshot P) (plUnmarshalSnapshot P)"

definition marshals :: "bool \<Rightarrow> bytes result \<Rightarrow> bool" where
  "marshals failing r \<longleftrightarrow> (case r of Ok _ \<Rightarrow> True | Err _ \<Rightarrow> failing | Crash \<Rightarrow> False)"

definition storable_entries :: "bool \<Rightarrow> protolib \<Rightarrow> LogEntry list \<Rightarrow> bool" where
  "storable_entries failing P es \<longleftrightarrow> (\<forall>e \<in> set es. known_entry e \<and> marshals failing (MarshalEntry (plMarshalEntry P) e))"

definition storable_snapshot :: "bool \<Rightarrow> protolib \<Rightarrow> Snapshot \<Rightarrow> bool" where
  "storable_snapshot failing P sn \<longleftrightarrow> wf_conf (snapConfig sn) \<and> marshals failing (MarshalSnapshot (plMarshalSnapshot P) sn)"

section \<open>The log a store stands for\<close>

text \<open>
  \<open>holds_entries\<close>: the bucket has exactly the keys of the entries after the base, and each value is an
  encoding of its entry. \<open>holds_meta\<close>: the other bucket has the hard state, the snapshot and the floor.
  \<open>on_disk\<close> is about the database alone; \<open>bolt_rel\<close> adds that the fields in memory agree with it.
\<close>

definition key_of :: "nat \<Rightarrow> bytes" where
  "key_of n = encodeIndex (of_nat n)"

definition holds_entries :: "protolib \<Rightarrow> nat \<Rightarrow> LogEntry list \<Rightarrow> (bytes \<Rightarrow> bytes option) \<Rightarrow> bool" where
  "holds_entries P base es m \<longleftrightarrow>
     dom m = key_of ` {base + 1 ..< base + 1 + length es} \<and>
     (\<forall>i < length es. \<exists>raw. m (key_of (base + 1 + i)) = Some raw \<and> UnmarshalEntry (plUnmarshalEntry P) raw = Ok (es ! i))"

definition holds_meta :: "protolib \<Rightarrow> astore \<Rightarrow> (bytes \<Rightarrow> bytes option) \<Rightarrow> bool" where
  "holds_meta P a m \<longleftrightarrow>
     finite (dom m) \<and>
     (case m keyHardState of None \<Rightarrow> aHard a = zeroHardState | Some raw \<Rightarrow> UnmarshalHardState raw = Ok (aHard a)) \<and>
     (case m keySnapshot of None \<Rightarrow> aSnap a = zeroSnapshot | Some raw \<Rightarrow> UnmarshalSnapshot (plUnmarshalSnapshot P) raw = Ok (aSnap a)) \<and>
     (case m keyFloor of None \<Rightarrow> aBase a = 0 \<and> aBaseTerm a = 0 | Some raw \<Rightarrow> decodeFloor raw = Ok (of_nat (aBase a), aBaseTerm a))"

definition on_disk :: "protolib \<Rightarrow> astore \<Rightarrow> buckets \<Rightarrow> bool" where
  "on_disk P a c \<longleftrightarrow> awf a \<and>
     (\<exists>log meta. c bucketLog = Some log \<and> c bucketMeta = Some meta \<and> holds_entries P (aBase a) (aEnts a) log \<and> holds_meta P a meta)"

definition in_memory :: "astore \<Rightarrow> BoltFields \<Rightarrow> bool" where
  "in_memory a x \<longleftrightarrow>
     bHardState x = aHard a \<and> bSnapIndex x = LastIncludedIndex (aSnap a) \<and> bSnapTerm x = LastIncludedTerm (aSnap a) \<and>
     unat (bFloorIndex x) = aBase a \<and> bFloorTerm x = aBaseTerm a \<and>
     unat (bFirst x) = aBase a + 1 \<and> unat (bLast x) = aLast a"

definition bolt_rel :: "('d, 't) bbolt \<Rightarrow> protolib \<Rightarrow> ('t \<Rightarrow> buckets) \<Rightarrow> 'd Bolt \<Rightarrow> astore \<Rightarrow> bool" where
  "bolt_rel B P cont s a \<longleftrightarrow> on_disk P a (cont (bbView B (fst s))) \<and> in_memory a (snd s)"

text \<open>
  A method of the store implements an operation of the log: it has the same result and leaves the store
  standing for the new log, or the library failed and the store stands for the old one.
\<close>

definition implements :: "bool \<Rightarrow> ('s \<Rightarrow> 'a \<Rightarrow> bool) \<Rightarrow> 'a \<Rightarrow> ('v, 's) outcome \<Rightarrow> ('v, 'a) outcome \<Rightarrow> bool" where
  "implements failing R a c r \<longleftrightarrow>
     (case c of
        Done v s \<Rightarrow> \<exists>a'. r = Done v a' \<and> R s a'
      | Fail e s \<Rightarrow> R s a \<and> (r = Fail e a \<or> failing)
      | Panic s \<Rightarrow> False)"

section \<open>Facts about the two buckets\<close>

lemma names_distinct [simp]:
  "bucketLog \<noteq> bucketMeta" "bucketMeta \<noteq> bucketLog"
  "keyHardState \<noteq> keySnapshot" "keySnapshot \<noteq> keyHardState" "keyHardState \<noteq> keyFloor" "keyFloor \<noteq> keyHardState"
  "keySnapshot \<noteq> keyFloor" "keyFloor \<noteq> keySnapshot"
  by (simp_all add: bucketLog_def bucketMeta_def keyHardState_def keySnapshot_def keyFloor_def ascii_def)

lemma key_of_less: "i < 2 ^ 64 \<Longrightarrow> j < 2 ^ 64 \<Longrightarrow> key_of i < key_of j \<longleftrightarrow> i < j"
  by (simp add: key_of_def word_less_nat_alt unat_of_nat_uint64)

lemma key_of_le: "i < 2 ^ 64 \<Longrightarrow> j < 2 ^ 64 \<Longrightarrow> key_of i \<le> key_of j \<longleftrightarrow> i \<le> j"
  by (simp add: key_of_def word_le_nat_alt unat_of_nat_uint64)

lemma key_of_eq: "i < 2 ^ 64 \<Longrightarrow> j < 2 ^ 64 \<Longrightarrow> key_of i = key_of j \<longleftrightarrow> i = j"
  by (simp add: key_of_def uint64_eq_iff unat_of_nat_uint64)

lemma encodeIndex_key: "encodeIndex i = key_of (unat i)"
  by (simp add: key_of_def)

lemma decode_key_of [simp]: "decodeIndex (key_of n) = Ok (of_nat n)"
  by (simp add: key_of_def)

lemma sorted_keys:
  assumes "j < 2 ^ 64"
  shows "sorted_list_of_set (key_of ` {i ..< j}) = map key_of [i ..< j]"
proof -
  have "sorted_wrt (<) (map key_of [i ..< j])"
    unfolding sorted_wrt_map by (rule sorted_wrt_mono_rel [OF _ sorted_wrt_upt]) (use assms in \<open>simp add: key_of_less\<close>)
  then show ?thesis
    by (metis sorted_list_of_set.idem_if_sorted_distinct set_map set_upt strict_sorted_iff)
qed

lemma keys_from:
  assumes "holds_entries P base es m" "past = base + 1 + length es" "past < 2 ^ 64" "base + 1 \<le> lo" "lo < 2 ^ 64"
  shows "{k \<in> dom m. key_of lo \<le> k} = key_of ` {lo ..< past}"
proof -
  have "dom m = key_of ` {base + 1 ..< past}" using assms(1,2) by (simp add: holds_entries_def)
  then show ?thesis using assms(3-5) by (auto simp: key_of_le)
qed

lemma holds_entry:
  assumes "holds_entries P base es m" "base + 1 \<le> n" "n < base + 1 + length es"
  obtains raw where "m (key_of n) = Some raw" "UnmarshalEntry (plUnmarshalEntry P) raw = Ok (es ! (n - base - 1))"
proof -
  have "n = base + 1 + (n - base - 1)" "n - base - 1 < length es" using assms(2,3) by auto
  then show thesis using assms(1) that unfolding holds_entries_def by metis
qed

lemma scan_entries_stored:
  assumes held: "holds_entries P base es m" and top: "past = base + 1 + length es" "past < 2 ^ 64"
    and "base + 1 \<le> lo" "lo \<le> unat hi" "unat hi \<le> past"
  shows "scan_entries P hi (map (\<lambda>n. (key_of n, the (m (key_of n)))) [lo ..< past]) out =
         Ok (out @ take (unat hi - lo) (drop (lo - base - 1) es))"
  using assms(4-)
proof (induction "unat hi - lo" arbitrary: lo out)
  case 0
  then have "lo = unat hi" by simp
  then have "scan_entries P hi (map (\<lambda>n. (key_of n, the (m (key_of n)))) [lo ..< past]) out = Ok out"
    by (cases "lo < past") (simp_all add: upt_conv_Cons del: upt_Suc)
  then show ?case using 0 by simp
next
  case (Suc n)
  then have lt: "lo < past" "lo < unat hi" by auto
  then have "(of_nat lo :: Index) < hi" using top(2) by (simp add: word_less_nat_alt unat_of_nat_uint64)
  moreover obtain raw where "m (key_of lo) = Some raw" "UnmarshalEntry (plUnmarshalEntry P) raw = Ok (es ! (lo - base - 1))"
    using holds_entry [OF held Suc.prems(1)] lt(1) top(1) by blast
  ultimately have "scan_entries P hi (map (\<lambda>n. (key_of n, the (m (key_of n)))) [lo ..< past]) out =
      scan_entries P hi (map (\<lambda>n. (key_of n, the (m (key_of n)))) [Suc lo ..< past]) (out @ [es ! (lo - base - 1)])"
    using lt by (simp add: upt_conv_Cons del: upt_Suc)
  also have "\<dots> = Ok (out @ [es ! (lo - base - 1)] @ take (unat hi - Suc lo) (drop (Suc lo - base - 1) es))"
    using Suc.hyps(1) [of "Suc lo"] Suc.hyps(2) Suc.prems lt by simp
  also have "[es ! (lo - base - 1)] @ take (unat hi - Suc lo) (drop (Suc lo - base - 1) es) = take (unat hi - lo) (drop (lo - base - 1) es)"
  proof -
    have "drop (lo - base - 1) es = es ! (lo - base - 1) # drop (Suc lo - base - 1) es"
    proof -
      have "lo - base - 1 < length es" "Suc lo - base - 1 = Suc (lo - base - 1)" using Suc.prems(1) lt(1) top(1) by auto
      then show ?thesis by (simp only: Cons_nth_drop_Suc)
    qed
    moreover have "unat hi - lo = Suc (unat hi - Suc lo)" using lt(2) by simp
    ultimately show ?thesis by simp
  qed
  finally show ?case .
qed

lemma holds_entries_cut:
  assumes held: "holds_entries P base es m" and top: "past = base + 1 + length es" "past < 2 ^ 64"
    and n: "base + 1 \<le> n" "n \<le> past"
  shows "holds_entries P base (take (n - base - 1) es) (m |` (- key_of ` {n ..< past}))"
proof -
  have "dom m = key_of ` {base + 1 ..< past}" using held top(1) by (simp add: holds_entries_def)
  moreover have "key_of ` {base + 1 ..< past} \<inter> - key_of ` {n ..< past} = key_of ` {base + 1 ..< n}"
  proof
    show "key_of ` {base + 1 ..< past} \<inter> - key_of ` {n ..< past} \<subseteq> key_of ` {base + 1 ..< n}" by force
    show "key_of ` {base + 1 ..< n} \<subseteq> key_of ` {base + 1 ..< past} \<inter> - key_of ` {n ..< past}"
      using n top(2) by (auto simp: key_of_eq)
  qed
  ultimately have dom: "dom (m |` (- key_of ` {n ..< past})) = key_of ` {base + 1 ..< n}" by simp
  have "\<exists>raw. (m |` (- key_of ` {n ..< past})) (key_of (base + 1 + i)) = Some raw \<and> UnmarshalEntry (plUnmarshalEntry P) raw = Ok (es ! i)"
    if "i < n - base - 1" for i
  proof -
    have "base + 1 + i < past" "base + 1 + i < n" using that n by auto
    then obtain raw where "m (key_of (base + 1 + i)) = Some raw" "UnmarshalEntry (plUnmarshalEntry P) raw = Ok (es ! i)"
      using holds_entry [OF held, of "base + 1 + i"] top(1) by auto
    moreover have "key_of (base + 1 + i) \<notin> key_of ` {n ..< past}"
      using \<open>base + 1 + i < n\<close> n top(2) by (auto simp: key_of_eq)
    ultimately show ?thesis by simp
  qed
  then show ?thesis using dom n top(1) unfolding holds_entries_def by auto
qed


lemma holds_entries_snoc:
  assumes held: "holds_entries P base es m" and n: "n = base + 1 + length es" "n < 2 ^ 64"
    and raw: "UnmarshalEntry (plUnmarshalEntry P) raw = Ok e"
  shows "holds_entries P base (es @ [e]) (m(key_of n := Some raw))"
proof -
  have "{base + 1 ..< base + 1 + length (es @ [e])} = insert n {base + 1 ..< n}" using n(1) by auto
  then have "dom (m(key_of n := Some raw)) = key_of ` {base + 1 ..< base + 1 + length (es @ [e])}"
    using held n(1) by (simp add: holds_entries_def)
  moreover have "\<exists>r. (m(key_of n := Some raw)) (key_of (base + 1 + i)) = Some r \<and> UnmarshalEntry (plUnmarshalEntry P) r = Ok ((es @ [e]) ! i)"
    if i: "i < length (es @ [e])" for i
  proof (cases "i = length es")
    case True
    then show ?thesis using raw n(1) by simp
  next
    case False
    then have "base + 1 + i < n" using i n(1) by simp
    moreover obtain r where "m (key_of (base + 1 + i)) = Some r" "UnmarshalEntry (plUnmarshalEntry P) r = Ok (es ! i)"
      using holds_entry [OF held, of "base + 1 + i"] \<open>base + 1 + i < n\<close> n(1) by auto
    ultimately show ?thesis using False i n(2) by (simp add: key_of_eq nth_append)
  qed
  ultimately show ?thesis unfolding holds_entries_def by blast
qed

section \<open>Inside a transaction\<close>

lemma bbolt_writes:
  assumes "bbolt_ok failing B cont" "cont t = c(b := Some m)"
  shows "post (\<lambda>_ t'. cont t' = c(b := Some (m(k := Some v)))) (\<lambda>_ _. failing) (\<lambda>_. False) (bbPut B b k v t)"
    "post (\<lambda>_ t'. cont t' = c(b := Some (m(k := None)))) (\<lambda>_ _. failing) (\<lambda>_. False) (bbDelete B b ((k, v) # cu) t)"
proof -
  have get: "cont t b = Some m" and upd: "(cont t)(b := y) = c(b := y)" for y using assms(2) by simp_all
  have "writes_exactly failing B cont" using assms(1) by (simp add: bbolt_ok_def)
  note laws = conjunct1 [OF this [unfolded writes_exactly_def], rule_format, OF get, of k v cu, unfolded upd]
  show "post (\<lambda>_ t'. cont t' = c(b := Some (m(k := Some v)))) (\<lambda>_ _. failing) (\<lambda>_. False) (bbPut B b k v t)"
    by (rule conjunct1 [OF laws])
  show "post (\<lambda>_ t'. cont t' = c(b := Some (m(k := None)))) (\<lambda>_ _. failing) (\<lambda>_. False) (bbDelete B b ((k, v) # cu) t)"
    by (rule conjunct1 [OF conjunct2 [OF laws]])
qed

text \<open>A cursor over consecutive indices, and its step when it continues after a deletion.\<close>

definition keys_above :: "nat \<Rightarrow> nat \<Rightarrow> (bytes \<Rightarrow> bytes option) \<Rightarrow> bool" where
  "keys_above lo past m \<longleftrightarrow> {k \<in> dom m. key_of lo \<le> k} = key_of ` {lo ..< past}"

lemma keys_above_walk:
  assumes "keys_above lo past m" "past < 2 ^ 64"
  shows "walk m (key_of lo) = map (\<lambda>n. (key_of n, the (m (key_of n)))) [lo ..< past]"
  using assms by (simp add: walk_def keys_above_def sorted_keys comp_def del: upt_Suc)

lemma keys_above_delete:
  assumes "keys_above lo past m" "lo < past" "past < 2 ^ 64"
  shows "keys_above (Suc lo) past (m(key_of lo := None))"
    "walk m (key_of lo) = (key_of lo, the (m (key_of lo))) # walk (m(key_of lo := None)) (key_of (Suc lo))"
proof -
  have up: "key_of lo \<le> k" if "key_of (Suc lo) \<le> k" for k
    using that assms(2,3) key_of_le [of lo "Suc lo"] by (meson le_SucI order_refl order_trans less_trans Suc_lessI lessI Suc_leI le_less_trans)
  have "k \<in> key_of ` {Suc lo ..< past}" if "k \<in> dom m" "k \<noteq> key_of lo" "key_of (Suc lo) \<le> k" for k
  proof -
    have "k \<in> key_of ` {lo ..< past}" using assms(1) that up [OF that(3)] unfolding keys_above_def by blast
    then show ?thesis using that(2) by (force simp: Suc_le_eq order_less_le)
  qed
  moreover have "(\<exists>y. m (key_of n) = Some y) \<and> key_of n \<noteq> key_of lo \<and> key_of (Suc lo) \<le> key_of n" if "n \<in> {Suc lo ..< past}" for n
  proof -
    have "key_of n \<in> key_of ` {lo ..< past}" using that by auto
    then have "\<exists>y. m (key_of n) = Some y" using assms(1) unfolding keys_above_def by blast
    with that assms(3) show ?thesis by (simp add: key_of_eq key_of_le)
  qed
  ultimately show k: "keys_above (Suc lo) past (m(key_of lo := None))" unfolding keys_above_def by auto
  have "map (\<lambda>n. (key_of n, the ((m(key_of lo := None)) (key_of n)))) [Suc lo ..< past] = map (\<lambda>n. (key_of n, the (m (key_of n)))) [Suc lo ..< past]"
    using assms(3) by (simp add: key_of_eq del: upt_Suc)
  then show "walk m (key_of lo) = (key_of lo, the (m (key_of lo))) # walk (m(key_of lo := None)) (key_of (Suc lo))"
    using assms(2) unfolding keys_above_walk [OF assms(1,3)] keys_above_walk [OF k assms(3)] by (simp add: upt_conv_Cons del: upt_Suc)
qed

lemma continues:
  assumes ok: "bbolt_ok failing B cont" and cur: "cursor_continues B cont" and t: "cont t = c(bucketLog := Some m)"
    and k: "keys_above lo past m" "lo < past" "past < 2 ^ 64"
  shows "post (\<lambda>cu t'. cu = walk (m(key_of lo := None)) (key_of (Suc lo)) \<and> cont t' = c(bucketLog := Some (m(key_of lo := None))))
    (\<lambda>_ _. failing) (\<lambda>_. False) (bbDelete B bucketLog (walk m (key_of lo)) t)"
proof -
  note cons = keys_above_delete(2) [OF k]
  have "cont t bucketLog = Some m" using t by simp
  then have "cu = walk (m(key_of lo := None)) (key_of (Suc lo))" if "bbDelete B bucketLog (walk m (key_of lo)) t = Done cu t'" for cu t'
    using cur cons that unfolding cursor_continues_def by blast
  with bbolt_writes(2) [OF ok t, of "key_of lo" "the (m (key_of lo))" "walk (m(key_of lo := None)) (key_of (Suc lo))", folded cons]
  show ?thesis by (cases "bbDelete B bucketLog (walk m (key_of lo)) t") simp_all
qed

lemma delete_none: "returns t0 (delete_all B [] t) = Done () t" "returns t0 (delete_upto B hi [] t) = Done () t"
  by (subst delete_all.simps, simp add: returns_def) (subst delete_upto.simps, simp add: returns_def)

lemma restrict_delete: "(m(k := None)) |` (- A) = m |` (- insert k A)"
  by (rule ext) (auto simp: restrict_map_def)

lemma delete_all_post:
  assumes ok: "bbolt_ok failing B cont" and cur: "cursor_continues B cont" and past: "past < 2 ^ 64"
  shows "cont t = c(bucketLog := Some m) \<Longrightarrow> keys_above lo past m \<Longrightarrow>
    post (\<lambda>_ t'. cont t' = c(bucketLog := Some (m |` (- key_of ` {lo ..< past})))) (\<lambda>_ _. failing) (\<lambda>_. False)
      (returns t0 (delete_all B (walk m (key_of lo)) t))"
proof (induction "past - lo" arbitrary: lo t m)
  case 0
  have same: "m |` (- key_of ` {lo ..< past}) = m" using 0(1) by (simp add: restrict_map_def)
  have "walk m (key_of lo) = []" using keys_above_walk [OF 0(3) past] 0(1) by simp
  then show ?case by (simp only: delete_none post.simps same 0(2))
next
  case (Suc n)
  then have lo: "lo < past" and n: "n = past - Suc lo" by auto
  let ?m = "m(key_of lo := None)"
  note k = keys_above_delete [OF Suc.prems(2) lo past]
  have "{lo ..< past} = insert lo {Suc lo ..< past}" using lo by auto
  then have same: "?m |` (- key_of ` {Suc lo ..< past}) = m |` (- key_of ` {lo ..< past})"
    by (simp only: restrict_delete image_insert)
  have step: "post (\<lambda>_ t'. cont t' = c(bucketLog := Some (m |` (- key_of ` {lo ..< past})))) (\<lambda>_ _. failing) (\<lambda>_. False)
      (returns t0 (delete_all B (walk ?m (key_of (Suc lo))) t'))" if "cont t' = c(bucketLog := Some ?m)" for t'
    using Suc.hyps(1) [OF n that k(1)] unfolding same .
  have eq: "delete_all B (walk m (key_of lo)) t =
      (case bbDelete B bucketLog (walk m (key_of lo)) t of
         Done c t \<Rightarrow> delete_all B c t
       | Fail e t \<Rightarrow> Some (Fail e t)
       | Panic t \<Rightarrow> Some (Panic t))"
    by (subst delete_all.simps) (simp add: k(2) split: outcome.split)
  show ?case
    using continues [OF ok cur Suc.prems lo past] step unfolding eq
    by (cases "bbDelete B bucketLog (walk m (key_of lo)) t") (simp_all add: returns_def)
qed

lemma put_all_post:
  assumes ok: "bbolt_ok failing B cont" and P: "proto_ok P"
  shows "cont t = c(bucketLog := Some m) \<Longrightarrow> holds_entries P base es m \<Longrightarrow> base + 1 + length es + length fs \<le> 2 ^ 64 \<Longrightarrow>
    \<forall>i < length fs. unat (eIndex (fs ! i)) = base + 1 + length es + i \<Longrightarrow> storable_entries failing P fs \<Longrightarrow>
    post (\<lambda>_ t'. \<exists>m'. cont t' = c(bucketLog := Some m') \<and> holds_entries P base (es @ fs) m')
      (\<lambda>_ _. failing) (\<lambda>_. False) (put_all B P fs t)"
proof (induction fs arbitrary: t m es)
  case Nil
  then show ?case by auto
next
  case (Cons e fs)
  have e: "known_entry e" "marshals failing (MarshalEntry (plMarshalEntry P) e)" and rest: "storable_entries failing P fs"
    using Cons.prems(5) by (simp_all add: storable_entries_def)
  show ?case
  proof (cases "MarshalEntry (plMarshalEntry P) e")
    case (Ok raw)
    let ?n = "base + 1 + length es"
    have n: "unat (eIndex e) = ?n" "?n < 2 ^ 64" using Cons.prems(4) [rule_format, of 0] Cons.prems(3) by simp_all
    have "UnmarshalEntry (plUnmarshalEntry P) raw = Ok e"
      using P Ok Entry_proto [OF e(1)] by (simp add: proto_ok_def lossless_def MarshalEntry_def UnmarshalEntry_def)
    from holds_entries_snoc [OF Cons.prems(2) refl n(2) this]
    have held: "holds_entries P base (es @ [e]) (m(encodeIndex (eIndex e) := Some raw))" by (simp only: encodeIndex_key n(1))
    have later: "\<forall>i < length fs. unat (eIndex (fs ! i)) = base + 1 + length (es @ [e]) + i"
      using Cons.prems(4) by (auto dest: spec [of _ "Suc i" for i])
    have bound: "base + 1 + length (es @ [e]) + length fs \<le> 2 ^ 64" using Cons.prems(3) by simp
    have same: "(es @ [e]) @ fs = es @ e # fs" by simp
    have step: "post (\<lambda>_ t'. \<exists>m'. cont t' = c(bucketLog := Some m') \<and> holds_entries P base (es @ e # fs) m')
        (\<lambda>_ _. failing) (\<lambda>_. False) (put_all B P fs t')"
      if "cont t' = c(bucketLog := Some (m(encodeIndex (eIndex e) := Some raw)))" for t'
      using Cons.IH [OF that held bound later rest] unfolding same .
    show ?thesis
      unfolding put_all.simps Ok lift.simps bind.simps post_bind_iff
      by (rule post_mono [OF bbolt_writes(1) [OF ok Cons.prems(1)]]) (erule step, assumption+)
  qed (use e(2) in \<open>simp_all add: marshals_def\<close>)
qed


lemma bbolt_reads:
  assumes "bbolt_ok failing B cont" "cont t b = Some m"
  shows "finite (dom m)" "bbGet B t b k = m k"
    "bbSeek B t b k = map (\<lambda>k. (k, the (m k))) (sorted_list_of_set {k' \<in> dom m. k \<le> k'})"
    "bbFirst B t b = map (\<lambda>k. (k, the (m k))) (sorted_list_of_set (dom m))"
    "bbLast B t b = (if dom m = {} then None else Some (Max (dom m), the (m (Max (dom m)))))"
  using assms by (simp_all add: bbolt_ok_def reads_in_order_def)

lemma write_suffix_post:
  assumes ok: "bbolt_ok failing B cont" and P: "proto_ok P" and t: "cont t = c(bucketLog := Some m)"
    and held: "holds_entries P base es m" and past: "past = base + 1 + length es" "past < 2 ^ 64"
    and f: "base + 1 \<le> unat f" "unat f \<le> past" "unat f + length fs \<le> 2 ^ 64"
    and fs: "\<forall>i < length fs. unat (eIndex (fs ! i)) = unat f + i" "storable_entries failing P fs"
    and cut: "cursor_continues B cont \<or> unat f = past"
  shows "post (\<lambda>_ t'. \<exists>m'. cont t' = c(bucketLog := Some m') \<and> holds_entries P base (take (unat f - base - 1) es @ fs) m')
    (\<lambda>_ _. failing) (\<lambda>_. False) (write_suffix B P f fs t)"
proof -
  have "cont t bucketLog = Some m" using t by simp
  then have seek: "bbSeek B t bucketLog (encodeIndex f) = walk m (key_of (unat f))"
    using bbolt_reads(3) [OF ok, of t bucketLog m "encodeIndex f"] by (simp add: encodeIndex_key walk_def)
  have above: "keys_above (unat f) past m" using keys_from [OF held past f(1)] by (simp add: keys_above_def)
  have gone: "post (\<lambda>_ t'. cont t' = c(bucketLog := Some (m |` (- key_of ` {unat f ..< past})))) (\<lambda>_ _. failing) (\<lambda>_. False)
      (returns t (delete_all B (walk m (key_of (unat f))) t))"
    using cut
  proof
    assume "unat f = past"
    moreover have "m |` UNIV = m" by (simp add: restrict_map_def)
    ultimately show ?thesis using t keys_above_walk [OF above past(2)] by (subst delete_all.simps) (simp add: returns_def)
  qed (rule delete_all_post [OF ok _ past(2) t above])
  have len: "length (take (unat f - base - 1) es) = unat f - base - 1" using f(2) past(1) by simp
  have fs': "\<forall>i < length fs. unat (eIndex (fs ! i)) = base + 1 + length (take (unat f - base - 1) es) + i"
    unfolding len using fs(1) f(1) by simp
  have bound: "base + 1 + length (take (unat f - base - 1) es) + length fs \<le> 2 ^ 64" unfolding len using f(1,3) by simp
  note kept = holds_entries_cut [OF held past f(1,2)]
  show ?thesis
    unfolding write_suffix_def seek post_bind_iff
    by (rule post_mono [OF gone]) (erule put_all_post [OF ok P _ kept bound fs' fs(2)], assumption+)
qed

section \<open>Updates\<close>

lemma update_tx:
  assumes ok: "bbolt_ok failing B cont" and c: "cont (bbView B d) = c"
    and f: "\<And>t. cont t = c \<Longrightarrow> post (\<lambda>_ t'. Q (cont t')) (\<lambda>_ _. failing) (\<lambda>_. False) (f t)"
  shows "post (\<lambda>_ (d', x'). x' = x \<and> Q (cont (bbView B d'))) (\<lambda>_ (d', x'). failing \<and> x' = x \<and> cont (bbView B d') = c) (\<lambda>_. False)
    (bbUpdate B (on_tx f) (d, x))"
proof -
  have "updates_atomically failing B cont" using ok by (simp add: bbolt_ok_def)
  from this [unfolded updates_atomically_def, rule_format, of "on_tx f" d x]
  show ?thesis
  proof (elim disjE exE conjE)
    fix t assume t: "cont t = cont (bbView B d)"
      and r: "case on_tx f (t, x) of
              Done _ (t', x') \<Rightarrow>
                (\<exists>d'. bbUpdate B (on_tx f) (d, x) = Done () (d', x') \<and> cont (bbView B d') = cont t') \<or>
                failing \<and> (\<exists>e d'. bbUpdate B (on_tx f) (d, x) = Fail e (d', x') \<and> cont (bbView B d') = cont (bbView B d))
            | Fail e (t', x') \<Rightarrow> \<exists>d'. bbUpdate B (on_tx f) (d, x) = Fail e (d', x') \<and> cont (bbView B d') = cont (bbView B d)
            | Panic (t', x') \<Rightarrow> \<exists>d'. bbUpdate B (on_tx f) (d, x) = Panic (d', x') \<and> cont (bbView B d') = cont (bbView B d)"
    have "post (\<lambda>_ t'. Q (cont t')) (\<lambda>_ _. failing) (\<lambda>_. False) (f t)" using f t c by simp
    with r c show ?thesis by (cases "f t") auto
  qed (use c in auto)
qed

lemma implements_update:
  assumes ok: "bbolt_ok failing B cont" and rel: "bolt_rel B P cont (d, x) a"
    and f: "\<And>t. cont t = cont (bbView B d) \<Longrightarrow> post (\<lambda>_ t'. on_disk P a' (cont t')) (\<lambda>_ _. failing) (\<lambda>_. False) (f t)"
    and x': "in_memory a' (g x)"
  shows "implements failing (bolt_rel B P cont) a (bind (bbUpdate B (on_tx f) (d, x)) (\<lambda>_ (d, x). Done () (d, g x))) (Done () a')"
proof -
  have "post (\<lambda>_ (d', y). y = x \<and> on_disk P a' (cont (bbView B d'))) (\<lambda>_ (d', y). failing \<and> y = x \<and> cont (bbView B d') = cont (bbView B d))
      (\<lambda>_. False) (bbUpdate B (on_tx f) (d, x))"
    by (rule update_tx [OF ok refl]) (rule f)
  then show ?thesis
    using rel x' by (cases "bbUpdate B (on_tx f) (d, x)") (auto simp: implements_def bolt_rel_def)
qed

section \<open>Reading what is stored\<close>

lemma bolt_rel_parts:
  assumes "bolt_rel B P cont (d, x) a"
  obtains log meta where "cont (bbView B d) bucketLog = Some log" "cont (bbView B d) bucketMeta = Some meta"
    "holds_entries P (aBase a) (aEnts a) log" "holds_meta P a meta" "awf a" "in_memory a x"
  using assms unfolding bolt_rel_def on_disk_def by auto

lemma bolt_load:
  assumes "bbolt_ok failing B cont" "bolt_rel B P cont s a"
  shows "Bolt_LoadSnapshot B P s = Ok (aSnap a)" "Bolt_InitialState B P s = Ok (aHard a, aSnap a)"
proof -
  obtain d x where s: "s = (d, x)" by (cases s)
  obtain log meta where m: "cont (bbView B d) bucketMeta = Some meta" "holds_meta P a meta" "in_memory a x"
    using assms(2) unfolding s by (rule bolt_rel_parts)
  then show load: "Bolt_LoadSnapshot B P s = Ok (aSnap a)"
    by (auto simp: Bolt_LoadSnapshot_def s bbolt_reads(2) [OF assms(1) m(1)] holds_meta_def split: option.splits)
  show "Bolt_InitialState B P s = Ok (aHard a, aSnap a)"
    using m(3) load by (simp add: Bolt_InitialState_def s in_memory_def)
qed

lemma bolt_get:
  assumes ok: "bbolt_ok failing B cont" and rel: "bolt_rel B P cont s a"
  shows "Bolt_GetEntry B P i s = a_get (unat i) a"
proof -
  obtain d x where s: "s = (d, x)" by (cases s)
  obtain log meta where m: "cont (bbView B d) bucketLog = Some log" "holds_entries P (aBase a) (aEnts a) log" "in_memory a x"
    using rel unfolding s by (rule bolt_rel_parts)
  have "Bolt_GetEntry B P i s = Ok (aEnts a ! (unat i - aBase a - 1))" if i: "aBase a + 1 \<le> unat i" "unat i \<le> aLast a"
  proof -
    obtain raw where "log (key_of (unat i)) = Some raw" "UnmarshalEntry (plUnmarshalEntry P) raw = Ok (aEnts a ! (unat i - aBase a - 1))"
      using holds_entry [OF m(2) i(1)] i(2) by (auto simp: aLast_def)
    then show ?thesis
      using i m(3) by (simp add: Bolt_GetEntry_def s bbolt_reads(2) [OF ok m(1)] encodeIndex_key in_memory_def word_less_nat_alt)
  qed
  moreover have "Bolt_GetEntry B P i s = Err ErrCompacted" if "unat i < aBase a + 1"
    using that m(3) by (simp add: Bolt_GetEntry_def s in_memory_def word_less_nat_alt)
  moreover have "Bolt_GetEntry B P i s = Err ErrUnavailable" if "aBase a + 1 \<le> unat i" "aLast a < unat i"
    using that m(3) by (simp add: Bolt_GetEntry_def s in_memory_def word_less_nat_alt)
  ultimately show ?thesis by (auto simp: a_get_def not_less)
qed

lemma bolt_term:
  assumes ok: "bbolt_ok failing B cont" and rel: "bolt_rel B P cont s a" and "i \<noteq> 0"
  shows "Bolt_Term B P i s = a_term (unat i) a"
proof -
  have mem: "in_memory a (snd s)" using rel by (simp add: bolt_rel_def)
  show ?thesis
  proof (cases "unat i = aBase a")
    case True
    then have "i = bFloorIndex (snd s)" using mem by (simp add: in_memory_def uint64_eq_iff)
    then show ?thesis using True mem assms(3) by (auto simp: Bolt_Term_def a_term_def in_memory_def aLast_def uint64_pos_iff)
  next
    case False
    then have "i \<noteq> bFloorIndex (snd s)" using mem by (auto simp: in_memory_def)
    then show ?thesis using False by (auto simp: Bolt_Term_def bolt_get [OF ok rel] a_get_def a_term_def)
  qed
qed

lemma bolt_entries:
  assumes ok: "bbolt_ok failing B cont" and rel: "bolt_rel B P cont s a"
  shows "Bolt_Entries B P lo hi s = a_entries (unat lo) (unat hi) a"
proof -
  obtain d x where s: "s = (d, x)" by (cases s)
  obtain log meta where m: "cont (bbView B d) bucketLog = Some log" "holds_entries P (aBase a) (aEnts a) log" "awf a" "in_memory a x"
    using rel unfolding s by (rule bolt_rel_parts)
  obtain past where top: "past = aBase a + 1 + length (aEnts a)" by simp
  then have past: "past < 2 ^ 64" "aLast a + 1 = past" using m(3) by (simp_all add: awf_def aLast_def)
  have lo: "lo < bFirst x \<longleftrightarrow> unat lo < aBase a + 1" "bLast x + 1 < hi \<longleftrightarrow> past < unat hi" "hi \<le> lo \<longleftrightarrow> unat hi \<le> unat lo"
    using m(4) past by (simp_all add: in_memory_def word_less_nat_alt word_le_nat_alt unat_Suc_uint64)
  show ?thesis
  proof (cases "hi \<le> lo \<or> lo < bFirst x \<or> bLast x + 1 < hi")
    case True
    then show ?thesis using lo past(2) by (auto simp: Bolt_Entries_def s a_entries_def)
  next
    case False
    then have r: "aBase a + 1 \<le> unat lo" "unat lo \<le> unat hi" "unat hi \<le> past" using lo by auto
    have "bbSeek B (bbView B d) bucketLog (encodeIndex lo) = map (\<lambda>n. (key_of n, the (log (key_of n)))) [unat lo ..< past]"
      using bbolt_reads(3) [OF ok m(1), of "encodeIndex lo"] keys_from [OF m(2) top past(1) r(1)]
      by (simp add: encodeIndex_key sorted_keys [OF past(1)] comp_def del: upt_Suc)
    then show ?thesis
      using False r lo past scan_entries_stored [OF m(2) top past(1) r, of "[]"]
      by (auto simp: Bolt_Entries_def s a_entries_def)
  qed
qed

section \<open>Writing and compacting\<close>

lemma put_meta:
  assumes "bbolt_ok failing B cont" "cont t bucketMeta = Some meta"
  shows "post (\<lambda>_ t'. cont t' = (cont t)(bucketMeta := Some (meta(k := Some v)))) (\<lambda>_ _. failing) (\<lambda>_. False) (bbPut B bucketMeta k v t)"
  by (rule bbolt_writes(1) [OF assms(1)]) (use assms(2) in \<open>simp add: fun_upd_idem\<close>)

lemma on_disk_meta:
  assumes "c bucketLog = Some log" "holds_entries P (aBase a') (aEnts a') log" "holds_meta P a' meta" "awf a'"
  shows "on_disk P a' (c(bucketMeta := Some meta))"
  using assms unfolding on_disk_def by simp

lemma HardState_stored: "UnmarshalHardState (MarshalHardState hs) = Ok hs"
  by (simp add: UnmarshalHardState_def MarshalHardState_def appendUvarint_eq)

lemma bolt_set_hard:
  assumes ok: "bbolt_ok failing B cont" and rel: "bolt_rel B P cont s a"
  shows "implements failing (bolt_rel B P cont) a (Bolt_SetHardState B hs s) (a_set_hard hs a)"
proof -
  obtain d x where s: "s = (d, x)" by (cases s)
  obtain log meta where m: "cont (bbView B d) bucketLog = Some log" "cont (bbView B d) bucketMeta = Some meta"
    "holds_entries P (aBase a) (aEnts a) log" "holds_meta P a meta" "awf a" "in_memory a x"
    using rel unfolding s by (rule bolt_rel_parts)
  let ?a = "a\<lparr>aHard := hs\<rparr>" and ?meta = "meta(keyHardState := Some (MarshalHardState hs))"
  have hard: "bHardState x = aHard a" using m(6) by (simp add: in_memory_def)
  show ?thesis
  proof (cases "hsTerm hs < hsTerm (aHard a)")
    case True
    then show ?thesis using rel hard by (simp add: Bolt_SetHardState_def a_set_hard_def s implements_def)
  next
    case False
    have "holds_meta P ?a ?meta" using m(4) by (auto simp: holds_meta_def HardState_stored split: option.splits)
    then have "on_disk P ?a ((cont (bbView B d))(bucketMeta := Some ?meta))"
      using m(1,3,5) by (intro on_disk_meta) (simp_all add: awf_def aLast_def)
    then have "post (\<lambda>_ t'. on_disk P ?a (cont t')) (\<lambda>_ _. failing) (\<lambda>_. False) (bbPut B bucketMeta keyHardState (MarshalHardState hs) t)"
      if t: "cont t = cont (bbView B d)" for t
      using post_mono [OF put_meta [OF ok, of t meta keyHardState "MarshalHardState hs"]] m(2) t by (metis (no_types, lifting))
    moreover have "in_memory ?a (x\<lparr>bHardState := hs\<rparr>)" using m(6) by (simp add: in_memory_def aLast_def)
    ultimately show ?thesis
      using implements_update [OF ok rel [unfolded s], of ?a _ "\<lambda>x. x\<lparr>bHardState := hs\<rparr>"] False hard
      by (simp add: Bolt_SetHardState_def a_set_hard_def s)
  qed
qed



section \<open>Snapshots\<close>

lemma bbolt_buckets:
  assumes ok: "bbolt_ok failing B cont"
  shows "cont t b = Some m \<Longrightarrow> post (\<lambda>_ t'. cont t' = (cont t)(b := None)) (\<lambda>e _. failing \<and> e \<noteq> ErrBucketNotFound) (\<lambda>_. False) (bbDeleteBucket B b t)"
    and "post (\<lambda>_ t'. cont t' = (if cont t b = None then (cont t)(b := Some Map.empty) else cont t)) (\<lambda>_ _. failing) (\<lambda>_. False) (bbCreateBucket B b t)"
proof -
  have laws: "writes_exactly failing B cont" using ok by (simp add: bbolt_ok_def)
  show "post (\<lambda>_ t'. cont t' = (if cont t b = None then (cont t)(b := Some Map.empty) else cont t)) (\<lambda>_ _. failing) (\<lambda>_. False) (bbCreateBucket B b t)"
    using laws unfolding writes_exactly_def by blast
  assume "cont t b = Some m"
  then have "post (\<lambda>_ t'. cont t' = (cont t)(b := None)) (\<lambda>_ _. failing) (\<lambda>_. False) (bbDeleteBucket B b t)"
    "\<forall>t'. bbDeleteBucket B b t \<noteq> Fail ErrBucketNotFound t'"
    using laws unfolding writes_exactly_def by blast+
  then show "post (\<lambda>_ t'. cont t' = (cont t)(b := None)) (\<lambda>e _. failing \<and> e \<noteq> ErrBucketNotFound) (\<lambda>_. False) (bbDeleteBucket B b t)"
    by (cases "bbDeleteBucket B b t") auto
qed

lemma replace_log_post:
  assumes ok: "bbolt_ok failing B cont" and m: "cont t bucketLog = Some log" "cont t bucketMeta = Some meta"
  shows "post (\<lambda>_ t'. cont t' = (cont t)(bucketMeta := Some (meta(keyFloor := Some (encodeFloor (LastIncludedIndex sn) (LastIncludedTerm sn)))),
      bucketLog := Some Map.empty)) (\<lambda>_ _. failing) (\<lambda>_. False) (replace_log B sn t)"
proof -
  let ?c = "(cont t)(bucketMeta := Some (meta(keyFloor := Some (encodeFloor (LastIncludedIndex sn) (LastIncludedTerm sn)))))"
  have create: "post (\<lambda>_ t'. cont t' = ?c(bucketLog := Some Map.empty)) (\<lambda>_ _. failing) (\<lambda>_. False) (bbCreateBucket B bucketLog t')"
    if "cont t' = ?c(bucketLog := None)" for t'
    using bbolt_buckets(2) [OF ok, of t' bucketLog] unfolding that by simp
  have drop: "post (\<lambda>_ t'. cont t' = ?c(bucketLog := Some Map.empty)) (\<lambda>_ _. failing) (\<lambda>_. False)
      (bind (case bbDeleteBucket B bucketLog t' of Fail e t' \<Rightarrow> if e = ErrBucketNotFound then Done () t' else Fail e t' | r \<Rightarrow> r)
        (\<lambda>_ t. bbCreateBucket B bucketLog t))" if t': "cont t' = ?c" for t'
  proof -
    have "cont t' bucketLog = Some log" using t' m(1) by simp
    note gone = bbolt_buckets(1) [OF ok this, unfolded t']
    show ?thesis
    proof (cases "bbDeleteBucket B bucketLog t'")
      case (Done u t'')
      then have "cont t'' = ?c(bucketLog := None)" using gone by (simp only: post.simps)
      from create [OF this] show ?thesis by (simp add: Done)
    qed (use gone in simp_all)
  qed
  show ?thesis
    unfolding replace_log_def post_bind_iff [of _ _ _ "bbPut B bucketMeta k v t" for k v]
    by (rule post_mono [OF put_meta [OF ok m(2)]]) (erule drop, assumption+)
qed

lemma Snapshot_stored:
  assumes "proto_ok P" "storable_snapshot failing P sn" "MarshalSnapshot (plMarshalSnapshot P) sn = Ok raw"
  shows "UnmarshalSnapshot (plUnmarshalSnapshot P) raw = Ok sn"
  using assms Snapshot_proto [of sn]
  by (simp add: proto_ok_def lossless_def storable_snapshot_def MarshalSnapshot_def UnmarshalSnapshot_def)

lemma save_tx:
  assumes ok: "bbolt_ok failing B cont" and m: "cont t bucketLog = Some log" "cont t bucketMeta = Some meta"
    "holds_entries P (aBase a) (aEnts a) log" "holds_meta P a meta" "awf a"
    and raw: "UnmarshalSnapshot (plUnmarshalSnapshot P) raw = Ok sn" and i: "unat (LastIncludedIndex sn) + 1 < 2 ^ 64"
  shows "post (\<lambda>_ t'. on_disk P (if replaced then a\<lparr>aSnap := sn, aBase := unat (LastIncludedIndex sn), aBaseTerm := LastIncludedTerm sn, aEnts := []\<rparr>
      else a\<lparr>aSnap := sn\<rparr>) (cont t')) (\<lambda>_ _. failing) (\<lambda>_. False)
    (bind (bbPut B bucketMeta keySnapshot raw t) (\<lambda>_ t. if \<not> replaced then Done () t else replace_log B sn t))"
    (is "post (\<lambda>_ t'. on_disk P (if replaced then ?r else ?k) (cont t')) _ _ _")
proof -
  let ?meta = "meta(keySnapshot := Some raw)"
  let ?floor = "?meta(keyFloor := Some (encodeFloor (LastIncludedIndex sn) (LastIncludedTerm sn)))"
  have kept: "on_disk P ?k ((cont t)(bucketMeta := Some ?meta))"
    using m raw by (auto simp: on_disk_def holds_meta_def awf_def aLast_def split: option.splits)
  have gone: "on_disk P ?r ((cont t)(bucketMeta := Some ?floor, bucketLog := Some Map.empty))"
    using m raw awf_empty [OF i] by (auto simp: on_disk_def holds_meta_def holds_entries_def split: option.splits)
  have step: "post (\<lambda>_ t'. on_disk P (if replaced then ?r else ?k) (cont t')) (\<lambda>_ _. failing) (\<lambda>_. False)
      (if \<not> replaced then Done () t' else replace_log B sn t')" if t': "cont t' = (cont t)(bucketMeta := Some ?meta)" for t'
  proof (cases replaced)
    case True
    have "cont t' bucketLog = Some log" "cont t' bucketMeta = Some ?meta" using t' m(1) by simp_all
    note replace_log_post [OF ok this, of sn, unfolded t' fun_upd_upd]
    then show ?thesis using True gone by (auto elim: post_mono)
  next
    case False
    then show ?thesis using kept t' by simp
  qed
  show ?thesis
    unfolding post_bind_iff by (rule post_mono [OF put_meta [OF ok m(2)]]) (erule step, assumption+)
qed

lemma bolt_save:
  assumes ok: "bbolt_ok failing B cont" and P: "proto_ok P" and rel: "bolt_rel B P cont s a"
    and sn: "storable_snapshot failing P sn" and i: "unat (LastIncludedIndex sn) + 1 < 2 ^ 64"
  shows "implements failing (bolt_rel B P cont) a (Bolt_SaveSnapshot B P sn s) (a_save sn a)"
proof -
  obtain d x where s: "s = (d, x)" by (cases s)
  obtain log meta where m: "cont (bbView B d) bucketLog = Some log" "cont (bbView B d) bucketMeta = Some meta"
    "holds_entries P (aBase a) (aEnts a) log" "holds_meta P a meta" "awf a" "in_memory a x"
    using rel unfolding s by (rule bolt_rel_parts)
  let ?i = "LastIncludedIndex sn"
  define replaced where "replaced = (a_term (unat ?i) a \<noteq> Ok (LastIncludedTerm sn))"
  have snap: "bSnapIndex x = LastIncludedIndex (aSnap a)" using m(6) by (simp add: in_memory_def)
  show ?thesis
  proof (cases "?i \<le> LastIncludedIndex (aSnap a)")
    case True
    then show ?thesis using rel snap by (simp add: Bolt_SaveSnapshot_def a_save_def s implements_def)
  next
    case fresh: False
    then have "?i \<noteq> 0" by auto
    then have "Bolt_Term B P ?i (d, x) = a_term (unat ?i) a" using bolt_term [OF ok rel] by (simp add: s)
    moreover have "bLast x < ?i \<longleftrightarrow> aLast a < unat ?i" using m(6) by (simp add: in_memory_def word_less_nat_alt)
    ultimately have flag: "(if bLast x < ?i then Done True (d, x)
        else (case Bolt_Term B P ?i (d, x) of Ok trm \<Rightarrow> Done (trm \<noteq> LastIncludedTerm sn) (d, x) | Err _ \<Rightarrow> Done True (d, x) | Crash \<Rightarrow> Panic (d, x)))
        = Done replaced (d, x)"
      by (auto simp: replaced_def a_term_def)
    show ?thesis
    proof (cases "MarshalSnapshot (plMarshalSnapshot P) sn")
      case (Ok raw)
      let ?a = "if replaced then a\<lparr>aSnap := sn, aBase := unat ?i, aBaseTerm := LastIncludedTerm sn, aEnts := []\<rparr> else a\<lparr>aSnap := sn\<rparr>"
      have "post (\<lambda>_ t'. on_disk P ?a (cont t')) (\<lambda>_ _. failing) (\<lambda>_. False)
          (bind (bbPut B bucketMeta keySnapshot raw t) (\<lambda>_ t. if \<not> replaced then Done () t else replace_log B sn t))"
        if "cont t = cont (bbView B d)" for t
        by (rule save_tx [OF ok _ _ m(3-5) Snapshot_stored [OF P sn Ok] i]) (use that m(1,2) in simp_all)
      moreover have "in_memory ?a (snapshot_fields sn replaced x)"
        using m(6) i by (simp add: in_memory_def aLast_def unat_Suc_uint64 snapshot_fields_def Let_def)
      ultimately have "implements failing (bolt_rel B P cont) a (bind (bbUpdate B (on_tx (\<lambda>t.
          bind (bbPut B bucketMeta keySnapshot raw t) (\<lambda>_ t. if \<not> replaced then Done () t else replace_log B sn t))) (d, x))
          (\<lambda>_ (d, x). Done () (d, snapshot_fields sn replaced x))) (Done () ?a)"
        by (rule implements_update [OF ok rel [unfolded s], of ?a _ "snapshot_fields sn replaced"])
      moreover have "a_save sn a = Done () ?a" using fresh by (simp add: a_save_def replaced_def)
      moreover have "Bolt_SaveSnapshot B P sn s = bind (bbUpdate B (on_tx (\<lambda>t.
          bind (bbPut B bucketMeta keySnapshot raw t) (\<lambda>_ t. if \<not> replaced then Done () t else replace_log B sn t))) (d, x))
          (\<lambda>_ (d, x). Done () (d, snapshot_fields sn replaced x))"
        using fresh snap Ok flag by (simp add: Bolt_SaveSnapshot_def s)
      ultimately show ?thesis by (simp only:)
    qed (use rel sn fresh snap in \<open>simp_all add: Bolt_SaveSnapshot_def s implements_def storable_snapshot_def marshals_def\<close>)
  qed
qed

section \<open>Appending\<close>

lemma append_tx:
  assumes ok: "bbolt_ok failing B cont" and P: "proto_ok P" and m: "cont t bucketLog = Some log" "cont t bucketMeta = Some meta"
    "holds_entries P (aBase a) (aEnts a) log" "holds_meta P a meta" "awf a"
    and g: "aBase a + 1 \<le> unat g" "unat g \<le> aLast a + 1" "unat g + length fs \<le> 2 ^ 64"
    and fs: "\<forall>i < length fs. unat (eIndex (fs ! i)) = unat g + i" "storable_entries failing P fs"
    and a': "a' = a\<lparr>aEnts := take (unat g - aBase a - 1) (aEnts a) @ fs\<rparr>" "awf a'"
    and cut: "cursor_continues B cont \<or> aLast a < unat g"
  shows "post (\<lambda>_ t'. on_disk P a' (cont t')) (\<lambda>_ _. failing) (\<lambda>_. False) (write_suffix B P g fs t)"
proof -
  obtain past where past: "past = aBase a + 1 + length (aEnts a)" by simp
  then have top: "past < 2 ^ 64" "unat g \<le> past" using m(5) g(2) by (simp_all add: awf_def aLast_def)
  have t: "cont t = (cont t)(bucketLog := Some log)" using m(1) by (simp add: fun_upd_idem)
  have cut': "cursor_continues B cont \<or> unat g = past" using cut past g(2) by (auto simp: aLast_def)
  have "holds_meta P a' meta" using m(4) by (auto simp: holds_meta_def a'(1) split: option.splits)
  then have "on_disk P a' ((cont t)(bucketLog := Some log'))"
    if "holds_entries P (aBase a) (take (unat g - aBase a - 1) (aEnts a) @ fs) log'" for log'
    using that a' m(2) unfolding on_disk_def by simp
  then show ?thesis
    using write_suffix_post [OF ok P t m(3) past top(1) g(1) top(2) g(3) fs cut'] by (auto elim!: post_mono)
qed

lemma bolt_append:
  assumes ok: "bbolt_ok failing B cont" and P: "proto_ok P" and rel: "bolt_rel B P cont s a"
    and fits: "fits es" and es: "storable_entries failing P es"
    and cut: "cursor_continues B cont \<or> aLast a < unat (eIndex (hd es))"
  shows "implements failing (bolt_rel B P cont) a (Bolt_AppendEntries B P es s) (a_append es a)"
proof -
  obtain d x where s: "s = (d, x)" by (cases s)
  obtain log meta where m: "cont (bbView B d) bucketLog = Some log" "cont (bbView B d) bucketMeta = Some meta"
    "holds_entries P (aBase a) (aEnts a) log" "holds_meta P a meta" "awf a" "in_memory a x"
    using rel unfolding s by (rule bolt_rel_parts)
  have b: "unat (bFloorIndex x) = aBase a" "unat (bFirst x) = aBase a + 1" "unat (bLast x + 1) = aLast a + 1" "aBase a + 1 < 2 ^ 64"
    using m(5,6) by (simp_all add: in_memory_def awf_def aLast_def unat_Suc_uint64)
  show ?thesis
  proof (cases "es \<noteq> [] \<and> checkContiguous es = Ok () \<and> \<not> eIndex (last es) \<le> bFloorIndex x")
    case False
    then show ?thesis
      using contiguous_cases [of es] last_contiguous [OF _ fits] rel b(1)
      by (auto simp: Bolt_AppendEntries_def a_append_def uint64_le_iff Let_def implements_def s)
  next
    case True
    then have e: "es \<noteq> []" "checkContiguous es = Ok ()" "\<not> eIndex (last es) \<le> bFloorIndex x" by auto
    define f where "f = unat (eIndex (hd es))"
    define g where "g = max f (aBase a + 1)"
    have fg: "f \<le> g" "aBase a + 1 \<le> g" by (simp_all add: g_def)
    have "unat (bFloorIndex x) + 1 < 2 ^ 64" using b(1,4) by simp
    note trim = append_trim [OF fits e(2,1,3) this refl, unfolded b(1), folded f_def, folded g_def]
    have past: "aBase a + 1 < f + length es" "f + length es < 2 ^ 64"
      using e fits last_contiguous [OF e(2) fits e(1)] b(1) by (auto simp: f_def uint64_le_iff fits_def)
    have first: "(if eIndex (hd es) \<le> bFloorIndex x then rbind (at (drop (g - f) es) 0) (\<lambda>e. Ok (eIndex e)) else Ok (eIndex (hd es)))
        = Ok (eIndex (es ! (g - f)))"
      using trim(2) e(1) b(1) by (auto simp: at_def g_def f_def uint64_le_iff hd_conv_nth)
    have start: "Bolt_AppendEntries B P es s =
        (if bLast x + 1 < eIndex (es ! (g - f)) then Fail (ErrMsg ''append leaves a gap'') (d, x)
         else bind (bbUpdate B (on_tx (write_suffix B P (eIndex (es ! (g - f))) (drop (g - f) es))) (d, x))
                (\<lambda>_ (d, x). Done () (d, append_fields (eIndex (last es)) x)))"
      using e by (simp add: Bolt_AppendEntries_def s Let_def trim(1) first split del: if_split cong: if_cong)
    let ?a = "a\<lparr>aEnts := take (g - aBase a - 1) (aEnts a) @ drop (g - f) es\<rparr>"
    have spec: "a_append es a = (if aLast a + 1 < g then Fail (ErrMsg ''append leaves a gap'') a else Done () ?a)"
      using e past by (simp add: a_append_def f_def [symmetric] g_def Let_def)
    have gap: "bLast x + 1 < eIndex (es ! (g - f)) \<longleftrightarrow> aLast a + 1 < g" using b(3) trim(3) by (simp add: word_less_nat_alt)
    show ?thesis
    proof (cases "aLast a + 1 < g")
      case True
      then show ?thesis using rel start spec gap by (simp add: implements_def s)
    next
      case False
      have "unat (eIndex (drop (g - f) es ! i)) = g + i" if "i < length (drop (g - f) es)" for i
        using contiguous_unat [OF e(2) _ fits, of "g - f + i"] that fg(1) f_def by simp
      moreover have "cursor_continues B cont \<or> aLast a < g" using cut fg(1) by (auto simp: f_def)
      ultimately have "post (\<lambda>_ t'. on_disk P ?a (cont t')) (\<lambda>_ _. failing) (\<lambda>_. False) (write_suffix B P (eIndex (es ! (g - f))) (drop (g - f) es) t)"
        if "cont t = cont (bbView B d)" for t
        using that m(1,2) False fg past es trim(3) a_append_wf [OF m(5) fits, of "()" ?a] spec trim(2)
        by (intro append_tx [OF ok P _ _ m(3-5)]) (auto simp: storable_entries_def dest: in_set_dropD)
      moreover have "in_memory ?a (append_fields (eIndex (last es)) x)"
        using m(6) b(1,2) fg past False last_contiguous [OF e(2) fits e(1)] trim(2)
        by (auto simp: in_memory_def append_fields_def Let_def aLast_def f_def [symmetric] word_less_nat_alt)
      ultimately show ?thesis
        using implements_update [OF ok rel [unfolded s], of ?a _ "append_fields (eIndex (last es))"] start spec gap False by simp
    qed
  qed
qed

section \<open>Failed writes\<close>

lemma failed_update:
  assumes ok: "bbolt_ok failing B cont" and "bbUpdate B (on_tx f) (d, x) = Fail e (d', x')"
  shows "x' = x \<and> cont (bbView B d') = cont (bbView B d)"
proof -
  have "updates_atomically failing B cont" using ok by (simp add: bbolt_ok_def)
  from this [unfolded updates_atomically_def, rule_format, of "on_tx f" d x]
  show ?thesis
  proof (elim disjE exE conjE)
    fix t assume "case on_tx f (t, x) of
              Done _ (t', x') \<Rightarrow>
                (\<exists>d'. bbUpdate B (on_tx f) (d, x) = Done () (d', x') \<and> cont (bbView B d') = cont t') \<or>
                failing \<and> (\<exists>e d'. bbUpdate B (on_tx f) (d, x) = Fail e (d', x') \<and> cont (bbView B d') = cont (bbView B d))
            | Fail e (t', x') \<Rightarrow> \<exists>d'. bbUpdate B (on_tx f) (d, x) = Fail e (d', x') \<and> cont (bbView B d') = cont (bbView B d)
            | Panic (t', x') \<Rightarrow> \<exists>d'. bbUpdate B (on_tx f) (d, x) = Panic (d', x') \<and> cont (bbView B d') = cont (bbView B d)"
    with assms(2) show ?thesis by (cases "f t") auto
  qed (use assms(2) in auto)
qed

lemma bolt_failed:
  assumes ok: "bbolt_ok failing B cont" and rel: "bolt_rel B P cont s a"
    and "Bolt_AppendEntries B P fs s = Fail e s' \<or> Bolt_Compact B P j s = Fail e s'"
  shows "bolt_rel B P cont s' a"
proof -
  have upd: "bolt_rel B P cont s1 a" if "bbUpdate B (on_tx f) s = Fail e s1" for f s1
    using failed_update [OF ok, of f "fst s" "snd s" e "fst s1" "snd s1"] that rel by (simp add: bolt_rel_def)
  show ?thesis
    using assms(3) rel
    by (cases s'; cases s)
      (auto simp: Bolt_AppendEntries_def Bolt_Compact_def Let_def bind_Fail_iff split: if_splits dest!: lift_Fail lift_Done intro: upd)
qed

section \<open>Opening a database\<close>

lemma update_fields:
  assumes ok: "bbolt_ok failing B cont" and c: "cont (bbView B d) = c"
    and f: "\<And>t. cont t = c \<Longrightarrow> post (\<lambda>_ (t', x'). Q (cont t') x') (\<lambda>_ _. failing) (\<lambda>_. False) (f (t, x))"
  shows "post (\<lambda>_ (d', x'). Q (cont (bbView B d')) x') (\<lambda>_ (d', _). failing \<and> cont (bbView B d') = c) (\<lambda>_. False) (bbUpdate B f (d, x))"
proof -
  have "updates_atomically failing B cont" using ok by (simp add: bbolt_ok_def)
  from this [unfolded updates_atomically_def, rule_format, of f d x]
  show ?thesis
  proof (elim disjE exE conjE)
    fix t assume t: "cont t = cont (bbView B d)"
      and r: "case f (t, x) of
              Done _ (t', x') \<Rightarrow>
                (\<exists>d'. bbUpdate B f (d, x) = Done () (d', x') \<and> cont (bbView B d') = cont t') \<or>
                failing \<and> (\<exists>e d'. bbUpdate B f (d, x) = Fail e (d', x') \<and> cont (bbView B d') = cont (bbView B d))
            | Fail e (t', x') \<Rightarrow> \<exists>d'. bbUpdate B f (d, x) = Fail e (d', x') \<and> cont (bbView B d') = cont (bbView B d)
            | Panic (t', x') \<Rightarrow> \<exists>d'. bbUpdate B f (d, x) = Panic (d', x') \<and> cont (bbView B d') = cont (bbView B d)"
    have "post (\<lambda>_ (t', x'). Q (cont t') x') (\<lambda>_ _. failing) (\<lambda>_. False) (f (t, x))" using f t c by simp
    with r c show ?thesis by (cases "f (t, x)") auto
  qed (use c in auto)
qed

lemma load_meta_stored:
  assumes ok: "bbolt_ok failing B cont" and m: "cont t bucketMeta = Some meta" "holds_meta P a meta"
  shows "load_meta B P (t, zeroFields) = Done () (t, \<lparr>bFirst = 0, bLast = 0, bSnapIndex = LastIncludedIndex (aSnap a),
    bSnapTerm = LastIncludedTerm (aSnap a), bFloorIndex = of_nat (aBase a), bFloorTerm = aBaseTerm a, bHardState = aHard a\<rparr>)"
proof -
  have zero: "LastIncludedIndex zeroSnapshot = 0" "LastIncludedTerm zeroSnapshot = 0" by (simp_all add: zeroSnapshot_def)
  show ?thesis
    using m(2) unfolding load_meta_def holds_meta_def
    by (simp add: bbolt_reads(2) [OF ok m(1)] zeroFields_def split: option.splits) (simp_all add: zero)
qed

lemma last_key:
  assumes "past < 2 ^ 64" "b < past"
  shows "Max (key_of ` {b ..< past}) = key_of (past - 1)"
  using assms by (intro Max_eqI) (auto simp: key_of_le)

lemma load_bounds_stored:
  assumes ok: "bbolt_ok failing B cont" and m: "cont t bucketLog = Some log" "holds_entries P (aBase a) (aEnts a) log" "awf a"
    and x: "bFloorIndex x = of_nat (aBase a)"
  shows "load_bounds B (t, x) = Done () (t, x\<lparr>bFirst := of_nat (aBase a + 1), bLast := of_nat (aLast a)\<rparr>)"
proof -
  obtain past where past: "past = aBase a + 1 + length (aEnts a)" "past < 2 ^ 64" "aLast a = past - 1"
    using m(3) by (simp add: awf_def aLast_def)
  have dom: "dom log = key_of ` {aBase a + 1 ..< past}" using m(2) past(1) by (simp add: holds_entries_def)
  have first: "bbFirst B t bucketLog = map (\<lambda>n. (key_of n, the (log (key_of n)))) [aBase a + 1 ..< past]"
    using bbolt_reads(4) [OF ok m(1)] by (simp add: dom sorted_keys [OF past(2)] comp_def del: upt_Suc)
  show ?thesis
  proof (cases "aEnts a = []")
    case True
    then have "bbLast B t bucketLog = None" "bbFirst B t bucketLog = []"
      using bbolt_reads(5) [OF ok m(1)] first past(1) dom by simp_all
    then show ?thesis using True x by (simp add: load_bounds_def aLast_def add.commute)
  next
    case False
    then have lt: "aBase a + 1 < past" using past(1) by simp
    then have "bbLast B t bucketLog = Some (key_of (past - 1), the (log (key_of (past - 1))))"
      using bbolt_reads(5) [OF ok m(1)] dom last_key [OF past(2) lt] by auto
    moreover have "bbFirst B t bucketLog = (key_of (aBase a + 1), the (log (key_of (aBase a + 1)))) #
        map (\<lambda>n. (key_of n, the (log (key_of n)))) [Suc (aBase a + 1) ..< past]"
      unfolding first using lt by (subst upt_conv_Cons) simp_all
    ultimately show ?thesis by (simp add: load_bounds_def past(3))
  qed
qed

lemma in_memory_loaded:
  assumes "awf a"
  shows "in_memory a \<lparr>bFirst = of_nat (aBase a + 1), bLast = of_nat (aLast a), bSnapIndex = LastIncludedIndex (aSnap a),
    bSnapTerm = LastIncludedTerm (aSnap a), bFloorIndex = of_nat (aBase a), bFloorTerm = aBaseTerm a, bHardState = aHard a\<rparr>"
proof -
  have "aBase a + 1 < 2 ^ 64" "aLast a < 2 ^ 64" using assms by (simp_all add: awf_def aLast_def)
  then show ?thesis
    unfolding in_memory_def using unat_of_nat_uint64 [of "aBase a + 1"] unat_of_nat_uint64 [of "aBase a"] unat_of_nat_uint64 [of "aLast a"]
    by simp
qed

definition emptyLog :: astore where
  "emptyLog = \<lparr>aHard = zeroHardState, aSnap = zeroSnapshot, aBase = 0, aBaseTerm = 0, aEnts = []\<rparr>"

definition created :: "buckets \<Rightarrow> buckets" where
  "created c = (let c = (if c bucketLog = None then c(bucketLog := Some Map.empty) else c)
                in if c bucketMeta = None then c(bucketMeta := Some Map.empty) else c)"

lemma created_disk:
  "on_disk P a c \<Longrightarrow> created c = c"
  "on_disk P emptyLog (created Map.empty)"
  by (auto simp: on_disk_def created_def emptyLog_def holds_entries_def holds_meta_def awf_def aLast_def)

lemma bolt_open:
  assumes ok: "bbolt_ok failing B cont" and disk: "on_disk P a (created (cont (bbView B d)))"
  shows "post (\<lambda>_ s. bolt_rel B P cont s a) (\<lambda>_ (d', _). failing \<and> cont (bbView B d') = cont (bbView B d)) (\<lambda>_. False) (Bolt_Open B P d)"
proof -
  let ?c = "cont (bbView B d)"
  obtain log meta where m: "created ?c bucketLog = Some log" "created ?c bucketMeta = Some meta"
    "holds_entries P (aBase a) (aEnts a) log" "holds_meta P a meta" "awf a"
    using disk unfolding on_disk_def by auto
  have load: "post (\<lambda>_ (t', x'). on_disk P a (cont t') \<and> in_memory a x') (\<lambda>_ _. failing) (\<lambda>_. False)
      (bind (load_meta B P (t, zeroFields)) (\<lambda>_ s. load_bounds B s))" if t: "cont t = created ?c" for t
  proof -
    have l: "cont t bucketLog = Some log" "cont t bucketMeta = Some meta" using m(1,2) t by simp_all
    show ?thesis
      using load_meta_stored [OF ok l(2) m(4)] load_bounds_stored [OF ok l(1) m(3,5)] in_memory_loaded [OF m(5)] disk t by simp
  qed
  have "post (\<lambda>_ (d', x'). on_disk P a (cont (bbView B d')) \<and> in_memory a x') (\<lambda>_ (d', _). failing \<and> cont (bbView B d') = ?c) (\<lambda>_. False)
      (Bolt_Open B P d)"
    unfolding Bolt_Open_def Bolt_init_def
  proof (rule update_fields [OF ok refl])
    fix t assume t: "cont t = ?c"
    show "post (\<lambda>_ (t', x'). on_disk P a (cont t') \<and> in_memory a x') (\<lambda>_ _. failing) (\<lambda>_. False)
       (bind (on_tx (bbCreateBucket B bucketLog) (t, zeroFields)) (\<lambda>_ s.
        bind (on_tx (bbCreateBucket B bucketMeta) s) (\<lambda>_ s. bind (load_meta B P s) (\<lambda>_ s. load_bounds B s))))"
      unfolding case_prod_conv post_bind_iff post_embed_iff
    proof (rule post_mono [OF bbolt_buckets(2) [OF ok, of t bucketLog]])
      fix u t1 assume t1: "cont t1 = (if cont t bucketLog = None then (cont t)(bucketLog := Some Map.empty) else cont t)"
      show "post (\<lambda>_ t2. post (\<lambda>_ s. post (\<lambda>_ (t', x'). on_disk P a (cont t') \<and> in_memory a x') (\<lambda>_ _. failing) (\<lambda>_. False) (load_bounds B s))
          (\<lambda>_ _. failing) (\<lambda>_. False) (load_meta B P (t2, zeroFields))) (\<lambda>_ _. failing) (\<lambda>_. False) (bbCreateBucket B bucketMeta t1)"
      proof (rule post_mono [OF bbolt_buckets(2) [OF ok, of t1 bucketMeta]])
        fix u t2 assume "cont t2 = (if cont t1 bucketMeta = None then (cont t1)(bucketMeta := Some Map.empty) else cont t1)"
        then have "cont t2 = created ?c" unfolding created_def Let_def t1 t .
        from load [OF this] show "post (\<lambda>_ s. post (\<lambda>_ (t', x'). on_disk P a (cont t') \<and> in_memory a x') (\<lambda>_ _. failing) (\<lambda>_. False) (load_bounds B s))
          (\<lambda>_ _. failing) (\<lambda>_. False) (load_meta B P (t2, zeroFields))" unfolding post_bind_iff .
      qed
    qed auto
  qed
  then show ?thesis by (rule post_mono) (auto simp: bolt_rel_def)
qed

section \<open>A database in memory\<close>

text \<open>A database that satisfies the laws and never fails: a finite map of finite maps.\<close>

type_synonym memdb = "(bytes, (bytes, bytes) fmap) fmap"

definition mem_contents :: "memdb \<Rightarrow> buckets" where
  "mem_contents t b = map_option fmlookup (fmlookup t b)"

definition mem_pairs :: "memdb \<Rightarrow> bytes \<Rightarrow> (bytes \<times> bytes) list" where
  "mem_pairs t b = (case fmlookup t b of None \<Rightarrow> [] | Some m \<Rightarrow> map (\<lambda>k. (k, the (fmlookup m k))) (sorted_list_of_fset (fmdom m)))"

definition mem_edit :: "((bytes, bytes) fmap \<Rightarrow> (bytes, bytes) fmap) \<Rightarrow> bytes \<Rightarrow> memdb \<Rightarrow> (unit, memdb) outcome" where
  "mem_edit f b t = (case fmlookup t b of None \<Rightarrow> Panic t | Some m \<Rightarrow> Done () (fmupd b (f m) t))"

definition mem_bbolt :: "(memdb, memdb) bbolt" where
  "mem_bbolt =
     \<lparr>bbUpdate = (\<lambda>f (d, x). case f (d, x) of
          Done _ (t, x) \<Rightarrow> Done () (t, x) | Fail e (t, x) \<Rightarrow> Fail e (d, x) | Panic (t, x) \<Rightarrow> Panic (d, x)),
      bbView = (\<lambda>d. d),
      bbGet = (\<lambda>t b k. case fmlookup t b of None \<Rightarrow> None | Some m \<Rightarrow> fmlookup m k),
      bbSeek = (\<lambda>t b k. filter (\<lambda>p. k \<le> fst p) (mem_pairs t b)),
      bbFirst = mem_pairs,
      bbLast = (\<lambda>t b. if mem_pairs t b = [] then None else Some (last (mem_pairs t b))),
      bbPut = (\<lambda>b k v. mem_edit (fmupd k v) b),
      bbDelete = (\<lambda>b c t. bind (mem_edit (fmdrop (fst (hd c))) b t) (\<lambda>_ t. Done (tl c) t)),
      bbCreateBucket = (\<lambda>b t. Done () (if fmlookup t b = None then fmupd b fmempty t else t)),
      bbDeleteBucket = (\<lambda>b t. if fmlookup t b = None then Fail ErrBucketNotFound t else Done () (fmdrop b t))\<rparr>"

lemma fmdom_dom: "fset (fmdom m) = dom (fmlookup m)"
  by (simp add: fmdom.rep_eq)

lemma sorted_last: "sorted xs \<Longrightarrow> y \<in> set xs \<Longrightarrow> y \<le> last xs"
  by (induction xs rule: rev_induct) (auto simp: sorted_append)

lemma mem_reads: "reads_in_order mem_bbolt mem_contents"
proof -
  have "finite (dom m) \<and> (\<forall>k. bbGet mem_bbolt t b k = m k) \<and>
      (\<forall>k. bbSeek mem_bbolt t b k = map (\<lambda>k. (k, the (m k))) (sorted_list_of_set {k' \<in> dom m. k \<le> k'})) \<and>
      bbFirst mem_bbolt t b = map (\<lambda>k. (k, the (m k))) (sorted_list_of_set (dom m)) \<and>
      bbLast mem_bbolt t b = (if dom m = {} then None else Some (Max (dom m), the (m (Max (dom m)))))"
    if c: "mem_contents t b = Some m" for t b m
  proof -
    obtain f where f: "fmlookup t b = Some f" "m = fmlookup f" using c by (auto simp: mem_contents_def)
    have fin: "finite (dom m)" by (simp add: f(2))
    have pairs: "mem_pairs t b = map (\<lambda>k. (k, the (m k))) (sorted_list_of_set (dom m))"
      by (simp add: mem_pairs_def f sorted_list_of_fset.rep_eq fmdom_dom)
    have "filter (\<lambda>k'. k \<le> k') (sorted_list_of_set (dom m)) = sorted_list_of_set {k' \<in> dom m. k \<le> k'}" for k
      using fin by (intro sorted_distinct_set_unique) (simp_all add: sorted_wrt_filter)
    then have seek: "bbSeek mem_bbolt t b k = map (\<lambda>k. (k, the (m k))) (sorted_list_of_set {k' \<in> dom m. k \<le> k'})" for k
      by (simp add: mem_bbolt_def pairs filter_map comp_def)
    have "last (sorted_list_of_set (dom m)) = Max (dom m)" if "dom m \<noteq> {}"
    proof (rule sym, rule Max_eqI [OF fin])
      show "y \<le> last (sorted_list_of_set (dom m))" if "y \<in> dom m" for y using that fin by (intro sorted_last) simp_all
      have "sorted_list_of_set (dom m) \<noteq> []" using that fin by simp
      then have "last (sorted_list_of_set (dom m)) \<in> set (sorted_list_of_set (dom m))" by (rule last_in_set)
      then show "last (sorted_list_of_set (dom m)) \<in> dom m" using fin by simp
    qed
    then have "bbLast mem_bbolt t b = (if dom m = {} then None else Some (Max (dom m), the (m (Max (dom m)))))"
      using fin by (simp add: mem_bbolt_def pairs last_map del: dom_eq_empty_conv)
    moreover have "bbFirst mem_bbolt t b = map (\<lambda>k. (k, the (m k))) (sorted_list_of_set (dom m))" by (simp add: mem_bbolt_def pairs)
    moreover have "\<forall>k. bbGet mem_bbolt t b k = m k" by (simp add: mem_bbolt_def f)
    ultimately show ?thesis using fin seek by blast
  qed
  then show ?thesis unfolding reads_in_order_def by blast
qed

lemma mem_writes: "writes_exactly False mem_bbolt mem_contents"
  unfolding writes_exactly_def
  by (auto simp: mem_bbolt_def mem_contents_def mem_edit_def fun_eq_iff ErrBucketNotFound_def)

lemma mem_updates: "updates_atomically False mem_bbolt mem_contents"
  unfolding updates_atomically_def
proof (intro allI disjI2)
  fix f :: "memdb \<times> BoltFields \<Rightarrow> (unit, memdb \<times> BoltFields) outcome" and d :: memdb and x :: BoltFields
  show "\<exists>t. mem_contents t = mem_contents (bbView mem_bbolt d) \<and>
      (case f (t, x) of
         Done _ (t', x') \<Rightarrow>
           (\<exists>d'. bbUpdate mem_bbolt f (d, x) = Done () (d', x') \<and> mem_contents (bbView mem_bbolt d') = mem_contents t') \<or>
           False \<and> (\<exists>e d'. bbUpdate mem_bbolt f (d, x) = Fail e (d', x') \<and> mem_contents (bbView mem_bbolt d') = mem_contents (bbView mem_bbolt d))
       | Fail e (t', x') \<Rightarrow> \<exists>d'. bbUpdate mem_bbolt f (d, x) = Fail e (d', x') \<and> mem_contents (bbView mem_bbolt d') = mem_contents (bbView mem_bbolt d)
       | Panic (t', x') \<Rightarrow> \<exists>d'. bbUpdate mem_bbolt f (d, x) = Panic (d', x') \<and> mem_contents (bbView mem_bbolt d') = mem_contents (bbView mem_bbolt d))"
    by (rule exI [of _ d]) (auto simp: mem_bbolt_def split: outcome.splits)
qed

lemma mem_bbolt_ok: "bbolt_ok False mem_bbolt mem_contents"
  by (simp add: bbolt_ok_def mem_updates mem_reads mem_writes)

lemma mem_cursor: "cursor_continues mem_bbolt mem_contents"
  by (auto simp: cursor_continues_def mem_bbolt_def bind_Done_iff)

definition demo_proto :: protolib where
  "demo_proto = \<lparr>plMarshalEntry = demo_marshal_entry, plUnmarshalEntry = demo_unmarshal_entry,
     plMarshalSnapshot = demo_marshal_snapshot, plUnmarshalSnapshot = demo_unmarshal_snapshot\<rparr>"

lemma demo_proto_ok: "proto_ok demo_proto"
  by (simp add: proto_ok_def demo_proto_def demo_entry_lossless demo_snapshot_lossless)

section \<open>Properties\<close>

definition demo_first :: LogEntry where
  "demo_first = \<lparr>eTerm = 1, eIndex = 1, eType = EntryNormal, eCommand = [9]\<rparr>"

lemma demo_opened:
  obtains s where "Bolt_Open mem_bbolt demo_proto fmempty = Done () s" "bolt_rel mem_bbolt demo_proto mem_contents s emptyLog"
proof -
  have "mem_contents (bbView mem_bbolt fmempty) = Map.empty" by (simp add: mem_bbolt_def mem_contents_def fun_eq_iff)
  then have "on_disk demo_proto emptyLog (created (mem_contents (bbView mem_bbolt fmempty)))" by (simp add: created_disk(2))
  from bolt_open [OF mem_bbolt_ok this] show thesis
    using that by (cases "Bolt_Open mem_bbolt demo_proto fmempty") auto
qed

lemma demo_storable:
  "fits [demo_first]" "storable_entries False demo_proto [demo_first]" "storable_snapshot False demo_proto demo_snap"
  "unat (LastIncludedIndex demo_snap) + 1 < 2 ^ 64"
  by (simp_all add: fits_def demo_first_def storable_entries_def known_entry_def marshals_def demo_proto_def MarshalEntry_def EntryToProto_def
      demo_marshal_entry_def type_codes_def storable_snapshot_def demo_snap_def wf_conf_def MarshalSnapshot_def SnapshotToProto_def
      ConfigurationToProto_def demo_marshal_snapshot_def)

lemma demo_append: "a_append [demo_first] emptyLog = Done () (emptyLog\<lparr>aEnts := [demo_first]\<rparr>)"
  by (simp add: a_append_def emptyLog_def demo_first_def aLast_def)

lemma demo_appended:
  obtains s where "bolt_rel mem_bbolt demo_proto mem_contents s (emptyLog\<lparr>aEnts := [demo_first]\<rparr>)"
proof -
  obtain s where s: "bolt_rel mem_bbolt demo_proto mem_contents s emptyLog" by (rule demo_opened)
  have "implements False (bolt_rel mem_bbolt demo_proto mem_contents) emptyLog
      (Bolt_AppendEntries mem_bbolt demo_proto [demo_first] s) (Done () (emptyLog\<lparr>aEnts := [demo_first]\<rparr>))"
    using bolt_append [OF mem_bbolt_ok demo_proto_ok s demo_storable(1,2) disjI1 [OF mem_cursor]] unfolding demo_append .
  then show thesis
    using that by (cases "Bolt_AppendEntries mem_bbolt demo_proto [demo_first] s") (auto simp: implements_def)
qed

text \<open>C6. The production store implements the log. For any database library with atomic updates and ordered
  cursors, in every state that stands for a log, saving a snapshot, saving the hard state and appending
  after the last entry do to it what the abstract operation does and with the same result, or the library
  failed and the store, on disk and in memory, stands for the log it stood for before; none of them
  panics. Without failures of the library only the first is possible. Reads give what the log holds. An
  append that truncates and a compaction go on using a cursor after a deletion, of which the library
  promises nothing; whatever it does, if they report an error the store stands for the same log.\<close>

theorem bolt_refines_log:
  assumes "bbolt_ok failing B cont" and "proto_ok P" and "bolt_rel B P cont s a"
    and "fits es" and "storable_entries failing P es"
    and "storable_snapshot failing P sn" and "unat (LastIncludedIndex sn) + 1 < 2 ^ 64" and "i \<noteq> 0"
  shows "(aLast a < unat (eIndex (hd es)) \<longrightarrow>
      implements failing (bolt_rel B P cont) a (Bolt_AppendEntries B P es s) (a_append es a)) \<and>
    implements failing (bolt_rel B P cont) a (Bolt_SaveSnapshot B P sn s) (a_save sn a) \<and>
    implements failing (bolt_rel B P cont) a (Bolt_SetHardState B hs s) (a_set_hard hs a) \<and>
    (\<forall>e s'. Bolt_AppendEntries B P fs s = Fail e s' \<or> Bolt_Compact B P j s = Fail e s' \<longrightarrow> bolt_rel B P cont s' a) \<and>
    Bolt_InitialState B P s = Ok (aHard a, aSnap a) \<and> Bolt_LoadSnapshot B P s = Ok (aSnap a) \<and>
    Bolt_Term B P i s = a_term (unat i) a \<and> Bolt_GetEntry B P i s = a_get (unat i) a \<and>
    Bolt_Entries B P lo hi s = a_entries (unat lo) (unat hi) a \<and>
    unat (Bolt_FirstIndex s) = aBase a + 1 \<and> unat (Bolt_LastIndex s) = aLast a"
  using bolt_append [OF assms(1-5)] bolt_save [OF assms(1-3,6,7)] bolt_set_hard [OF assms(1,3)]
    bolt_failed [OF assms(1,3)] bolt_load [OF assms(1,3)] bolt_term [OF assms(1,3,8)] bolt_get [OF assms(1,3)]
    bolt_entries [OF assms(1,3)] assms(3)
  by (auto simp: Bolt_FirstIndex_def Bolt_LastIndex_def bolt_rel_def in_memory_def)

theorem bolt_refines_log_witness:
  "\<exists>s s'. Bolt_Open mem_bbolt demo_proto fmempty = Done () s \<and> Bolt_AppendEntries mem_bbolt demo_proto [demo_first] s = Done () s' \<and>
     bolt_rel mem_bbolt demo_proto mem_contents s' (emptyLog\<lparr>aEnts := [demo_first]\<rparr>)"
proof -
  obtain s where s: "Bolt_Open mem_bbolt demo_proto fmempty = Done () s" "bolt_rel mem_bbolt demo_proto mem_contents s emptyLog"
    by (rule demo_opened)
  have "(1 :: Index) \<noteq> 0" "aLast emptyLog < unat (eIndex (hd [demo_first]))" by (simp_all add: emptyLog_def aLast_def demo_first_def)
  with bolt_refines_log [OF mem_bbolt_ok demo_proto_ok s(2) demo_storable this(1)]
  have "implements False (bolt_rel mem_bbolt demo_proto mem_contents) emptyLog
      (Bolt_AppendEntries mem_bbolt demo_proto [demo_first] s) (a_append [demo_first] emptyLog)" by blast
  then show ?thesis
    using s(1) unfolding demo_append
    by (cases "Bolt_AppendEntries mem_bbolt demo_proto [demo_first] s") (auto simp: implements_def)
qed



text \<open>C8. Nothing is lost by a crash. Opening a new database gives the empty log, and opening the database of a
  store that stands for a log, with all that was kept in memory forgotten, gives a store that stands for
  the same log: its hard state, snapshot, compaction floor and entries. Opening can fail only if the
  library does, and then the database is as it was.\<close>

theorem bolt_survives_crash:
  assumes "bbolt_ok failing B cont" and "bolt_rel B P cont (d, x) a" and "cont (bbView B d0) = Map.empty"
  shows "post (\<lambda>_ s. bolt_rel B P cont s a) (\<lambda>_ (d', _). failing \<and> cont (bbView B d') = cont (bbView B d)) (\<lambda>_. False) (Bolt_Open B P d) \<and>
    post (\<lambda>_ s. bolt_rel B P cont s emptyLog) (\<lambda>_ (d', _). failing \<and> cont (bbView B d') = Map.empty) (\<lambda>_. False) (Bolt_Open B P d0)"
proof -
  have disk: "on_disk P a (cont (bbView B d))" using assms(2) by (simp add: bolt_rel_def)
  then have "on_disk P a (created (cont (bbView B d)))" using created_disk(1) [OF disk] by simp
  from bolt_open [OF assms(1) this] bolt_open [OF assms(1), of P emptyLog d0] assms(3) created_disk(2)
  show ?thesis by simp
qed

theorem bolt_survives_crash_witness:
  "\<exists>d x s. bolt_rel mem_bbolt demo_proto mem_contents (d, x) (emptyLog\<lparr>aEnts := [demo_first]\<rparr>) \<and>
     Bolt_Open mem_bbolt demo_proto d = Done () s \<and> bolt_rel mem_bbolt demo_proto mem_contents s (emptyLog\<lparr>aEnts := [demo_first]\<rparr>)"
proof -
  obtain d x where r: "bolt_rel mem_bbolt demo_proto mem_contents (d, x) (emptyLog\<lparr>aEnts := [demo_first]\<rparr>)"
    using demo_appended by (metis prod.exhaust)
  have "mem_contents (bbView mem_bbolt fmempty) = Map.empty" by (simp add: mem_bbolt_def mem_contents_def fun_eq_iff)
  from conjunct1 [OF bolt_survives_crash [OF mem_bbolt_ok r this]] r show ?thesis
    by (cases "Bolt_Open mem_bbolt demo_proto d") auto
qed

end
